(* ===== verification/Prelude.thy ===== *)
theory Prelude
  imports Main "HOL-Library.Word" "HOL-Library.Char_ord" "HOL-Library.List_Lexorder"
    "HOL-Library.Multiset"
begin

text \<open>
  Shared vocabulary of the development: bytes and strings as the C++ code sees them
  (\<open>std::string_view\<close> is a list of 8-bit characters), the \<open>find\<close>/\<open>substr\<close>
  idioms, decimal printing and \<open>std::from_chars\<close>, a stable sort by a comparison, and
  results that are either an error or a value.  Nothing here is specific to one component.
\<close>

named_theorems str_simps \<open>characterisations of the string primitives\<close>
named_theorems byte_defs \<open>character class definitions\<close>

subsection \<open>Bytes\<close>

definition byte :: "char \<Rightarrow> nat" where
  "byte c = of_char c"

abbreviation mk_byte :: "nat \<Rightarrow> char" where
  "mk_byte n \<equiv> char_of n"

lemma byte_less [simp]: "byte c < 256"
  by (simp add: byte_def)

lemma byte_le [simp]: "byte c \<le> 255"
  using byte_less [of c] by linarith

lemma mk_byte_byte [simp]: "mk_byte (byte c) = c"
  by (simp add: byte_def)

lemma byte_mk_byte [simp]: "n < 256 \<Longrightarrow> byte (mk_byte n) = n"
  by (simp add: byte_def)

lemma byte_inject [simp]: "byte a = byte b \<longleftrightarrow> a = b"
  by (metis mk_byte_byte)

lemma mk_byte_eq_iff: "n < 256 \<Longrightarrow> mk_byte n = c \<longleftrightarrow> byte c = n"
  by auto

definition is_digit :: "char \<Rightarrow> bool" where
  "is_digit c \<longleftrightarrow> 48 \<le> byte c \<and> byte c \<le> 57"

definition is_lower :: "char \<Rightarrow> bool" where
  "is_lower c \<longleftrightarrow> 97 \<le> byte c \<and> byte c \<le> 122"

definition is_upper :: "char \<Rightarrow> bool" where
  "is_upper c \<longleftrightarrow> 65 \<le> byte c \<and> byte c \<le> 90"

definition iscntrl :: "char \<Rightarrow> bool" where
  "iscntrl c \<longleftrightarrow> byte c < 32 \<or> byte c = 127"

lemmas byte_classes [byte_defs] = is_digit_def is_lower_def is_upper_def iscntrl_def

subsection \<open>Searching and cutting strings\<close>

text \<open>\<open>find_char c s\<close> is \<open>s.find(c)\<close>; \<open>npos\<close> is \<open>None\<close>.\<close>

primrec find_char :: "char \<Rightarrow> string \<Rightarrow> nat option" where
  "find_char c [] = None"
| "find_char c (x # xs) = (if x = c then Some 0 else map_option Suc (find_char c xs))"

lemma find_char_None [str_simps]: "find_char c s = None \<longleftrightarrow> c \<notin> set s"
  by (induction s) auto

lemma find_char_SomeD:
  "find_char c s = Some i \<Longrightarrow> i < length s \<and> s ! i = c \<and> c \<notin> set (take i s)"
  by (induction s arbitrary: i) (auto split: if_splits)

lemma find_char_split:
  "find_char c s = Some i \<Longrightarrow> s = take i s @ c # drop (Suc i) s \<and> c \<notin> set (take i s)"
  using find_char_SomeD id_take_nth_drop by metis

lemma find_char_append: "c \<notin> set p \<Longrightarrow> find_char c (p @ c # r) = Some (length p)"
  by (induction p) auto

text \<open>
  \<open>cut_at c s\<close> is the idiom \<open>pos = s.find(c); s.substr(0, pos); s.substr(pos + 1)\<close>:
  the part before the first \<open>c\<close> and, when there is one, the part after it.
\<close>

definition cut_at :: "char \<Rightarrow> string \<Rightarrow> string \<times> string option" where
  "cut_at c s = (case find_char c s of
     None \<Rightarrow> (s, None)
   | Some i \<Rightarrow> (take i s, Some (drop (Suc i) s)))"

abbreviation before :: "char \<Rightarrow> string \<Rightarrow> string" where
  "before c s \<equiv> fst (cut_at c s)"

lemma cut_at_None_iff [str_simps]: "cut_at c s = (p, None) \<longleftrightarrow> p = s \<and> c \<notin> set s"
  by (auto simp: cut_at_def find_char_None split: option.splits dest: find_char_SomeD)

lemma cut_at_Some_iff [str_simps]: "cut_at c s = (p, Some r) \<longleftrightarrow> s = p @ c # r \<and> c \<notin> set p"
proof
  assume "cut_at c s = (p, Some r)"
  then obtain i where i: "find_char c s = Some i" and p: "p = take i s" and r: "r = drop (Suc i) s"
    by (auto simp: cut_at_def split: option.splits)
  from find_char_SomeD [OF i] p r show "s = p @ c # r \<and> c \<notin> set p"
    by (auto simp: id_take_nth_drop)
next
  assume "s = p @ c # r \<and> c \<notin> set p"
  then show "cut_at c s = (p, Some r)"
    by (simp add: cut_at_def find_char_append)
qed

lemma cut_at_append [simp]: "c \<notin> set p \<Longrightarrow> cut_at c (p @ c # r) = (p, Some r)"
  by (simp add: cut_at_Some_iff)

lemma cut_at_absent [simp]: "c \<notin> set s \<Longrightarrow> cut_at c s = (s, None)"
  by (simp add: cut_at_None_iff)

lemma takeWhile_neq_absent [simp]: "c \<notin> set s \<Longrightarrow> takeWhile (\<lambda>x. x \<noteq> c) s = s"
  by (induction s) auto

lemma before_eq [str_simps]: "before c s = takeWhile (\<lambda>x. x \<noteq> c) s"
proof (cases "cut_at c s")
  case (Pair p q)
  then show ?thesis
  proof (cases q)
    case None
    with Pair show ?thesis by (auto simp: cut_at_None_iff)
  next
    case (Some r)
    with Pair have "s = p @ c # r" "c \<notin> set p" by (auto simp: cut_at_Some_iff)
    with Pair show ?thesis by (auto simp: takeWhile_tail)
  qed
qed

lemma before_absent: "c \<notin> set (before c s)"
  by (auto simp: before_eq dest: set_takeWhileD)

lemma cut_at_cases:
  obtains (absent) "c \<notin> set s" "cut_at c s = (s, None)"
  | (found) p r where "s = p @ c # r" "c \<notin> set p" "cut_at c s = (p, Some r)"
  by (cases "cut_at c s"; cases "snd (cut_at c s)") (auto simp: cut_at_None_iff cut_at_Some_iff)

lemma cut_at_Some_length: "cut_at c s = (p, Some r) \<Longrightarrow> length r < length s"
  by (auto simp: cut_at_Some_iff)

text \<open>
  \<open>pieces c s\<close> lists what the loop \<open>while (!s.empty()) { part = before c; s = after c; }\<close>
  visits: a trailing separator yields no empty last piece, and the empty string no piece.
\<close>

function pieces :: "char \<Rightarrow> string \<Rightarrow> string list" where
  "pieces c s = (if s = [] then [] else
     (case cut_at c s of (p, None) \<Rightarrow> [p] | (p, Some r) \<Rightarrow> p # pieces c r))"
  by pat_completeness auto
termination
  by (relation "measure (\<lambda>(c, s). length s)") (auto dest!: sym [of "(_, Some _)"] simp: cut_at_Some_iff)

declare pieces.simps [simp del]

lemma pieces_Nil [simp]: "pieces c [] = []"
  by (simp add: pieces.simps)

lemma pieces_absent: "c \<notin> set s \<Longrightarrow> s \<noteq> [] \<Longrightarrow> pieces c s = [s]"
  by (simp add: pieces.simps)

lemma pieces_append: "c \<notin> set p \<Longrightarrow> pieces c (p @ c # r) = p # pieces c r"
  by (simp add: pieces.simps [of c "p @ c # r"])

lemma pieces_absent_char: "p \<in> set (pieces c s) \<Longrightarrow> c \<notin> set p"
proof (induction c s rule: pieces.induct)
  case (1 c s)
  show ?case
  proof (cases c s rule: cut_at_cases)
    case absent
    with "1.prems" show ?thesis by (simp add: pieces.simps [of c s] split: if_splits)
  next
    case (found q r)
    then have "p \<in> set (q # pieces c r)"
      using "1.prems" by (simp add: pieces_append)
    then show ?thesis
      using "1.IH" [of q "Some r" r] found by auto
  qed
qed

fun starts_with :: "string \<Rightarrow> string \<Rightarrow> bool" where
  "starts_with s [] = True"
| "starts_with [] (p # ps) = False"
| "starts_with (x # xs) (p # ps) = (x = p \<and> starts_with xs ps)"

lemma starts_with_iff [str_simps]: "starts_with s p \<longleftrightarrow> (\<exists>r. s = p @ r)"
  by (induction s p rule: starts_with.induct) auto

lemma starts_with_append [simp]: "starts_with (p @ r) p"
  by (auto simp: starts_with_iff)

definition ends_with :: "string \<Rightarrow> string \<Rightarrow> bool" where
  "ends_with s p = starts_with (rev s) (rev p)"

lemma ends_with_iff [str_simps]: "ends_with s p \<longleftrightarrow> (\<exists>r. s = r @ p)"
  unfolding ends_with_def starts_with_iff
  by (metis rev_append rev_rev_ident)

text \<open>\<open>find_str p s\<close> is \<open>s.find(p)\<close> for a string \<open>p\<close>.\<close>

fun find_str :: "string \<Rightarrow> string \<Rightarrow> nat option" where
  "find_str p [] = (if p = [] then Some 0 else None)"
| "find_str p (x # xs) =
     (if starts_with (x # xs) p then Some 0 else map_option Suc (find_str p xs))"

definition contains :: "string \<Rightarrow> string \<Rightarrow> bool" where
  "contains s p \<longleftrightarrow> find_str p s \<noteq> None"

lemma find_str_SomeD: "find_str p s = Some i \<Longrightarrow> starts_with (drop i s) p \<and> i \<le> length s"
  by (induction s arbitrary: i) (auto split: if_splits)

lemma find_str_None: "find_str p s = None \<Longrightarrow> s \<noteq> u @ p @ v"
proof (induction s arbitrary: u)
  case Nil
  then show ?case by (auto split: if_splits)
next
  case (Cons x xs)
  then show ?case
    by (cases u) (auto simp: starts_with_iff split: if_splits)
qed

lemma contains_iff [str_simps]: "contains s p \<longleftrightarrow> (\<exists>u v. s = u @ p @ v)"
proof
  assume "contains s p"
  then obtain i where "find_str p s = Some i" by (auto simp: contains_def)
  from find_str_SomeD [OF this] obtain r where "drop i s = p @ r"
    by (auto simp: starts_with_iff)
  then have "s = take i s @ p @ r" by (metis append_take_drop_id)
  then show "\<exists>u v. s = u @ p @ v" by blast
next
  assume "\<exists>u v. s = u @ p @ v"
  then show "contains s p" using find_str_None by (fastforce simp: contains_def)
qed

subsection \<open>Decimal numbers\<close>

definition digit :: "nat \<Rightarrow> char" where
  "digit n = mk_byte (48 + n)"

fun to_string :: "nat \<Rightarrow> string" where
  "to_string n = (if n < 10 then [digit n] else to_string (n div 10) @ [digit (n mod 10)])"

declare to_string.simps [simp del]

definition digits_value :: "string \<Rightarrow> nat" where
  "digits_value s = foldl (\<lambda>acc c. 10 * acc + (byte c - 48)) 0 s"

lemma byte_digit [simp]: "n < 10 \<Longrightarrow> byte (digit n) = 48 + n"
  by (simp add: digit_def)

lemma is_digit_digit [simp]: "n < 10 \<Longrightarrow> is_digit (digit n)"
  by (simp add: is_digit_def)

lemma digits_value_Nil [simp]: "digits_value [] = 0"
  by (simp add: digits_value_def)

lemma digits_value_snoc [simp]: "digits_value (s @ [c]) = 10 * digits_value s + (byte c - 48)"
  by (simp add: digits_value_def)

lemma to_string_nonempty [simp]: "to_string n \<noteq> []"
  by (subst to_string.simps) simp

lemma to_string_digits: "c \<in> set (to_string n) \<Longrightarrow> is_digit c"
proof (induction n rule: to_string.induct)
  case (1 n)
  then show ?case
    by (cases "n < 10") (auto simp: to_string.simps [of n])
qed

lemma digits_value_to_string [simp]: "digits_value (to_string n) = n"
proof (induction n rule: to_string.induct)
  case (1 n)
  then show ?case
    by (cases "n < 10") (auto simp: to_string.simps [of n] digits_value_def)
qed

lemma to_string_inject [simp]: "to_string a = to_string b \<longleftrightarrow> a = b"
  by (metis digits_value_to_string)

lemma length_to_string: "n < 10 ^ k \<Longrightarrow> 0 < k \<Longrightarrow> length (to_string n) \<le> k"
proof (induction n arbitrary: k rule: to_string.induct)
  case (1 n)
  show ?case
  proof (cases "n < 10")
    case True
    with 1 show ?thesis by (simp add: to_string.simps [of n])
  next
    case False
    with "1.prems" obtain j where k: "k = Suc j" "0 < j"
      by (cases k; cases "k - 1") auto
    with "1.prems" have "n div 10 < 10 ^ j"
      by (simp add: less_mult_imp_div_less mult.commute)
    with "1.IH" False k have "length (to_string (n div 10)) \<le> j" by blast
    with False k show ?thesis by (simp add: to_string.simps [of n])
  qed
qed

text \<open>
  \<open>std::from_chars\<close> for an unsigned type whose largest value is \<open>maximum\<close>: the longest
  prefix of digits, an error when it is empty or its value does not fit, and the rest of the
  text (the returned pointer) otherwise.
\<close>

definition from_chars :: "nat \<Rightarrow> string \<Rightarrow> (nat \<times> string) option" where
  "from_chars maximum s =
     (let ds = takeWhile is_digit s; n = digits_value ds in
      if ds = [] \<or> maximum < n then None else Some (n, dropWhile is_digit s))"

abbreviation u32_max :: nat where "u32_max \<equiv> 4294967295"
abbreviation u64_max :: nat where "u64_max \<equiv> 18446744073709551615"

lemma from_chars_to_string:
  assumes "n \<le> maximum" and "\<And>c r'. r = c # r' \<Longrightarrow> \<not> is_digit c"
  shows "from_chars maximum (to_string n @ r) = Some (n, r)"
proof -
  have "takeWhile is_digit (to_string n @ r) = to_string n @ takeWhile is_digit r"
    by (rule takeWhile_append2) (auto dest: to_string_digits)
  moreover have "dropWhile is_digit (to_string n @ r) = dropWhile is_digit r"
    by (rule dropWhile_append2) (auto dest: to_string_digits)
  moreover have "takeWhile is_digit r = []" "dropWhile is_digit r = r"
    using assms(2) by (cases r; simp)+
  ultimately show ?thesis
    using assms(1) by (simp add: from_chars_def Let_def)
qed

subsection \<open>Sorting by a comparison\<close>

text \<open>\<open>sort_less lt\<close> is \<open>std::stable_sort\<close> with the strict comparison \<open>lt\<close>.\<close>

primrec insert_less :: "('a \<Rightarrow> 'a \<Rightarrow> bool) \<Rightarrow> 'a \<Rightarrow> 'a list \<Rightarrow> 'a list" where
  "insert_less lt x [] = [x]"
| "insert_less lt x (y # ys) = (if lt y x then y # insert_less lt x ys else x # y # ys)"

definition sort_less :: "('a \<Rightarrow> 'a \<Rightarrow> bool) \<Rightarrow> 'a list \<Rightarrow> 'a list" where
  "sort_less lt xs = foldr (insert_less lt) xs []"

lemma mset_insert_less [simp]: "mset (insert_less lt x xs) = add_mset x (mset xs)"
  by (induction xs) auto

lemma set_insert_less [simp]: "set (insert_less lt x xs) = insert x (set xs)"
  by (induction xs) auto

lemma mset_sort_less [simp]: "mset (sort_less lt xs) = mset xs"
  by (induction xs) (auto simp: sort_less_def)

lemma set_sort_less [simp]: "set (sort_less lt xs) = set xs"
  by (metis mset_sort_less set_mset_mset)

lemma length_sort_less [simp]: "length (sort_less lt xs) = length xs"
  by (metis mset_sort_less size_mset)

lemma sort_less_Nil [simp]: "sort_less lt [] = []"
  by (simp add: sort_less_def)

text \<open>
  A comparison that sorts, as the C++ library requires: a strict weak order.  The laws of
  sorting hold for every such comparison, and each comparison of the program is shown to be one.
\<close>

locale strict_weak_order =
  fixes lt :: "'a \<Rightarrow> 'a \<Rightarrow> bool"
  assumes asym: "lt x y \<Longrightarrow> \<not> lt y x"
    and negtrans: "lt x z \<Longrightarrow> lt x y \<or> lt y z"
begin

lemma insert_less_sorted:
  "sorted_wrt (\<lambda>a b. \<not> lt b a) xs \<Longrightarrow> sorted_wrt (\<lambda>a b. \<not> lt b a) (insert_less lt x xs)"
proof (induction xs)
  case Nil
  then show ?case by simp
next
  case (Cons y ys)
  then show ?case
    using asym negtrans by (auto; blast)
qed

lemma sort_less_sorted: "sorted_wrt (\<lambda>a b. \<not> lt b a) (sort_less lt xs)"
  by (induction xs) (auto simp: sort_less_def insert_less_sorted)

lemma sorted_head_min:
  "sorted_wrt (\<lambda>a b. \<not> lt b a) (x # xs) \<Longrightarrow> y \<in> set (x # xs) \<Longrightarrow> \<not> lt y x"
  using asym by auto

end

text \<open>When only equal elements are tied, the sorted list is determined by the multiset.\<close>

locale strict_total_order = strict_weak_order +
  assumes total: "lt x y \<or> lt y x \<or> x = y"
begin

lemma sorted_unique:
  assumes "mset xs = mset ys"
    and "sorted_wrt (\<lambda>a b. \<not> lt b a) xs" and "sorted_wrt (\<lambda>a b. \<not> lt b a) ys"
  shows "xs = ys"
  using assms
proof (induction xs arbitrary: ys)
  case Nil
  then show ?case by simp
next
  case (Cons x xs)
  then obtain y ys' where ys: "ys = y # ys'" by (cases ys) auto
  have "x \<in> set ys" "y \<in> set (x # xs)"
    using Cons.prems(1) ys by (metis list.set_intros(1) set_mset_mset)+
  then have "\<not> lt x y" "\<not> lt y x"
    using sorted_head_min Cons.prems(2,3) ys by blast+
  then have "x = y" using total by blast
  with Cons ys show ?case by auto
qed

lemma sort_less_perm: "mset xs = mset ys \<Longrightarrow> sort_less lt xs = sort_less lt ys"
  by (rule sorted_unique) (simp_all add: sort_less_sorted)

end

subsection \<open>Validation\<close>

text \<open>A sequence of checks reports the first failure; \<open>None\<close> is the empty message.\<close>

definition check :: "bool \<Rightarrow> 'e \<Rightarrow> 'e option" where
  "check bad e = (if bad then Some e else None)"

primrec first_error :: "'e option list \<Rightarrow> 'e option" where
  "first_error [] = None"
| "first_error (x # xs) = (case x of None \<Rightarrow> first_error xs | Some e \<Rightarrow> Some e)"

lemma check_None [simp]: "check bad e = None \<longleftrightarrow> \<not> bad"
  by (simp add: check_def)

declare first_error.simps(2) [simp del]

lemma first_error_Cons_None [simp]: "first_error (x # xs) = None \<longleftrightarrow> x = None \<and> first_error xs = None"
  by (auto simp: first_error.simps(2) split: option.splits)

lemma first_error_None: "first_error xs = None \<longleftrightarrow> (\<forall>x \<in> set xs. x = None)"
  by (induction xs) auto

text \<open>The loop \<open>for (x : xs) if (!ok(x) || !seen.insert(x).second) return error\<close>.\<close>

primrec unique_names :: "('a \<Rightarrow> bool) \<Rightarrow> 'a set \<Rightarrow> 'a list \<Rightarrow> bool" where
  "unique_names ok seen [] = True"
| "unique_names ok seen (x # xs) = (ok x \<and> x \<notin> seen \<and> unique_names ok (insert x seen) xs)"

lemma unique_names_iff:
  "unique_names ok seen xs \<longleftrightarrow> list_all ok xs \<and> distinct xs \<and> set xs \<inter> seen = {}"
  by (induction xs arbitrary: seen) auto

subsection \<open>Words and bits\<close>

unbundle bit_operations_syntax

lemma push_bit_or_nat: "l < 2 ^ n \<Longrightarrow> push_bit n h OR l = 2 ^ n * h + (l :: nat)"
proof -
  assume "l < 2 ^ n"
  then have l: "take_bit n l = l" by (simp add: take_bit_nat_eq_self)
  have "push_bit n h AND take_bit n l = 0"
    by (rule bit_eqI) (auto simp: bit_simps)
  then have "push_bit n h + l = push_bit n h OR l"
    unfolding l by (rule disjunctive_add_eq_or)
  then show ?thesis by (simp add: push_bit_eq_mult ac_simps)
qed

lemma and_push_bit: "b AND push_bit n m = push_bit n (drop_bit n b AND (m :: nat))"
  by (rule bit_eqI) (auto simp: bit_simps)

lemma unat_less_8 [simp]: "unat (w :: 8 word) < 256"
  using unsigned_less [of w, where 'a = nat] by simp

lemma unat_less_64 [simp]: "unat (w :: 64 word) < 18446744073709551616"
  using unsigned_less [of w, where 'a = nat] by simp

lemma unat_le_64 [simp]: "unat (w :: 64 word) \<le> u64_max"
  using unat_less_64 [of w] by linarith

lemma unat_add_bounded: "unat a + unat b \<le> unat c \<Longrightarrow> unat (a + b) = unat a + unat b" for a b c :: "64 word"
  using unat_less_64 [of c] by (simp add: unat_word_ariths(1) del: unat_less_64)

subsection \<open>Results\<close>

text \<open>\<open>bind_result\<close> runs a step that may throw: the error wins.\<close>

definition bind_result :: "'e + 'a \<Rightarrow> ('a \<Rightarrow> 'e + 'b) \<Rightarrow> 'e + 'b" where
  "bind_result m f = (case m of Inl e \<Rightarrow> Inl e | Inr x \<Rightarrow> f x)"

lemma bind_result_simps [simp]:
  "bind_result (Inl e) f = Inl e" "bind_result (Inr x) f = f x"
  by (simp_all add: bind_result_def)

lemma bind_result_Inr_iff: "bind_result m f = Inr y \<longleftrightarrow> (\<exists>x. m = Inr x \<and> f x = Inr y)"
  by (cases m) auto

lemma bind_result_cong [fundef_cong]:
  "m = m' \<Longrightarrow> (\<And>x. m' = Inr x \<Longrightarrow> f x = g x) \<Longrightarrow> bind_result m f = bind_result m' g"
  by (cases m') auto

subsection \<open>Codecs\<close>

text \<open>
  A writer and a reader that invert each other on the values of interest.  Lists of such values,
  field by field, inherit the law, and two values with the same image are equal.
\<close>

locale codec =
  fixes encode :: "'a \<Rightarrow> 'm" and decode :: "'m \<Rightarrow> 'a" and valid :: "'a \<Rightarrow> bool"
  assumes roundtrip: "valid x \<Longrightarrow> decode (encode x) = x"
begin

lemma list_roundtrip: "list_all valid xs \<Longrightarrow> map (decode \<circ> encode) xs = xs"
  by (induction xs) (auto simp: roundtrip)

lemma encode_inject: "valid x \<Longrightarrow> valid y \<Longrightarrow> encode x = encode y \<Longrightarrow> x = y"
  by (metis roundtrip)

end

subsection \<open>State machines\<close>

text \<open>
  A component that keeps state: where it starts, one step of any of its operations, and an invariant.
  What holds at the start and survives every operation holds in every reachable state.
\<close>

locale state_machine =
  fixes starts :: "'s \<Rightarrow> bool" and step :: "'s \<Rightarrow> 's \<Rightarrow> bool" and invariant :: "'s \<Rightarrow> bool"
  assumes initial: "starts s \<Longrightarrow> invariant s"
    and preserved: "invariant s \<Longrightarrow> step s s' \<Longrightarrow> invariant s'"
begin

lemma invariant_steps: "step\<^sup>*\<^sup>* s s' \<Longrightarrow> invariant s \<Longrightarrow> invariant s'"
  by (induction rule: rtranclp_induct) (auto intro: preserved)

lemma reachable_invariant: "starts s \<Longrightarrow> step\<^sup>*\<^sup>* s s' \<Longrightarrow> invariant s'"
  using initial invariant_steps by blast

end

end
