(* ===== verification/Route_Policy.thy ===== *)
theory Route_Policy
  imports Prelude
begin

text \<open>
  \<open>src/common/route_policy.h\<close>: ASCII case folding and trimming, HTTP tokens, host names and
  the checks on paths and query strings that management validation and the data plane share.
  A \<open>string_view\<close> is a list of bytes; an index of host bindings is a finite map.
\<close>

subsection \<open>ASCII text\<close>

definition lower_ascii :: "char \<Rightarrow> char" where
  "lower_ascii c = (if is_upper c then mk_byte (byte c + 32) else c)"

text \<open>\<open>std::tolower\<close> in the default \<open>C\<close> locale folds the same letters.\<close>

abbreviation tolower :: "char \<Rightarrow> char" where
  "tolower \<equiv> lower_ascii"

fun ascii_equal_loop :: "string \<Rightarrow> string \<Rightarrow> bool" where
  "ascii_equal_loop (l # ls) (r # rs) =
     (if lower_ascii l \<noteq> lower_ascii r then False else ascii_equal_loop ls rs)"
| "ascii_equal_loop _ _ = True"

definition ascii_equal :: "string \<Rightarrow> string \<Rightarrow> bool" where
  "ascii_equal left right =
     (if length left \<noteq> length right then False else ascii_equal_loop left right)"

definition ascii_starts_with :: "string \<Rightarrow> string \<Rightarrow> bool" where
  "ascii_starts_with v p \<longleftrightarrow> length p \<le> length v \<and> ascii_equal (take (length p) v) p"

definition is_ows :: "char \<Rightarrow> bool" where
  "is_ows c \<longleftrightarrow> c = CHR '' '' \<or> c = CHR 0x09"

definition trim_ows :: "string \<Rightarrow> string" where
  "trim_ows v = rev (dropWhile is_ows (rev (dropWhile is_ows v)))"

definition is_http_token_char :: "char \<Rightarrow> bool" where
  "is_http_token_char c \<longleftrightarrow> is_lower c \<or> is_upper c \<or> is_digit c \<or>
     c \<in> set ''!#$%&'' \<or> c = CHR 0x27 \<or> c \<in> set ''*+-.^_`|~''"

fun all_token_chars :: "string \<Rightarrow> bool" where
  "all_token_chars [] = True"
| "all_token_chars (c # cs) = (if \<not> is_http_token_char c then False else all_token_chars cs)"

definition http_token :: "string \<Rightarrow> nat \<Rightarrow> bool" where
  "http_token v maximum =
     (if v = [] \<or> length v > maximum then False else all_token_chars v)"

definition clean_text :: "string \<Rightarrow> nat \<Rightarrow> bool" where
  "clean_text v maximum \<longleftrightarrow> length v \<le> maximum \<and> list_all (\<lambda>c. \<not> iscntrl c) v"

subsection \<open>Host names\<close>

definition remove_trailing_dot :: "string \<Rightarrow> string" where
  "remove_trailing_dot v = (if ends_with v ''.'' then butlast v else v)"

definition hostname :: "string \<Rightarrow> string" where
  "hostname v = map tolower (remove_trailing_dot (before CHR '':'' v))"

definition label_char :: "char \<Rightarrow> bool" where
  "label_char c \<longleftrightarrow> is_lower c \<or> is_upper c \<or> is_digit c \<or> c = CHR ''-''"

definition bad_label :: "string \<Rightarrow> bool" where
  "bad_label label \<longleftrightarrow> label = [] \<or> length label > 63 \<or> hd label = CHR ''-'' \<or>
     last label = CHR ''-'' \<or> list_ex (\<lambda>c. \<not> label_char c) label"

function exact_hostname_loop :: "string \<Rightarrow> bool" where
  "exact_hostname_loop v = (if v = [] then False else
     (case cut_at CHR ''.'' v of
        (label, dot) \<Rightarrow>
          if bad_label label then False else
          (case dot of
             None \<Rightarrow> True
           | Some rest \<Rightarrow> if rest = [] then False else exact_hostname_loop rest)))"
  by pat_completeness auto
termination
  by (relation "measure length") (auto dest!: sym [of "(_, Some _)"] simp: cut_at_Some_iff)

declare exact_hostname_loop.simps [simp del]

definition exact_hostname :: "string \<Rightarrow> bool" where
  "exact_hostname v =
     (if v = [] \<or> length v > 253 then False else exact_hostname_loop (remove_trailing_dot v))"

definition find_hostname :: "(string \<rightharpoonup> 'v) \<Rightarrow> string \<Rightarrow> 'v option" where
  "find_hostname index host =
     (if \<not> exact_hostname host then None else
      (case index host of
         Some v \<Rightarrow> Some v
       | None \<Rightarrow>
           (case find_char CHR ''.'' host of
              None \<Rightarrow> None
            | Some dot \<Rightarrow> index (''*'' @ drop dot host))))"

subsection \<open>Modes, paths and query strings\<close>

definition rewrite_mode :: "string \<Rightarrow> bool" where
  "rewrite_mode mode \<longleftrightarrow> mode = [] \<or> mode = ''none'' \<or> mode = ''replace_path'' \<or>
     mode = ''strip_prefix'' \<or> mode = ''replace_prefix''"

definition query_mode :: "string \<Rightarrow> bool" where
  "query_mode mode \<longleftrightarrow> mode = [] \<or> mode = ''preserve'' \<or> mode = ''drop'' \<or> mode = ''replace''"

definition query_string :: "string \<Rightarrow> bool" where
  "query_string v \<longleftrightarrow> length v \<le> 2048 \<and> \<not> starts_with v ''?'' \<and>
     list_all (\<lambda>c. \<not> (byte c \<le> 32 \<or> byte c = 127 \<or> c = CHR ''#'')) v"

definition path_only :: "string \<Rightarrow> bool" where
  "path_only v \<longleftrightarrow> v \<noteq> [] \<and> hd v = CHR ''/'' \<and> length v \<le> 2048 \<and>
     list_all (\<lambda>c. c \<noteq> CHR ''?'' \<and> c \<noteq> CHR ''#'') v \<and>
     list_all (\<lambda>c. \<not> (byte c \<le> 32 \<or> byte c = 127)) v"

subsection \<open>Case folding\<close>

lemma byte_lower_ascii: "byte (lower_ascii c) = (if is_upper c then byte c + 32 else byte c)"
  by (simp add: lower_ascii_def is_upper_def)

lemma lower_ascii_idem [simp]: "lower_ascii (lower_ascii c) = lower_ascii c"
  by (simp add: lower_ascii_def is_upper_def)

lemma map_lower_ascii_idem [simp]: "map lower_ascii (map lower_ascii s) = map lower_ascii s"
  by simp

lemma ascii_equal_iff: "ascii_equal l r \<longleftrightarrow> map lower_ascii l = map lower_ascii r"
proof -
  have "length l = length r \<Longrightarrow> ascii_equal_loop l r \<longleftrightarrow> map lower_ascii l = map lower_ascii r"
    by (induction l r rule: ascii_equal_loop.induct) auto
  then show ?thesis
    by (auto simp: ascii_equal_def dest: map_eq_imp_length_eq)
qed

lemma ascii_equal_refl [simp]: "ascii_equal s s"
  by (simp add: ascii_equal_iff)

lemma ascii_equal_sym: "ascii_equal l r \<longleftrightarrow> ascii_equal r l"
  by (auto simp: ascii_equal_iff)

lemma ascii_equal_trans: "ascii_equal a b \<Longrightarrow> ascii_equal b c \<Longrightarrow> ascii_equal a c"
  by (simp add: ascii_equal_iff)

lemma trim_ows_Nil [simp]: "trim_ows [] = []"
  by (simp add: trim_ows_def)

lemma dropWhile_fixed: "v = [] \<or> \<not> P (hd v) \<Longrightarrow> dropWhile P v = v"
  by (cases v) auto

lemma trim_ows_fixed:
  "v = [] \<or> (\<not> is_ows (hd v) \<and> \<not> is_ows (last v)) \<Longrightarrow> trim_ows v = v"
  unfolding trim_ows_def by (auto simp: dropWhile_fixed hd_rev)

lemma trim_ows_shape: "trim_ows v = [] \<or> (\<not> is_ows (hd (trim_ows v)) \<and> \<not> is_ows (last (trim_ows v)))"
proof (cases "trim_ows v = []")
  case False
  let ?w = "dropWhile is_ows v"
  from False have nz: "dropWhile is_ows (rev ?w) \<noteq> []" by (simp add: trim_ows_def)
  then have last: "\<not> is_ows (last (trim_ows v))"
    by (simp add: trim_ows_def last_rev hd_dropWhile)
  have "?w \<noteq> []" using nz by (metis dropWhile.simps(1) rev.simps(1))
  then have hw: "\<not> is_ows (hd ?w)" by (rule hd_dropWhile)
  have "hd (trim_ows v) = hd ?w"
    using nz unfolding trim_ows_def
    by (metis append_is_Nil_conv hd_append2 rev_append rev_is_Nil_conv rev_rev_ident takeWhile_dropWhile_id)
  with hw last show ?thesis by simp
qed simp

lemma trim_ows_idem [simp]: "trim_ows (trim_ows v) = trim_ows v"
  using trim_ows_fixed trim_ows_shape by blast

lemma http_token_iff: "http_token v m \<longleftrightarrow> v \<noteq> [] \<and> length v \<le> m \<and> list_all is_http_token_char v"
proof -
  have "all_token_chars v = list_all is_http_token_char v"
    by (induction v) auto
  then show ?thesis by (auto simp: http_token_def)
qed

subsection \<open>What a host name is\<close>

fun join_dots :: "string list \<Rightarrow> string" where
  "join_dots [] = []"
| "join_dots [l] = l"
| "join_dots (l # ls) = l @ CHR ''.'' # join_dots ls"

definition dns_label :: "string \<Rightarrow> bool" where
  "dns_label l \<longleftrightarrow> l \<noteq> [] \<and> length l \<le> 63 \<and> hd l \<noteq> CHR ''-'' \<and> last l \<noteq> CHR ''-'' \<and>
     list_all label_char l"

lemma bad_label_iff: "bad_label l \<longleftrightarrow> \<not> dns_label l"
  by (auto simp: bad_label_def dns_label_def list_all_iff list_ex_iff)

lemma label_char_dot [simp]: "\<not> label_char CHR ''.''"
  by (simp add: label_char_def byte_defs byte_def)

lemma dns_label_no_dot: "dns_label l \<Longrightarrow> CHR ''.'' \<notin> set l"
  by (auto simp: dns_label_def list_all_iff)

lemma join_dots_Cons: "ls \<noteq> [] \<Longrightarrow> join_dots (l # ls) = l @ CHR ''.'' # join_dots ls"
  by (cases ls) auto

lemma join_dots_nonempty: "ls \<noteq> [] \<Longrightarrow> list_all dns_label ls \<Longrightarrow> join_dots ls \<noteq> []"
  by (induction ls rule: join_dots.induct) (auto simp: dns_label_def)

lemma exact_hostname_loop_join:
  "ls \<noteq> [] \<Longrightarrow> list_all dns_label ls \<Longrightarrow> exact_hostname_loop (join_dots ls)"
proof (induction ls rule: join_dots.induct)
  case (2 l)
  then show ?case
    by (subst exact_hostname_loop.simps) (auto simp: bad_label_iff dns_label_no_dot dns_label_def [of "[]"])
next
  case (3 l l' ls)
  then have "join_dots (l' # ls) \<noteq> []" by (intro join_dots_nonempty) auto
  with 3 show ?case
    by (subst exact_hostname_loop.simps) (auto simp: bad_label_iff dns_label_no_dot)
qed simp

lemma exact_hostname_loop_labels:
  "exact_hostname_loop v \<Longrightarrow> \<exists>ls. ls \<noteq> [] \<and> list_all dns_label ls \<and> v = join_dots ls"
proof (induction v rule: exact_hostname_loop.induct)
  case (1 v)
  have v: "v \<noteq> []" using "1.prems" by (auto simp: exact_hostname_loop.simps)
  show ?case
  proof (cases "CHR ''.''" v rule: cut_at_cases)
    case absent
    with "1.prems" v have "dns_label v"
      by (simp add: exact_hostname_loop.simps [of v] bad_label_iff split: if_splits)
    then show ?thesis by (intro exI [of _ "[v]"]) simp
  next
    case (found p r)
    have "exact_hostname_loop v \<longleftrightarrow> dns_label p \<and> r \<noteq> [] \<and> exact_hostname_loop r"
      by (subst exact_hostname_loop.simps) (simp add: v found(3) bad_label_iff)
    with "1.prems" have p: "dns_label p" and r: "r \<noteq> []" "exact_hostname_loop r"
      by auto
    with "1.IH" [of p "Some r" r] v found
    obtain ls where "ls \<noteq> []" "list_all dns_label ls" "r = join_dots ls"
      by (auto simp: bad_label_iff)
    with p found show ?thesis
      by (intro exI [of _ "p # ls"]) (simp add: join_dots_Cons)
  qed
qed

lemma exact_hostname_loop_iff:
  "exact_hostname_loop v \<longleftrightarrow> (\<exists>ls. ls \<noteq> [] \<and> list_all dns_label ls \<and> v = join_dots ls)"
  using exact_hostname_loop_labels exact_hostname_loop_join by blast

lemma remove_trailing_dot_eq:
  "remove_trailing_dot v = w \<longleftrightarrow> v = w @ ''.'' \<or> (v = w \<and> \<not> ends_with v ''.'')"
  by (auto simp: remove_trailing_dot_def ends_with_iff)

lemma last_join_dots: "ls \<noteq> [] \<Longrightarrow> list_all dns_label ls \<Longrightarrow> last (join_dots ls) \<noteq> CHR ''.''"
proof (induction ls rule: join_dots.induct)
  case (2 l)
  then have "last l \<in> set l" and "CHR ''.'' \<notin> set l"
    by (auto simp: dns_label_no_dot dns_label_def)
  then show ?case by auto
next
  case (3 l l' ls)
  then have "join_dots (l' # ls) \<noteq> []" by (intro join_dots_nonempty) auto
  with 3 show ?case by simp
qed simp

text \<open>
  Claim C14.  A host name is accepted exactly when it has at most 253 bytes and consists of DNS
  labels (1 to 63 letters, digits and inner hyphens) joined by dots, with at most one dot after
  the last label.
\<close>

theorem exact_hostname_iff:
  "exact_hostname v \<longleftrightarrow> length v \<le> 253 \<and>
     (\<exists>ls. ls \<noteq> [] \<and> list_all dns_label ls \<and> (v = join_dots ls \<or> v = join_dots ls @ ''.''))"
proof -
  have *: "remove_trailing_dot v = join_dots ls \<longleftrightarrow> v = join_dots ls \<or> v = join_dots ls @ ''.''"
    if "ls \<noteq> []" "list_all dns_label ls" for ls
    using last_join_dots [OF that] by (auto simp: remove_trailing_dot_eq ends_with_iff)
  have "v \<noteq> []" if "exact_hostname_loop (remove_trailing_dot v)"
    using that by (auto simp: remove_trailing_dot_def ends_with_iff exact_hostname_loop.simps)
  then have "exact_hostname v \<longleftrightarrow> length v \<le> 253 \<and> exact_hostname_loop (remove_trailing_dot v)"
    by (auto simp: exact_hostname_def)
  also have "\<dots> \<longleftrightarrow> length v \<le> 253 \<and>
      (\<exists>ls. ls \<noteq> [] \<and> list_all dns_label ls \<and> remove_trailing_dot v = join_dots ls)"
    by (simp add: exact_hostname_loop_iff)
  finally show ?thesis using * by blast
qed

lemma exact_hostname_loop_chars:
  "exact_hostname_loop v \<Longrightarrow> list_all (\<lambda>c. label_char c \<or> c = CHR ''.'') v"
proof -
  assume "exact_hostname_loop v"
  then obtain ls where "list_all dns_label ls" "v = join_dots ls"
    by (auto simp: exact_hostname_loop_iff)
  moreover have "list_all dns_label ls \<Longrightarrow> list_all (\<lambda>c. label_char c \<or> c = CHR ''.'') (join_dots ls)" for ls
    by (induction ls rule: join_dots.induct) (auto simp: dns_label_def list_all_iff)
  ultimately show ?thesis by simp
qed

text \<open>
  Claim C15.  Looking a host up finds its exact binding, and otherwise the wildcard binding that
  replaces exactly its first label; a name that is not a host name finds nothing.
\<close>

theorem find_hostname_iff:
  "find_hostname index host = Some v \<longleftrightarrow> exact_hostname host \<and>
     (index host = Some v \<or>
      index host = None \<and>
        (\<exists>label rest. host = label @ CHR ''.'' # rest \<and> CHR ''.'' \<notin> set label \<and>
           index (''*.'' @ rest) = Some v))"
proof (cases "find_char CHR ''.'' host")
  case None
  then have "CHR ''.'' \<notin> set host" by (simp add: find_char_None)
  with None show ?thesis
    by (auto simp: find_hostname_def split: option.splits)
next
  case (Some i)
  from find_char_split [OF Some]
  have host: "host = take i host @ CHR ''.'' # drop (Suc i) host" and no: "CHR ''.'' \<notin> set (take i host)"
    by auto
  have drop: "drop i host = CHR ''.'' # drop (Suc i) host"
    using find_char_SomeD [OF Some] by (metis Cons_nth_drop_Suc)
  have uniq: "label = take i host \<and> rest = drop (Suc i) host"
    if "host = label @ CHR ''.'' # rest" "CHR ''.'' \<notin> set label" for label rest
    using that Some find_char_append [of "CHR ''.''" label rest] by auto
  have "find_hostname index host = Some v \<longleftrightarrow> exact_hostname host \<and>
      (index host = Some v \<or> index host = None \<and> index (''*.'' @ drop (Suc i) host) = Some v)"
    using Some drop by (auto simp: find_hostname_def split: option.splits)
  then show ?thesis using host no uniq by metis
qed

subsection \<open>Normalised host names\<close>

lemma label_char_lower [simp]: "label_char (lower_ascii c) = label_char c"
  by (auto simp: label_char_def lower_ascii_def byte_defs byte_def mk_byte_eq_iff split: if_splits)

lemma lower_ascii_eq_dash [simp]: "lower_ascii c = CHR ''-'' \<longleftrightarrow> c = CHR ''-''"
proof -
  have "byte (lower_ascii c) = byte CHR ''-'' \<longleftrightarrow> byte c = byte CHR ''-''"
    by (simp add: byte_lower_ascii is_upper_def byte_def [of "CHR ''-''"])
  then show ?thesis by simp
qed

lemma lower_ascii_eq_dot [simp]: "lower_ascii c = CHR ''.'' \<longleftrightarrow> c = CHR ''.''"
proof -
  have "byte (lower_ascii c) = byte CHR ''.'' \<longleftrightarrow> byte c = byte CHR ''.''"
    by (simp add: byte_lower_ascii is_upper_def byte_def [of "CHR ''.''"])
  then show ?thesis by simp
qed

lemma dns_label_lower: "dns_label l \<Longrightarrow> dns_label (map lower_ascii l)"
  by (auto simp: dns_label_def hd_map last_map list_all_iff)

lemma join_dots_lower: "map lower_ascii (join_dots ls) = join_dots (map (map lower_ascii) ls)"
  by (induction ls rule: join_dots.induct) (auto simp: lower_ascii_def byte_defs byte_def)

lemma exact_hostname_loop_lower: "exact_hostname_loop v \<Longrightarrow> exact_hostname_loop (map lower_ascii v)"
  unfolding exact_hostname_loop_iff
  by (metis (no_types, lifting) dns_label_lower join_dots_lower list.map_disc_iff list.pred_map
      list.pred_mono_strong o_apply)

lemma exact_hostname_no_colon: "exact_hostname v \<Longrightarrow> CHR '':'' \<notin> set v"
proof
  assume "exact_hostname v" and c: "CHR '':'' \<in> set v"
  then have "exact_hostname_loop (remove_trailing_dot v)"
    by (simp add: exact_hostname_def split: if_splits)
  from exact_hostname_loop_chars [OF this] c show False
    by (auto simp: remove_trailing_dot_def ends_with_iff list_all_iff label_char_def byte_defs byte_def
        split: if_splits)
qed

lemma hostname_exact:
  assumes "exact_hostname v"
  shows "hostname v = map lower_ascii (remove_trailing_dot v)"
    and "exact_hostname_loop (hostname v)"
    and "exact_hostname (hostname v)"
    and "hostname (hostname v) = hostname v"
proof -
  from assms have len: "length v \<le> 253" and loop: "exact_hostname_loop (remove_trailing_dot v)"
    by (auto simp: exact_hostname_def split: if_splits)
  show h: "hostname v = map lower_ascii (remove_trailing_dot v)"
    using exact_hostname_no_colon [OF assms] by (simp add: hostname_def)
  show hl: "exact_hostname_loop (hostname v)"
    using exact_hostname_loop_lower [OF loop] h by simp
  then obtain ls where ls: "ls \<noteq> []" "list_all dns_label ls" "hostname v = join_dots ls"
    by (auto simp: exact_hostname_loop_iff)
  then have nodot: "\<not> ends_with (hostname v) ''.''"
    using last_join_dots [of ls] by (auto simp: ends_with_iff)
  have "length (hostname v) \<le> 253"
    using len h by (auto simp: remove_trailing_dot_def)
  with ls join_dots_nonempty [OF ls(1,2)] show ex: "exact_hostname (hostname v)"
    by (auto simp: exact_hostname_iff)
  have "map lower_ascii (hostname v) = hostname v" by (simp add: h)
  with exact_hostname_no_colon [OF ex] nodot show "hostname (hostname v) = hostname v"
    by (simp add: hostname_def [of "hostname v"] remove_trailing_dot_def)
qed

end
