(* ===== verification/Cache_Url.thy ===== *)
theory Cache_Url
  imports Route_Policy
begin

text \<open>
  \<open>src/common/cache_url.h\<close>: the parser of cache resource addresses (purge and prefetch), which
  also produces the canonical spelling used as a cache key.
\<close>

record url =
  u_scheme :: string
  u_authority :: string
  u_hostname :: string
  u_target :: string
  u_value :: string

definition in_target :: "char \<Rightarrow> bool" where
  "in_target c \<longleftrightarrow> c = CHR ''/'' \<or> c = CHR ''?''"

definition bad_port :: "string \<Rightarrow> bool" where
  "bad_port port \<longleftrightarrow> port = [] \<or> length port > 5 \<or> \<not> list_all is_digit port \<or>
     digits_value port < 1 \<or> digits_value port > 65535"

definition parse_url :: "string \<Rightarrow> url option" where
  "parse_url v =
     (if length v > 4096 \<or> CHR ''#'' \<in> set v \<or> list_ex (\<lambda>c. byte c \<le> 32 \<or> byte c = 127) v
      then None
      else (case find_str ''://'' v of
        None \<Rightarrow> None
      | Some separator \<Rightarrow>
          let scheme = take separator v in
          if scheme \<noteq> ''http'' \<and> scheme \<noteq> ''https'' then None
          else
            let rest = drop (separator + 3) v;
                authority = takeWhile (\<lambda>c. \<not> in_target c) rest;
                tail = dropWhile (\<lambda>c. \<not> in_target c) rest
            in if authority = [] \<or> CHR ''@'' \<in> set authority \<or> CHR 0x5C \<in> set authority then None
               else (case cut_at CHR '':'' authority of
                 (host, colon) \<Rightarrow>
                   if \<not> exact_hostname host then None
                   else if (case colon of None \<Rightarrow> False | Some port \<Rightarrow> bad_port port) then None
                   else
                     let target = (if tail = [] then ''/'' else tail);
                         target = (if starts_with target ''?'' then CHR ''/'' # target else target);
                         hn = hostname host;
                         auth = (case colon of
                           None \<Rightarrow> hn
                         | Some port_text \<Rightarrow>
                             let port = digits_value port_text in
                             if (scheme = ''http'' \<and> port = 80) \<or> (scheme = ''https'' \<and> port = 443) then hn
                             else hn @ '':'' @ to_string port)
                     in Some \<lparr>u_scheme = scheme, u_authority = auth, u_hostname = hn, u_target = target,
                              u_value = scheme @ ''://'' @ auth @ target\<rparr>)))"

subsection \<open>Canonical addresses\<close>

text \<open>The shape of a parsed address, from which parsing its canonical text is computed.\<close>

definition clean_url_char :: "char \<Rightarrow> bool" where
  "clean_url_char c \<longleftrightarrow> c \<noteq> CHR ''#'' \<and> \<not> (byte c \<le> 32 \<or> byte c = 127)"

definition canonical_url :: "url \<Rightarrow> bool" where
  "canonical_url u \<longleftrightarrow>
     u_scheme u \<in> {''http'', ''https''} \<and>
     exact_hostname (u_hostname u) \<and> hostname (u_hostname u) = u_hostname u \<and>
     (u_authority u = u_hostname u \<or>
      (\<exists>port. 1 \<le> port \<and> port \<le> 65535 \<and> u_authority u = u_hostname u @ '':'' @ to_string port \<and>
         \<not> (u_scheme u = ''http'' \<and> port = 80) \<and> \<not> (u_scheme u = ''https'' \<and> port = 443))) \<and>
     starts_with (u_target u) ''/'' \<and> list_all clean_url_char (u_target u) \<and>
     u_value u = u_scheme u @ ''://'' @ u_authority u @ u_target u"

text \<open>The address made of the parts of a text.\<close>

definition assembled_url :: "string \<Rightarrow> string \<Rightarrow> string option \<Rightarrow> string \<Rightarrow> url" where
  "assembled_url scheme host colon tail =
     (let target = (if tail = [] then ''/'' else tail);
        target = (if starts_with target ''?'' then CHR ''/'' # target else target);
        auth = (case colon of
            None \<Rightarrow> hostname host
          | Some port_text \<Rightarrow>
              let port = digits_value port_text in
              if (scheme = ''http'' \<and> port = 80) \<or> (scheme = ''https'' \<and> port = 443) then hostname host
              else hostname host @ '':'' @ to_string port)
      in \<lparr>u_scheme = scheme, u_authority = auth, u_hostname = hostname host, u_target = target,
           u_value = scheme @ ''://'' @ auth @ target\<rparr>)"

lemma parse_url_parts:
  assumes "parse_url v = Some u"
  obtains scheme host colon tail where
    "v = scheme @ ''://'' @ host @ (case colon of None \<Rightarrow> [] | Some port \<Rightarrow> CHR '':'' # port) @ tail"
    "scheme = ''http'' \<or> scheme = ''https''" "exact_hostname host" "\<And>port. colon = Some port \<Longrightarrow> \<not> bad_port port"
    "tail = [] \<or> starts_with tail ''/'' \<or> starts_with tail ''?''" "list_all clean_url_char v" "length v \<le> 4096"
    "u = assembled_url scheme host colon tail"
proof -
  from assms have clean: "list_all clean_url_char v" "length v \<le> 4096"
    by (auto simp: parse_url_def clean_url_char_def list_all_iff list_ex_iff split: if_splits)
  from assms obtain separator where sep: "find_str ''://'' v = Some separator"
    by (auto simp: parse_url_def split: if_splits option.splits)
  define rest where "rest = drop (separator + 3) v"
  define authority where "authority = takeWhile (\<lambda>c. \<not> in_target c) rest"
  define tail where "tail = dropWhile (\<lambda>c. \<not> in_target c) rest"
  obtain host colon where hc: "cut_at CHR '':'' authority = (host, colon)" by force
  note defs = rest_def [symmetric] authority_def [symmetric] tail_def [symmetric]
  from assms sep hc
  have scheme: "take separator v = ''http'' \<or> take separator v = ''https''"
    and host: "exact_hostname host"
    and port: "\<And>p. colon = Some p \<Longrightarrow> \<not> bad_port p"
    by (auto simp: parse_url_def Let_def defs split: if_splits option.splits)
  have u: "u = assembled_url (take separator v) host colon tail"
    using assms sep hc by (auto simp: parse_url_def assembled_url_def Let_def defs split: if_splits option.splits)
  have tail_head: "tail = [] \<or> starts_with tail ''/'' \<or> starts_with tail ''?''"
  proof (cases tail)
    case (Cons c cs)
    then have "in_target c" using hd_dropWhile [of "\<lambda>c. \<not> in_target c" rest] by (simp add: tail_def)
    with Cons show ?thesis by (auto simp: in_target_def)
  qed simp
  have "authority = host @ (case colon of None \<Rightarrow> [] | Some port \<Rightarrow> CHR '':'' # port)"
    using hc by (cases colon) (auto simp: cut_at_None_iff cut_at_Some_iff)
  moreover have "rest = authority @ tail" by (simp add: authority_def tail_def)
  moreover have "v = take separator v @ ''://'' @ rest"
  proof -
    from find_str_SomeD [OF sep] obtain r where r: "drop separator v = ''://'' @ r" by (auto simp: starts_with_iff)
    moreover have "rest = drop 3 (drop separator v)" by (simp add: rest_def add.commute)
    ultimately have "rest = r" by simp
    with r show ?thesis by (metis append_take_drop_id)
  qed
  ultimately have "v = take separator v @ ''://'' @ host @ (case colon of None \<Rightarrow> [] | Some port \<Rightarrow> CHR '':'' # port) @ tail" by simp
  from that [OF this scheme host port tail_head clean u] show thesis .
qed

lemma parse_url_canonical:
  assumes "parse_url v = Some u"
  shows "canonical_url u"
  using assms
proof (rule parse_url_parts)
  fix scheme host colon tail
  assume v: "v = scheme @ ''://'' @ host @ (case colon of None \<Rightarrow> [] | Some port \<Rightarrow> CHR '':'' # port) @ tail"
    and scheme: "scheme = ''http'' \<or> scheme = ''https''" and host: "exact_hostname host"
    and port: "\<And>port. colon = Some port \<Longrightarrow> \<not> bad_port port"
    and tail: "tail = [] \<or> starts_with tail ''/'' \<or> starts_with tail ''?''"
    and clean: "list_all clean_url_char v" and u: "u = assembled_url scheme host colon tail"
  have "list_all clean_url_char tail" using clean unfolding v by simp
  then show "canonical_url u"
    unfolding canonical_url_def u assembled_url_def Let_def
    using scheme hostname_exact [OF host] port tail
    by (cases colon) (auto simp: bad_port_def clean_url_char_def byte_def)
qed

lemma digits_value_less: "list_all is_digit s \<Longrightarrow> digits_value s < 10 ^ length s"
proof (induction s rule: rev_induct)
  case (snoc c s)
  then have "byte c - 48 < 10" "digits_value s < 10 ^ length s" by (auto simp: byte_defs)
  then show ?case by simp
qed simp

text \<open>Normalising an address makes it at most one byte longer: the slash of a missing path.\<close>

lemma parse_url_length:
  assumes "parse_url v = Some u"
  shows "length (u_value u) \<le> Suc (length v)"
  using assms
proof (rule parse_url_parts)
  fix scheme host colon tail
  assume v: "v = scheme @ ''://'' @ host @ (case colon of None \<Rightarrow> [] | Some port \<Rightarrow> CHR '':'' # port) @ tail"
    and port: "\<And>port. colon = Some port \<Longrightarrow> \<not> bad_port port" and u: "u = assembled_url scheme host colon tail"
  have "length (remove_trailing_dot s) \<le> length s" "length (before CHR '':'' s) \<le> length s" for s
    by (auto simp: remove_trailing_dot_def before_eq length_takeWhile_le)
  then have host: "length (hostname host) \<le> length host" unfolding hostname_def using le_trans by fastforce
  have "length (to_string (digits_value p)) \<le> length p" if "colon = Some p" for p
    using port [OF that] digits_value_less [of p] by (intro length_to_string) (auto simp: bad_port_def)
  with host show "length (u_value u) \<le> Suc (length v)"
    unfolding u v assembled_url_def Let_def by (cases colon) auto
qed

lemma find_scheme:
  "s \<in> {''http'', ''https''} \<Longrightarrow> find_str ''://'' (s @ ''://'' @ r) = Some (length s)"
  by auto

definition authority_char :: "char \<Rightarrow> bool" where
  "authority_char c \<longleftrightarrow> clean_url_char c \<and> \<not> in_target c \<and> c \<noteq> CHR ''@'' \<and> c \<noteq> CHR 0x5C"

lemma host_chars:
  assumes "exact_hostname h" and "c \<in> set h"
  shows "authority_char c"
proof -
  from assms have "label_char c \<or> c = CHR ''.''"
    using exact_hostname_loop_chars [of "remove_trailing_dot h"]
    by (auto simp: exact_hostname_def remove_trailing_dot_def ends_with_iff list_all_iff split: if_splits)
  then show "authority_char c"
    by (auto simp: authority_char_def label_char_def byte_defs clean_url_char_def in_target_def byte_def)
qed

lemma digit_chars: "is_digit c \<Longrightarrow> authority_char c"
  by (auto simp: authority_char_def byte_defs clean_url_char_def in_target_def byte_def)

lemma authority_chars:
  assumes "canonical_url u" and "c \<in> set (u_authority u)"
  shows "authority_char c"
proof -
  have colon: "authority_char CHR '':''"
    by (simp add: authority_char_def clean_url_char_def in_target_def byte_def)
  from assms have h: "exact_hostname (u_hostname u)" by (simp add: canonical_url_def)
  from assms have "c \<in> set (u_hostname u) \<or> c = CHR '':'' \<or> (\<exists>p. c \<in> set (to_string p))"
    unfolding canonical_url_def by auto
  then show ?thesis
    using host_chars [OF h] digit_chars to_string_digits colon by blast
qed

lemma authority_cut:
  assumes "canonical_url u"
  obtains (plain) "u_authority u = u_hostname u" "cut_at CHR '':'' (u_authority u) = (u_hostname u, None)"
  | (port) p where "cut_at CHR '':'' (u_authority u) = (u_hostname u, Some (to_string p))"
      "u_authority u = u_hostname u @ '':'' @ to_string p" "1 \<le> p" "p \<le> 65535"
      "\<not> (u_scheme u = ''http'' \<and> p = 80)" "\<not> (u_scheme u = ''https'' \<and> p = 443)"
  using assms exact_hostname_no_colon [of "u_hostname u"] by (auto simp: canonical_url_def)

lemma good_port: "1 \<le> p \<Longrightarrow> p \<le> 65535 \<Longrightarrow> \<not> bad_port (to_string p)"
  using length_to_string [of p 5] to_string_digits [of _ p] by (auto simp: bad_port_def list_all_iff)

lemma canonical_url_parse:
  assumes c: "canonical_url u" and len: "length (u_value u) \<le> 4096"
  shows "parse_url (u_value u) = Some u"
proof -
  from c have s: "u_scheme u \<in> {''http'', ''https''}"
    and v: "u_value u = u_scheme u @ ''://'' @ u_authority u @ u_target u"
    and t: "starts_with (u_target u) ''/''" "list_all clean_url_char (u_target u)"
    and h: "exact_hostname (u_hostname u)" "hostname (u_hostname u) = u_hostname u"
    by (auto simp: canonical_url_def)
  obtain t' where t': "u_target u = CHR ''/'' # t'" using t(1) by (auto simp: starts_with_iff)
  have "list_all clean_url_char (u_value u)"
    using s t(2) authority_chars [OF c] unfolding v
    by (auto simp: list_all_iff authority_char_def) (simp_all add: clean_url_char_def byte_def)
  then have clean: "\<not> (length (u_value u) > 4096 \<or> CHR ''#'' \<in> set (u_value u) \<or>
      list_ex (\<lambda>c. byte c \<le> 32 \<or> byte c = 127) (u_value u))"
    using len by (auto simp: list_all_iff list_ex_iff clean_url_char_def)
  have sep: "find_str ''://'' (u_value u) = Some (length (u_scheme u))"
    unfolding v by (rule find_scheme [OF s])
  have take: "take (length (u_scheme u)) (u_value u) = u_scheme u"
    and drop: "drop (length (u_scheme u) + 3) (u_value u) = u_authority u @ u_target u"
    unfolding v by simp_all
  have auth: "takeWhile (\<lambda>c. \<not> in_target c) (u_authority u @ u_target u) = u_authority u"
    "dropWhile (\<lambda>c. \<not> in_target c) (u_authority u @ u_target u) = u_target u"
    using authority_chars [OF c] unfolding t'
    by (simp_all add: takeWhile_append dropWhile_append in_target_def [of "CHR ''/''"] authority_char_def)
  have ok: "\<not> (u_authority u = [] \<or> CHR ''@'' \<in> set (u_authority u) \<or> CHR 0x5C \<in> set (u_authority u))"
    using authority_chars [OF c] h(1) c by (auto simp: canonical_url_def exact_hostname_def authority_char_def)
  have target: "\<not> starts_with (u_target u) ''?''" "u_target u \<noteq> []" unfolding t' by simp_all
  have s': "\<not> (u_scheme u \<noteq> ''http'' \<and> u_scheme u \<noteq> ''https'')" using s by auto
  note eval = parse_url_def if_not_P [OF clean] sep option.case(2) Let_def take drop auth
    if_not_P [OF s'] if_not_P [OF ok]
  show ?thesis
    using c
  proof (cases rule: authority_cut)
    case plain
    show ?thesis
      unfolding eval plain(2) using plain(1) h target v by simp
  next
    case (port p)
    then show ?thesis
      unfolding eval port(1) using h target v good_port [OF port(3,4)] by simp
  qed
qed

text \<open>
  Claim C20.  Normalisation (default port, host case, trailing dot, missing path) is idempotent up to the bound
  of 4096 bytes: the canonical text of a parsed address is at most one byte longer than the
  text it was parsed from; if it is within the bound it parses to the same address, as it always
  does when the text was shorter than the bound, and otherwise the parser refuses it.
\<close>

theorem parse_url_idempotent:
  assumes "parse_url v = Some u"
  shows "length (u_value u) \<le> Suc (length v) \<and>
    (length v < 4096 \<longrightarrow> parse_url (u_value u) = Some u) \<and>
    parse_url (u_value u) = (if length (u_value u) \<le> 4096 then Some u else None)"
proof -
  have "parse_url (u_value u) = None" if "\<not> length (u_value u) \<le> 4096" using that by (simp add: parse_url_def)
  with parse_url_length [OF assms] canonical_url_parse [OF parse_url_canonical [OF assms]] show ?thesis by auto
qed

theorem parse_url_idempotent_witness:
  "\<exists>u. parse_url ''http://Example.COM.:080?x=1'' = Some u \<and> u_value u = ''http://example.com/?x=1'' \<and>
     parse_url (u_value u) = Some u"
proof -
  let ?u = "\<lparr>u_scheme = ''http'', u_authority = ''example.com'', u_hostname = ''example.com'',
     u_target = ''/?x=1'', u_value = ''http://example.com/?x=1''\<rparr>"
  have p: "parse_url ''http://Example.COM.:080?x=1'' = Some ?u"
    by (simp add: parse_url_def Let_def byte_def byte_defs in_target_def cut_at_def exact_hostname_def
        exact_hostname_loop.simps remove_trailing_dot_def ends_with_def bad_label_def label_char_def
        bad_port_def digits_value_def hostname_def lower_ascii_def mk_byte_eq_iff)
  show ?thesis using p parse_url_idempotent [OF p] by simp
qed

text \<open>The bound is reached: an address of 4096 bytes without a path has a canonical text that is refused.\<close>

lemma canonical_text_refused:
  "\<exists>v u. length v = 4096 \<and> parse_url v = Some u \<and> parse_url (u_value u) = None"
proof -
  let ?tail = "CHR ''?'' # replicate 4087 CHR ''x''"
  let ?v = "''http'' @ ''://'' @ ''a'' @ ?tail"
  have len: "length ?v = 4096" by simp
  have clean: "\<not> (length ?v > 4096 \<or> CHR ''#'' \<in> set ?v \<or> list_ex (\<lambda>c. byte c \<le> 32 \<or> byte c = 127) ?v)"
    using len by (auto simp: list_ex_iff byte_def simp del: length_append replicate_Suc)
  have sep: "find_str ''://'' ?v = Some (length ''http'')" by (rule find_scheme) simp
  have parts: "take (length ''http'') ?v = ''http''" "drop (length ''http'' + 3) ?v = ''a'' @ ?tail" by simp_all
  have auth: "takeWhile (\<lambda>c. \<not> in_target c) (''a'' @ ?tail) = ''a''" "dropWhile (\<lambda>c. \<not> in_target c) (''a'' @ ?tail) = ?tail"
    by (simp_all add: in_target_def)
  have host: "exact_hostname ''a''" "hostname ''a'' = ''a''" by code_simp+
  have "parse_url ?v = Some \<lparr>u_scheme = ''http'', u_authority = ''a'', u_hostname = ''a'', u_target = CHR ''/'' # ?tail,
      u_value = ''http'' @ ''://'' @ ''a'' @ CHR ''/'' # ?tail\<rparr>"
    unfolding parse_url_def if_not_P [OF clean] sep option.case Let_def parts auth using host by simp
  moreover have "parse_url (''http'' @ ''://'' @ ''a'' @ CHR ''/'' # ?tail) = None" by (simp add: parse_url_def)
  ultimately show ?thesis using len by (intro exI [of _ ?v]) (auto simp del: length_append)
qed

end
