(* ===== verification/Cache_Range.thy ===== *)
theory Cache_Range
  imports Route_Policy
begin

text \<open>
  \<open>src/node/data/cache_range.h\<close>: byte ranges of requests and of origin responses.  Sizes are
  natural numbers; \<open>range_number\<close> accepts what fits in 64 bits, and every sum the code forms is
  shown to stay within the size of the representation.
\<close>

definition origin_range_block_bytes :: nat where
  "origin_range_block_bytes = 1024 * 1024"

record cache_byte_range =
  cr_offset :: nat
  cr_length :: nat
  cr_satisfiable :: bool

definition empty_range :: cache_byte_range where
  "empty_range = \<lparr>cr_offset = 0, cr_length = 0, cr_satisfiable = False\<rparr>"

definition range_number :: "string \<Rightarrow> nat option" where
  "range_number v =
     (case from_chars u64_max v of
        None \<Rightarrow> None
      | Some (number, rest) \<Rightarrow> if v = [] \<or> rest \<noteq> [] then None else Some number)"

definition parse_cache_range :: "string \<Rightarrow> nat \<Rightarrow> cache_byte_range option" where
  "parse_cache_range field whole =
     (if \<not> starts_with field ''bytes='' \<or> CHR '','' \<in> set field then None
      else
        let field = drop 6 field in
        if field = [] then Some empty_range
        else
          (case cut_at CHR ''-'' field of
             (_, None) \<Rightarrow> None
           | ([], Some suffix_text) \<Rightarrow>
               (case range_number suffix_text of
                  None \<Rightarrow> None
                | Some suffix \<Rightarrow>
                    let n = min suffix whole in
                    Some \<lparr>cr_offset = whole - n, cr_length = n, cr_satisfiable = (n \<noteq> 0)\<rparr>)
           | (start_text, Some tail) \<Rightarrow>
               (case (range_number start_text,
                      if tail = [] then Some (if whole \<noteq> 0 then whole - 1 else 0) else range_number tail) of
                  (Some start, Some end_at) \<Rightarrow>
                    if start \<ge> whole \<or> end_at < start then Some empty_range
                    else Some \<lparr>cr_offset = start, cr_length = min end_at (whole - 1) - start + 1,
                               cr_satisfiable = True\<rparr>
                | _ \<Rightarrow> None)))"

record cache_range_selection =
  sel_ranges :: "cache_byte_range list"
  sel_ignore :: bool
  sel_multipart :: bool

text \<open>
  The loop of \<open>select_cache_ranges\<close>; \<open>seen\<close> is the number of items before this one and
  \<open>previous\<close> the end of the last accepted range.
\<close>

definition overlaps_previous :: "cache_byte_range \<Rightarrow> nat option \<Rightarrow> bool" where
  "overlaps_previous r previous \<longleftrightarrow> cr_satisfiable r \<and> (case previous of None \<Rightarrow> False | Some e \<Rightarrow> cr_offset r < e)"

definition accept_end :: "cache_byte_range \<Rightarrow> nat option \<Rightarrow> nat option" where
  "accept_end r previous = (if cr_satisfiable r then Some (cr_offset r + cr_length r) else previous)"

definition accept :: "cache_byte_range \<Rightarrow> cache_range_selection \<Rightarrow> cache_range_selection" where
  "accept r result = (if cr_satisfiable r then result\<lparr>sel_ranges := sel_ranges result @ [r]\<rparr> else result)"

definition finish_selection :: "bool \<Rightarrow> nat \<Rightarrow> cache_range_selection \<Rightarrow> cache_range_selection" where
  "finish_selection partial seen result = result\<lparr>sel_multipart := length (sel_ranges result) > 1 \<or>
     (partial \<and> seen > 1 \<and> sel_ranges result \<noteq> [])\<rparr>"

function select_loop :: "nat \<Rightarrow> bool \<Rightarrow> string \<Rightarrow> nat \<Rightarrow> nat option \<Rightarrow> cache_range_selection \<Rightarrow>
    cache_range_selection" where
  "select_loop whole partial v seen previous result =
     (if seen + 1 > 300 \<or> (\<not> partial \<and> seen + 1 = 300) then result\<lparr>sel_ignore := True\<rparr>
      else case cut_at CHR '','' v of (text, after) \<Rightarrow>
        (case parse_cache_range (''bytes='' @ trim_ows text) whole of
           None \<Rightarrow> result\<lparr>sel_ignore := True\<rparr>
         | Some r \<Rightarrow>
             if overlaps_previous r previous then result\<lparr>sel_ranges := [], sel_ignore := \<not> partial\<rparr>
             else
               (case after of
                  None \<Rightarrow> finish_selection partial (seen + 1) (accept r result)
                | Some rest \<Rightarrow>
                    select_loop whole partial rest (seen + 1) (accept_end r previous) (accept r result))))"
  by pat_completeness auto
termination
  by (relation "measure (\<lambda>(whole, partial, v, seen, previous, result). length v)")
    (auto dest!: sym [of "(_, Some _)"] simp: cut_at_Some_iff)

declare select_loop.simps [simp del]

definition select_cache_ranges :: "string \<Rightarrow> nat \<Rightarrow> bool \<Rightarrow> cache_range_selection" where
  "select_cache_ranges v whole partial =
     (let result = \<lparr>sel_ranges = [], sel_ignore = False, sel_multipart = False\<rparr> in
      if \<not> starts_with v ''bytes='' then result\<lparr>sel_ignore := True\<rparr>
      else select_loop whole partial (drop 6 v) 0 None result)"

record origin_content_range =
  ocr_first :: nat
  ocr_last :: nat
  ocr_total :: nat

definition parse_origin_content_range :: "string \<Rightarrow> origin_content_range option" where
  "parse_origin_content_range v =
     (if \<not> starts_with v ''bytes '' then None
      else
        let v = drop 6 v in
        (case (find_char CHR ''-'' v, find_char CHR ''/'' v) of
           (Some dash, Some slash) \<Rightarrow>
             if dash \<ge> slash then None
             else
               (case (range_number (take dash v), range_number (take (slash - dash - 1) (drop (dash + 1) v)),
                      range_number (drop (slash + 1) v)) of
                  (Some f, Some l, Some t) \<Rightarrow>
                    if f > l \<or> l \<ge> t then None else Some \<lparr>ocr_first = f, ocr_last = l, ocr_total = t\<rparr>
                | _ \<Rightarrow> None)
         | _ \<Rightarrow> None))"

subsection \<open>Bounds and order\<close>

definition within :: "nat \<Rightarrow> cache_byte_range \<Rightarrow> bool" where
  "within whole r \<longleftrightarrow> cr_satisfiable r \<and> 0 < cr_length r \<and> cr_offset r + cr_length r \<le> whole"

lemma parse_cache_range_within:
  "parse_cache_range field whole = Some r \<Longrightarrow> within whole r \<or> r = empty_range \<or> \<not> cr_satisfiable r \<and> cr_length r = 0"
  by (auto simp: parse_cache_range_def within_def Let_def split: if_splits option.splits list.splits prod.splits)

lemma parse_cache_range_satisfiable:
  "parse_cache_range field whole = Some r \<Longrightarrow> cr_satisfiable r \<Longrightarrow> within whole r"
  by (drule parse_cache_range_within) (auto simp: empty_range_def)

text \<open>The accepted ranges ascend without overlap.\<close>

definition range_end :: "cache_byte_range \<Rightarrow> nat" where
  "range_end r = cr_offset r + cr_length r"

definition ordered_ranges :: "nat \<Rightarrow> cache_byte_range list \<Rightarrow> bool" where
  "ordered_ranges whole rs \<longleftrightarrow> list_all (within whole) rs \<and> sorted_wrt (\<lambda>a b. range_end a \<le> cr_offset b) rs"

text \<open>The ways one iteration ends.\<close>

lemma select_loop_cases:
  obtains (ignore) "select_loop whole partial v seen previous result = result\<lparr>sel_ignore := True\<rparr>"
    | (overlap) "select_loop whole partial v seen previous result = result\<lparr>sel_ranges := [], sel_ignore := \<not> partial\<rparr>"
    | (final) t r where "parse_cache_range t whole = Some r" "\<not> overlaps_previous r previous"
        "select_loop whole partial v seen previous result = finish_selection partial (seen + 1) (accept r result)"
    | (more) t r rest where "parse_cache_range t whole = Some r" "\<not> overlaps_previous r previous" "length rest < length v"
        "select_loop whole partial v seen previous result =
          select_loop whole partial rest (seen + 1) (accept_end r previous) (accept r result)"
proof -
  obtain t after where cut: "cut_at CHR '','' v = (t, after)" by force
  note eq = select_loop.simps [of whole partial v seen previous result, unfolded cut prod.case]
  show thesis
  proof (cases "seen + 1 > 300 \<or> (\<not> partial \<and> seen + 1 = 300)")
    case True
    then show thesis using eq ignore by simp
  next
    case small: False
    show thesis
    proof (cases "parse_cache_range (''bytes='' @ trim_ows t) whole")
      case None
      then show thesis using eq small ignore by simp
    next
      case (Some r)
      have step: "select_loop whole partial v seen previous result =
          (if overlaps_previous r previous then result\<lparr>sel_ranges := [], sel_ignore := \<not> partial\<rparr>
           else case after of
             None \<Rightarrow> finish_selection partial (seen + 1) (accept r result)
           | Some rest \<Rightarrow> select_loop whole partial rest (seen + 1) (accept_end r previous) (accept r result))"
        unfolding eq Some option.case using small by (simp only: if_not_P simp_thms)
      show thesis
      proof (cases after)
        case None
        then show thesis using step overlap final [OF Some] by (cases "overlaps_previous r previous") auto
      next
        case (Some rest)
        then show thesis
          using step overlap more [OF \<open>parse_cache_range _ _ = Some r\<close>, of rest] cut cut_at_Some_length
          by (cases "overlaps_previous r previous") auto
      qed
    qed
  qed
qed

definition bounded_by :: "nat option \<Rightarrow> cache_byte_range list \<Rightarrow> bool" where
  "bounded_by previous rs \<longleftrightarrow> (\<forall>r \<in> set rs. \<exists>e. previous = Some e \<and> range_end r \<le> e)"

lemma accept_range:
  assumes "ordered_ranges whole (sel_ranges result)" and "bounded_by previous (sel_ranges result)"
    and "parse_cache_range t whole = Some r" and "\<not> overlaps_previous r previous"
  shows "ordered_ranges whole (sel_ranges (accept r result)) \<and>
    bounded_by (accept_end r previous) (sel_ranges (accept r result))"
proof (cases "cr_satisfiable r")
  case False
  with assms show ?thesis by (simp add: accept_def accept_end_def)
next
  case True
  have "range_end q \<le> cr_offset r" if "q \<in> set (sel_ranges result)" for q
    using assms(2,4) that True by (auto simp: overlaps_previous_def bounded_by_def split: option.splits)
  with True assms(1) parse_cache_range_satisfiable [OF assms(3) True] show ?thesis
    by (auto simp: ordered_ranges_def sorted_wrt_append range_end_def accept_def accept_end_def bounded_by_def
        intro: le_add1 order_trans)
qed

lemma select_loop_ordered:
  assumes "ordered_ranges whole (sel_ranges result)" and "bounded_by previous (sel_ranges result)"
  shows "ordered_ranges whole (sel_ranges (select_loop whole partial v seen previous result))"
  using assms
proof (induction "length v" arbitrary: v seen previous result rule: less_induct)
  case less
  show ?case
  proof (cases rule: select_loop_cases [of whole partial v seen previous result])
    case ignore
    with less.prems show ?thesis by simp
  next
    case overlap
    then show ?thesis by (simp add: ordered_ranges_def)
  next
    case (final t r)
    with accept_range [OF less.prems final(1,2)] show ?thesis by (simp add: finish_selection_def)
  next
    case (more t r rest)
    with accept_range [OF less.prems more(1,2)] less.hyps [OF more(3)] show ?thesis by simp
  qed
qed

lemma select_loop_multipart:
  assumes "\<not> sel_multipart result" and "sel_multipart (select_loop whole partial v seen previous result)"
  shows "sel_ranges (select_loop whole partial v seen previous result) \<noteq> []"
  using assms
proof (induction "length v" arbitrary: v seen previous result rule: less_induct)
  case less
  show ?case
  proof (cases rule: select_loop_cases [of whole partial v seen previous result])
    case (final t r)
    with less.prems show ?thesis by (auto simp: finish_selection_def)
  next
    case (more t r rest)
    have "\<not> sel_multipart (accept r result)" using less.prems by (simp add: accept_def)
    with less.hyps [OF more(3)] less.prems more(4) show ?thesis by simp
  qed (use less.prems in simp_all)
qed

text \<open>
  Claim C23.  Whatever a client sends, the selected ranges are non-empty, lie inside the representation
  and follow each other without overlap, so the offsets the responses compute never exceed its size.
\<close>

theorem select_cache_ranges_ordered:
  "ordered_ranges whole (sel_ranges (select_cache_ranges v whole partial))"
  unfolding select_cache_ranges_def
  by (auto simp: Let_def ordered_ranges_def [of _ "[]"] bounded_by_def intro!: select_loop_ordered)

text \<open>
  A byte range as RFC 9110 writes it is read as the positions it names, cut to the
  representation: the start and end of a bounded range, and the last bytes for a suffix range.
\<close>

theorem parse_cache_range_numbers:
  assumes "a \<le> b" and "a < whole" and "b \<le> u64_max" and "0 < n" and "n \<le> u64_max"
  shows "parse_cache_range (''bytes='' @ to_string a @ ''-'' @ to_string b) whole =
      Some \<lparr>cr_offset = a, cr_length = min b (whole - 1) - a + 1, cr_satisfiable = True\<rparr> \<and>
    parse_cache_range (''bytes=-'' @ to_string n) whole =
      Some \<lparr>cr_offset = whole - min n whole, cr_length = min n whole, cr_satisfiable = True\<rparr>"
proof -
  have digits: "c \<notin> set (to_string k)" if "\<not> is_digit c" for c k using to_string_digits that by blast
  have not_digits: "\<not> is_digit CHR ''-''" "\<not> is_digit CHR '',''" by (simp_all add: is_digit_def byte_def)
  have number: "range_number (to_string k) = Some k" if "k \<le> u64_max" for k
    using from_chars_to_string [OF that, of "[]"] by (simp add: range_number_def)
  obtain d ds where head: "to_string a = d # ds" using to_string_nonempty [of a] by (cases "to_string a") auto
  have "a \<le> u64_max" using assms by linarith
  have "cut_at CHR ''-'' (to_string a @ CHR ''-'' # to_string b) = (d # ds, Some (to_string b))"
    using digits [OF not_digits(1)] head by (metis cut_at_append)
  moreover have "cut_at CHR ''-'' (CHR ''-'' # to_string n) = ([], Some (to_string n))"
    using cut_at_append [of "CHR ''-''" "[]"] by simp
  moreover have "CHR '','' \<notin> set (d # ds)" "CHR '','' \<notin> set (to_string k)" for k
    using digits [OF not_digits(2)] head by metis+
  ultimately show ?thesis
    using assms number [OF \<open>a \<le> u64_max\<close>] number [OF assms(3)] number [OF assms(5)] head
    by (auto simp: parse_cache_range_def Let_def)
qed

theorem parse_cache_range_numbers_witness:
  "parse_cache_range (''bytes='' @ to_string 2 @ ''-'' @ to_string 9) 5 =
      Some \<lparr>cr_offset = 2, cr_length = min 9 (5 - 1) - 2 + 1, cr_satisfiable = True\<rparr> \<and>
    parse_cache_range (''bytes=-'' @ to_string 3) 5 =
      Some \<lparr>cr_offset = 5 - min 3 5, cr_length = min 3 5, cr_satisfiable = True\<rparr>"
  by (rule parse_cache_range_numbers) simp_all

end
