(* ===== verification/Hex_Codec.thy ===== *)
theory Hex_Codec
  imports Route_Policy
begin

text \<open>
  \<open>src/common/hex.h\<close> and \<open>src/common/sha256.h\<close>: lower-case hexadecimal encoding of a byte
  sequence, its decoder (which also accepts upper case), and the textual form of a SHA-256 digest.
\<close>

type_synonym uchar = "8 word"

definition hex_digits :: string where
  "hex_digits = ''0123456789abcdef''"

fun hex_encode :: "uchar list \<Rightarrow> string" where
  "hex_encode [] = []"
| "hex_encode (b # bs) =
     hex_digits ! unat (drop_bit 4 b) # hex_digits ! unat (b AND 0x0f) # hex_encode bs"

definition nibble :: "char \<Rightarrow> int" where
  "nibble ch =
     (if is_digit ch then int (byte ch) - 48
      else if 97 \<le> byte ch \<and> byte ch \<le> 102 then int (byte ch) - 97 + 10
      else if 65 \<le> byte ch \<and> byte ch \<le> 70 then int (byte ch) - 65 + 10
      else - 1)"

fun hex_decode_loop :: "string \<Rightarrow> uchar list option" where
  "hex_decode_loop (h # l # rest) =
     (let high = nibble h; low = nibble l in
      if high < 0 \<or> low < 0 then None
      else map_option ((#) (word_of_int (push_bit 4 high OR low))) (hex_decode_loop rest))"
| "hex_decode_loop _ = Some []"

definition hex_decode :: "string \<Rightarrow> uchar list option" where
  "hex_decode v = (if length v mod 2 \<noteq> 0 then None else hex_decode_loop v)"

definition digest_char :: "char \<Rightarrow> bool" where
  "digest_char ch \<longleftrightarrow> is_digit ch \<or> (97 \<le> byte ch \<and> byte ch \<le> 102)"

fun all_digest_chars :: "string \<Rightarrow> bool" where
  "all_digest_chars [] = True"
| "all_digest_chars (ch # rest) = (if \<not> digest_char ch then False else all_digest_chars rest)"

definition is_sha256_digest :: "string \<Rightarrow> bool" where
  "is_sha256_digest v = (if length v \<noteq> 64 then False else all_digest_chars v)"

subsection \<open>One byte\<close>

lemma hex_digits_nth: "n < 16 \<Longrightarrow> byte (hex_digits ! n) = (if n < 10 then 48 + n else 87 + n)"
  by (simp add: hex_digits_def byte_def less_Suc_eq numeral_eq_Suc) auto

lemma lower_eq_hex_digit:
  assumes "n < 16"
  shows "hex_digits ! n = lower_ascii c \<longleftrightarrow> nibble c = int n"
proof -
  have "hex_digits ! n = lower_ascii c \<longleftrightarrow> byte (lower_ascii c) = byte (hex_digits ! n)" by auto
  also have "\<dots> \<longleftrightarrow> nibble c = int n"
    using assms by (auto simp: hex_digits_nth byte_lower_ascii nibble_def byte_defs)
  finally show ?thesis .
qed

lemma nibble_range: "nibble c < 0 \<or> (\<exists>n<16. nibble c = int n)"
  by (cases "nibble c < 0") (auto simp: nibble_def byte_defs intro!: exI [of _ "nat (nibble c)"] split: if_splits)

lemma join_nibbles: "h < 16 \<Longrightarrow> l < 16 \<Longrightarrow> push_bit 4 (int h) OR int l = int (16 * h + l)"
proof -
  assume "h < 16" "l < 16"
  then have "push_bit 4 h OR l = 16 * h + l"
    using push_bit_or_nat [of l 4 h] by simp
  then have "int (push_bit 4 h OR l) = int (16 * h + l)" by simp
  then show ?thesis by (simp add: of_nat_or_eq of_nat_push_bit)
qed

lemma byte_nibbles:
  fixes b :: uchar
  shows "unat (drop_bit 4 b) = unat b div 16" "unat (b AND 15) = unat b mod 16"
proof -
  show "unat (drop_bit 4 b) = unat b div 16"
    by (simp add: unat_drop_bit_eq) (simp add: drop_bit_eq_div)
  have "b AND 15 = take_bit 4 b" by (simp add: take_bit_eq_mask mask_eq_exp_minus_1)
  then show "unat (b AND 15) = unat b mod 16"
    by (simp add: take_bit_eq_mod unat_mod_distrib)
qed

lemma byte_roundtrip:
  "hex_digits ! unat (drop_bit 4 b) = lower_ascii h \<and> hex_digits ! unat (b AND 15) = lower_ascii l \<longleftrightarrow>
   0 \<le> nibble h \<and> 0 \<le> nibble l \<and> b = word_of_int (push_bit 4 (nibble h) OR nibble l)"
  (is "?L \<longleftrightarrow> ?R") for b :: uchar
proof -
  have lt: "unat b < 256" by simp
  have L: "?L \<longleftrightarrow> nibble h = int (unat b div 16) \<and> nibble l = int (unat b mod 16)"
    unfolding byte_nibbles using lt by (simp add: lower_eq_hex_digit less_mult_imp_div_less)
  show ?thesis
  proof
    assume ?L
    with L have n: "nibble h = int (unat b div 16)" "nibble l = int (unat b mod 16)" by auto
    have "push_bit 4 (nibble h) OR nibble l = int (16 * (unat b div 16) + unat b mod 16)"
      unfolding n by (rule join_nibbles) (use lt in \<open>auto simp: less_mult_imp_div_less\<close>)
    then have "push_bit 4 (nibble h) OR nibble l = int (unat b)" by simp
    with n show ?R by simp
  next
    assume r: ?R
    with nibble_range [of h] nibble_range [of l]
    obtain x y where x: "x < 16" "nibble h = int x" and y: "y < 16" "nibble l = int y" by auto
    then have "b = word_of_nat (16 * x + y)" using r by (simp add: join_nibbles)
    then have "unat b = (16 * x + y) mod 2 ^ LENGTH(8)" by (simp only: unat_of_nat)
    then have "unat b = 16 * x + y" using x y by simp
    with x y show ?L unfolding L by simp
  qed
qed

text \<open>
  Claim C16.  Decoding a text gives some bytes exactly when the text, up to letter case, is the
  encoding of those bytes: encoding is inverted, and nothing else is accepted.
\<close>

theorem hex_decode_iff: "hex_decode v = Some bs \<longleftrightarrow> hex_encode bs = map lower_ascii v"
proof -
  have "even (length v) \<Longrightarrow> hex_decode_loop v = Some bs \<longleftrightarrow> hex_encode bs = map lower_ascii v"
  proof (induction v arbitrary: bs rule: hex_decode_loop.induct)
    case (1 h l rest)
    then have IH: "hex_decode_loop rest = Some cs \<longleftrightarrow> hex_encode cs = map lower_ascii rest"
      if "\<not> (nibble h < 0 \<or> nibble l < 0)" for cs
      using that by simp
    show ?case
    proof (cases bs)
      case Nil
      then show ?thesis by (simp add: Let_def)
    next
      case (Cons b cs)
      show ?thesis
        using byte_roundtrip [of b h l] IH [of cs] Cons by (auto simp: Let_def)
    qed
  next
    case "2_1"
    then show ?case by (cases bs) auto
  qed simp
  moreover have "length (hex_encode cs) = 2 * length cs" for cs
    by (induction cs) auto
  ultimately show ?thesis
    by (metis dvd_triv_left even_iff_mod_2_eq_zero hex_decode_def length_map option.distinct(1))
qed

text \<open>The encoding of bytes is a SHA-256 digest text exactly when there are 32 of them.\<close>

theorem is_sha256_digest_hex: "is_sha256_digest (hex_encode bs) \<longleftrightarrow> length bs = 32"
proof -
  have "length (hex_encode bs) = 2 * length bs"
    by (induction bs) auto
  moreover have "digest_char (hex_digits ! n)" if "n < 16" for n
    using hex_digits_nth [OF that] that by (simp add: digest_char_def is_digit_def)
  then have "all_digest_chars (hex_encode bs)"
    by (induction bs) (auto simp: byte_nibbles less_mult_imp_div_less)
  ultimately show ?thesis by (auto simp: is_sha256_digest_def)
qed

end
