(* ===== verification/Range_Response.thy ===== *)
theory Range_Response
  imports Cache_Range Hex_Codec
begin

text \<open>
  \<open>src/node/data/cache_range_response.h\<close>: the response to a range request, assembled from the
  chunks of the representation as they arrive.  The random boundary bytes are an argument of the
  constructor, \<open>None\<close> when the generator fails.
\<close>

record cache_range_response =
  rr_selection :: cache_range_selection
  rr_total :: nat
  rr_content_type :: string
  rr_boundary :: string
  rr_length :: nat
  rr_index :: nat
  rr_consumed :: nat

definition crlf :: string where
  "crlf = [CHR 0x0D, CHR 0x0A]"

definition rr_ranges :: "cache_range_response \<Rightarrow> cache_byte_range list" where
  "rr_ranges r = sel_ranges (rr_selection r)"

definition multipart :: "cache_range_response \<Rightarrow> bool" where
  "multipart r = sel_multipart (rr_selection r)"

definition ignored :: "cache_range_response \<Rightarrow> bool" where
  "ignored r = sel_ignore (rr_selection r)"

definition content_range_text :: "cache_byte_range \<Rightarrow> nat \<Rightarrow> string" where
  "content_range_text g whole = ''bytes '' @ to_string (cr_offset g) @ ''-'' @
     to_string (cr_offset g + cr_length g - 1) @ ''/'' @ to_string whole"

definition part_prefix :: "cache_range_response \<Rightarrow> nat \<Rightarrow> string" where
  "part_prefix r i =
     (if i \<noteq> 0 then crlf @ ''--'' else ''--'') @ rr_boundary r @ crlf @
     (if rr_content_type r \<noteq> [] then ''Content-Type: '' @ rr_content_type r @ crlf else []) @
     ''Content-Range: '' @ content_range_text (rr_ranges r ! i) (rr_total r) @ crlf @ crlf"

definition ending :: "cache_range_response \<Rightarrow> string" where
  "ending r = crlf @ ''--'' @ rr_boundary r @ ''--'' @ crlf"

primrec length_loop :: "cache_range_response \<Rightarrow> nat list \<Rightarrow> nat \<Rightarrow> nat" where
  "length_loop r [] acc = acc"
| "length_loop r (i # is) acc =
     length_loop r is (acc + cr_length (rr_ranges r ! i) + (if multipart r then length (part_prefix r i) else 0))"

definition make_response :: "8 word list option \<Rightarrow> string \<Rightarrow> nat \<Rightarrow> bool \<Rightarrow> string \<Rightarrow>
    cache_range_response option" where
  "make_response random request whole partial content_type =
     (let selection = select_cache_ranges request whole partial;
        r = \<lparr>rr_selection = selection, rr_total = whole, rr_content_type = content_type,
             rr_boundary = [], rr_length = 0, rr_index = 0, rr_consumed = 0\<rparr> in
      if sel_multipart selection \<and> random = None then None
      else
        let r = (if sel_multipart selection
                 then r\<lparr>rr_boundary := ''flexedge-'' @ hex_encode (the random)\<rparr> else r);
          n = (if sel_ignore selection then whole
               else length_loop r [0..<length (sel_ranges selection)] 0 +
                 (if sel_multipart selection then length (ending r) else 0)) in
        Some (r\<lparr>rr_length := n\<rparr>))"

definition response_status :: "cache_range_response \<Rightarrow> nat" where
  "response_status r = (if ignored r then 200 else if rr_ranges r = [] then 416 else 206)"

definition response_content_type :: "cache_range_response \<Rightarrow> string" where
  "response_content_type r =
     (if multipart r then ''multipart/byteranges; boundary='' @ rr_boundary r else rr_content_type r)"

definition response_content_range :: "cache_range_response \<Rightarrow> string" where
  "response_content_range r =
     (if response_status r = 416 then ''bytes */'' @ to_string (rr_total r)
      else if response_status r \<noteq> 206 \<or> multipart r then []
      else content_range_text (hd (rr_ranges r)) (rr_total r))"

definition response_done :: "cache_range_response \<Rightarrow> bool" where
  "response_done r = (if ignored r then rr_consumed r \<ge> rr_total r else rr_index r = length (rr_ranges r))"

definition next_offset :: "cache_range_response \<Rightarrow> nat" where
  "next_offset r =
     (if ignored r then rr_consumed r
      else if rr_index r < length (rr_ranges r) then max (rr_consumed r) (cr_offset (rr_ranges r ! rr_index r))
      else rr_total r)"

function consume_loop :: "string \<Rightarrow> nat \<Rightarrow> cache_range_response \<Rightarrow> string \<Rightarrow> string \<times> cache_range_response" where
  "consume_loop bytes offset r output =
     (if rr_index r < length (rr_ranges r) then
        (let end_at = offset + length bytes; g = rr_ranges r ! rr_index r; first = max offset (cr_offset g);
           last = min end_at (cr_offset g + cr_length g) in
         if first \<ge> last then (output, r)
         else
           let output = (if first = cr_offset g \<and> multipart r then output @ part_prefix r (rr_index r) else output);
             output = output @ take (last - first) (drop (first - offset) bytes);
             r = r\<lparr>rr_consumed := last\<rparr> in
           if last \<noteq> cr_offset g + cr_length g then (output, r)
           else
             let r = r\<lparr>rr_index := rr_index r + 1\<rparr>;
               output = (if response_done r \<and> multipart r then output @ ending r else output) in
             consume_loop bytes offset r output)
      else (output, r))"
  by pat_completeness auto
termination
  by (relation "measure (\<lambda>(bytes, offset, r, output). length (rr_ranges r) - rr_index r)")
    (auto simp: rr_ranges_def)

declare consume_loop.simps [simp del]

definition consume :: "string \<Rightarrow> nat \<Rightarrow> cache_range_response \<Rightarrow> string \<times> cache_range_response" where
  "consume bytes offset r =
     (if ignored r then (bytes, r\<lparr>rr_consumed := offset + length bytes\<rparr>)
      else consume_loop bytes offset r [])"

subsection \<open>The body a response must have\<close>

definition part_body :: "cache_range_response \<Rightarrow> string \<Rightarrow> nat \<Rightarrow> string" where
  "part_body r data i = (if multipart r then part_prefix r i else []) @
     take (cr_length (rr_ranges r ! i)) (drop (cr_offset (rr_ranges r ! i)) data)"

definition response_body :: "cache_range_response \<Rightarrow> string \<Rightarrow> string" where
  "response_body r data =
     (if ignored r then data
      else concat (map (part_body r data) [0..<length (rr_ranges r)]) @
        (if multipart r \<and> rr_ranges r \<noteq> [] then ending r else []))"

text \<open>What has been sent when the representation was read up to \<open>pos\<close> and \<open>k\<close> ranges are complete.\<close>

definition sent :: "cache_range_response \<Rightarrow> string \<Rightarrow> nat \<Rightarrow> nat \<Rightarrow> string" where
  "sent r data pos k = concat (map (part_body r data) [0..<k]) @
     (if k < length (rr_ranges r) then
        (let g = rr_ranges r ! k in
         if cr_offset g < pos then (if multipart r then part_prefix r k else []) @
           take (pos - cr_offset g) (drop (cr_offset g) data) else [])
      else if multipart r \<and> rr_ranges r \<noteq> [] then ending r else [])"

definition in_progress :: "cache_range_response \<Rightarrow> string \<Rightarrow> nat \<Rightarrow> string \<Rightarrow> bool" where
  "in_progress r data pos out \<longleftrightarrow> \<not> ignored r \<and> ordered_ranges (length data) (rr_ranges r) \<and>
     rr_index r \<le> length (rr_ranges r) \<and> rr_consumed r \<le> pos \<and> out = sent r data pos (rr_index r) \<and>
     (rr_index r < length (rr_ranges r) \<longrightarrow> pos < range_end (rr_ranges r ! rr_index r))"

text \<open>Only the position of a response changes.\<close>

lemma moved_simps [simp]:
  "rr_ranges (r\<lparr>rr_consumed := c\<rparr>) = rr_ranges r" "rr_ranges (r\<lparr>rr_index := i\<rparr>) = rr_ranges r"
  "multipart (r\<lparr>rr_consumed := c\<rparr>) = multipart r" "multipart (r\<lparr>rr_index := i\<rparr>) = multipart r"
  "ignored (r\<lparr>rr_consumed := c\<rparr>) = ignored r" "ignored (r\<lparr>rr_index := i\<rparr>) = ignored r"
  "part_prefix (r\<lparr>rr_consumed := c\<rparr>) = part_prefix r" "part_prefix (r\<lparr>rr_index := i\<rparr>) = part_prefix r"
  "ending (r\<lparr>rr_consumed := c\<rparr>) = ending r" "ending (r\<lparr>rr_index := i\<rparr>) = ending r"
  by (auto simp: rr_ranges_def multipart_def ignored_def part_prefix_def ending_def)

lemma moved_part_body [simp]:
  "part_body (r\<lparr>rr_consumed := c\<rparr>) = part_body r" "part_body (r\<lparr>rr_index := i\<rparr>) = part_body r"
  by (intro ext; simp add: part_body_def)+

lemma moved_sent [simp]:
  "sent (r\<lparr>rr_consumed := c\<rparr>) = sent r" "sent (r\<lparr>rr_index := i\<rparr>) = sent r"
  by (intro ext; simp add: sent_def Let_def)+

lemma chunk_slice:
  assumes "bytes = take n (drop offset data)" and "offset \<le> a" and "b \<le> offset + n"
  shows "take (b - a) (drop (a - offset) bytes) = take (b - a) (drop a data)"
  using assms by (simp add: drop_take min_def)

lemma take_drop_append: "a \<le> b \<Longrightarrow> b \<le> c \<Longrightarrow> take (b - a) (drop a xs) @ take (c - b) (drop b xs) = take (c - a) (drop a xs)"
  by (metis (no_types, lifting) Nat.add_diff_assoc2 Nat.diff_add_assoc2 drop_drop le_add_diff_inverse le_add_diff_inverse2 take_add)

text \<open>One iteration: what is appended to the output is what the body still lacks up to \<open>stop\<close>.\<close>

lemma sent_step:
  assumes k: "k < length (rr_ranges r)" and g: "g = rr_ranges r ! k"
    and first: "first = max pos (cr_offset g)" and stop: "first < stop" "stop \<le> range_end g"
  shows "sent r data pos k @ (if first = cr_offset g \<and> multipart r then part_prefix r k else []) @
      take (stop - first) (drop first data) =
    concat (map (part_body r data) [0..<k]) @ (if multipart r then part_prefix r k else []) @
      take (stop - cr_offset g) (drop (cr_offset g) data)"
proof (cases "cr_offset g < pos")
  case True
  with k g first stop show ?thesis
    by (simp add: sent_def Let_def max_def take_drop_append)
next
  case False
  with k g first stop show ?thesis by (simp add: sent_def Let_def max_def)
qed

lemma sent_partial:
  assumes "k < length (rr_ranges r)" and "g = rr_ranges r ! k" and "cr_offset g < stop"
  shows "concat (map (part_body r data) [0..<k]) @ (if multipart r then part_prefix r k else []) @
      take (stop - cr_offset g) (drop (cr_offset g) data) = sent r data stop k"
  using assms by (simp add: sent_def Let_def)

lemma sent_complete:
  assumes "k < length (rr_ranges r)" and "g = rr_ranges r ! k" and "ordered_ranges n (rr_ranges r)"
  shows "concat (map (part_body r data) [0..<k]) @ (if multipart r then part_prefix r k else []) @
      take (range_end g - cr_offset g) (drop (cr_offset g) data) @
      (if Suc k = length (rr_ranges r) \<and> multipart r then ending r else []) = sent r data (range_end g) (Suc k)"
proof -
  have "range_end g \<le> cr_offset (rr_ranges r ! Suc k)" if "Suc k < length (rr_ranges r)"
    using assms that by (auto simp: ordered_ranges_def sorted_wrt_iff_nth_less)
  with assms show ?thesis by (auto simp: sent_def Let_def part_body_def range_end_def)
qed

lemma moved_refl: "\<exists>c i. r = r\<lparr>rr_consumed := c, rr_index := i\<rparr>"
  by (intro exI [of _ "rr_consumed r"] exI [of _ "rr_index r"]) simp

lemma moved_consumed: "\<exists>c i. r\<lparr>rr_consumed := d\<rparr> = r\<lparr>rr_consumed := c, rr_index := i\<rparr>"
  by (intro exI [of _ d] exI [of _ "rr_index r"]) simp

lemma next_range:
  assumes "ordered_ranges n gs" and "Suc k < length gs"
  shows "range_end (gs ! k) \<le> cr_offset (gs ! Suc k)" "cr_offset (gs ! Suc k) < range_end (gs ! Suc k)"
proof -
  show "range_end (gs ! k) \<le> cr_offset (gs ! Suc k)"
    using assms by (auto simp: ordered_ranges_def sorted_wrt_iff_nth_less)
  have "within n (gs ! Suc k)" using assms by (simp add: ordered_ranges_def list_all_length)
  then show "cr_offset (gs ! Suc k) < range_end (gs ! Suc k)" by (simp add: within_def range_end_def)
qed

lemma consume_loop_progress:
  assumes "in_progress r data pos (pre @ out)" and "pos \<le> offset + length bytes" and "bytes = take (length bytes) (drop offset data)"
    and "rr_index r < length (rr_ranges r) \<Longrightarrow> offset \<le> max pos (cr_offset (rr_ranges r ! rr_index r)) \<and>
      (cr_offset (rr_ranges r ! rr_index r) < pos \<longrightarrow> offset = pos)"
    and "consume_loop bytes offset r out = (out', r')"
  shows "in_progress r' data (offset + length bytes) (pre @ out') \<and> (\<exists>c i. r' = r\<lparr>rr_consumed := c, rr_index := i\<rparr>)"
  using assms
proof (induction "length (rr_ranges r) - rr_index r" arbitrary: r out pos rule: less_induct)
  case less
  let ?k = "rr_index r" and ?limit = "offset + length bytes"
  show ?case
  proof (cases "?k < length (rr_ranges r)")
    case False
    with less.prems have "r' = r" "out' = out" by (auto simp: consume_loop.simps [of bytes offset r out])
    with False less.prems(1,2) show ?thesis by (auto simp: in_progress_def sent_def intro: moved_refl)
  next
    case k: True
    define g where "g = rr_ranges r ! ?k"
    define first where "first = max pos (cr_offset g)"
    define stop where "stop = min ?limit (range_end g)"
    have first': "max offset (cr_offset g) = first" using less.prems(4) [OF k] by (auto simp: first_def g_def)
    have ordered: "ordered_ranges (length data) (rr_ranges r)" and g_end: "pos < range_end g"
      using less.prems(1) k by (auto simp: in_progress_def g_def)
    have g_within: "0 < cr_length g"
      using ordered k by (auto simp: ordered_ranges_def g_def list_all_length within_def)
    have slice: "take (stop - first) (drop (first - offset) bytes) = take (stop - first) (drop first data)"
      using chunk_slice [OF less.prems(3), of first stop] first' by (simp add: stop_def)
    define out1 where "out1 = out @ (if first = cr_offset g \<and> multipart r then part_prefix r ?k else []) @
      take (stop - first) (drop first data)"
    define r2 where "r2 = r\<lparr>rr_consumed := stop, rr_index := Suc ?k\<rparr>"
    define out2 where "out2 = out1 @ (if Suc ?k = length (rr_ranges r) \<and> multipart r then ending r else [])"
    have done2: "response_done (r\<lparr>rr_consumed := c, rr_index := Suc ?k\<rparr>) \<longleftrightarrow> Suc ?k = length (rr_ranges r)" for c
      using less.prems(1) by (simp add: response_done_def in_progress_def)
    have eq: "consume_loop bytes offset r out =
        (if stop \<le> first then (out, r)
         else if stop \<noteq> range_end g then (out1, r\<lparr>rr_consumed := stop\<rparr>)
         else consume_loop bytes offset r2 out2)"
      unfolding consume_loop.simps [of bytes offset r out] Let_def g_def [symmetric] range_end_def [symmetric]
        first' stop_def [symmetric] slice
      using k done2 by (simp add: out1_def out2_def r2_def)
    note progress = less.prems(1) [unfolded in_progress_def]
    have before: "pre @ out @ x = sent r data pos ?k @ x" for x using progress by (metis append_assoc)
    consider (none) "stop \<le> first" | (part) "first < stop" "stop \<noteq> range_end g" | (whole) "first < stop" "stop = range_end g"
      by linarith
    then show ?thesis
    proof cases
      case none
      then have res: "r' = r" "out' = out" using less.prems(5) eq by auto
      have "?limit \<le> first" using none g_end g_within by (auto simp: stop_def first_def range_end_def)
      then have "sent r data pos ?k = sent r data ?limit ?k" "?limit < range_end g"
        using less.prems(2) g_end g_within k by (auto simp: sent_def Let_def first_def g_def range_end_def max_def split: if_splits)
      with progress res less.prems(2) show ?thesis
        by (auto simp: in_progress_def g_def intro: moved_refl)
    next
      case part
      then have res: "r' = r\<lparr>rr_consumed := stop\<rparr>" "out' = out1" using less.prems(5) eq by auto
      have stop: "stop = ?limit" "stop < range_end g" using part by (auto simp: stop_def)
      have "pre @ out1 = sent r data stop ?k"
        using sent_step [OF k g_def first_def part(1)] sent_partial [OF k g_def, of stop] stop part
        by (auto simp: out1_def before first_def)
      with res stop progress k show ?thesis by (auto simp: in_progress_def g_def intro!: moved_consumed)
    next
      case whole
      have "pre @ out2 = sent r data stop (Suc ?k)"
        unfolding whole(2) sent_complete [OF k g_def ordered, of data, symmetric]
        using sent_step [OF k g_def first_def whole(1), of data] whole
        by (simp add: out2_def out1_def before)
      moreover have after: "stop < range_end (rr_ranges r ! Suc ?k)" "stop \<le> cr_offset (rr_ranges r ! Suc ?k)"
        if "Suc ?k < length (rr_ranges r)"
        using next_range [OF ordered that] whole(2) by (auto simp: g_def)
      ultimately have next_progress: "in_progress r2 data stop (pre @ out2)"
        using progress k by (auto simp: in_progress_def r2_def)
      have bounds: "offset \<le> stop" "stop \<le> ?limit" using whole first' by (auto simp: stop_def)
      have "consume_loop bytes offset r2 out2 = (out', r')" using less.prems(5) eq whole by simp
      moreover have "offset \<le> max stop (cr_offset (rr_ranges r2 ! rr_index r2)) \<and>
          (cr_offset (rr_ranges r2 ! rr_index r2) < stop \<longrightarrow> offset = stop)" if "rr_index r2 < length (rr_ranges r2)"
        using after that bounds(1) by (auto simp: r2_def)
      ultimately show ?thesis
        using less.hyps [OF _ next_progress bounds(2) less.prems(3)] k by (auto simp: r2_def)
    qed
  qed
qed

subsection \<open>Delivering a representation\<close>

text \<open>
  A response fed with chunks of the representation.  A chunk may start where the last one ended
  or anywhere up to the offset the response asks for next.
\<close>

inductive delivered :: "string \<Rightarrow> cache_range_response \<Rightarrow> cache_range_response \<Rightarrow> nat \<Rightarrow> string \<Rightarrow> bool"
  for data r\<^sub>0 where
  start: "delivered data r\<^sub>0 r\<^sub>0 0 []"
| chunk: "delivered data r\<^sub>0 r pos out \<Longrightarrow> pos \<le> offset \<Longrightarrow> offset \<le> max pos (next_offset r) \<Longrightarrow>
    offset + n \<le> length data \<Longrightarrow> consume (take n (drop offset data)) offset r = (text, r') \<Longrightarrow>
    delivered data r\<^sub>0 r' (offset + n) (out @ text)"

lemma consume_progress:
  assumes "in_progress r data pos out" and "pos \<le> offset" and "offset \<le> max pos (next_offset r)"
    and "offset + n \<le> length data" and "consume (take n (drop offset data)) offset r = (text, r')"
  shows "in_progress r' data (offset + n) (out @ text) \<and> (\<exists>c i. r' = r\<lparr>rr_consumed := c, rr_index := i\<rparr>)"
proof -
  let ?bytes = "take n (drop offset data)"
  have len: "length ?bytes = n" using assms(4) by simp
  have "consume_loop ?bytes offset r [] = (text, r')"
    using assms(1,5) by (simp add: consume_def in_progress_def)
  moreover have "offset \<le> max pos (cr_offset (rr_ranges r ! rr_index r)) \<and>
      (cr_offset (rr_ranges r ! rr_index r) < pos \<longrightarrow> offset = pos)" if "rr_index r < length (rr_ranges r)"
    using assms(1-3) that by (auto simp: next_offset_def in_progress_def max_def split: if_splits)
  ultimately show ?thesis
    using consume_loop_progress [of r data pos out "[]" offset ?bytes] assms(1,2) len by auto
qed

lemma select_multipart: "sel_multipart (select_cache_ranges v whole partial) \<Longrightarrow> sel_ranges (select_cache_ranges v whole partial) \<noteq> []"
  using select_loop_multipart by (auto simp: select_cache_ranges_def Let_def split: if_splits)

lemma length_loop_sum:
  "length_loop r is acc = acc + sum_list (map (\<lambda>i. cr_length (rr_ranges r ! i) + (if multipart r then length (part_prefix r i) else 0)) is)"
  by (induction "is" arbitrary: acc) (auto simp: algebra_simps)

lemma length_part_body:
  assumes "ordered_ranges (length data) (rr_ranges r)" and "i < length (rr_ranges r)"
  shows "length (part_body r data i) = cr_length (rr_ranges r ! i) + (if multipart r then length (part_prefix r i) else 0)"
proof -
  have "within (length data) (rr_ranges r ! i)" using assms by (simp add: ordered_ranges_def list_all_length)
  then show ?thesis by (auto simp: part_body_def within_def min_def)
qed

lemma resized_simps [simp]:
  "rr_ranges (r\<lparr>rr_length := n\<rparr>) = rr_ranges r" "multipart (r\<lparr>rr_length := n\<rparr>) = multipart r"
  "ignored (r\<lparr>rr_length := n\<rparr>) = ignored r" "part_prefix (r\<lparr>rr_length := n\<rparr>) = part_prefix r"
  "ending (r\<lparr>rr_length := n\<rparr>) = ending r"
  by (auto simp: rr_ranges_def multipart_def ignored_def part_prefix_def ending_def)

lemma make_response_Some:
  assumes "make_response random request whole partial content_type = Some r"
  shows "rr_selection r = select_cache_ranges request whole partial" "rr_total r = whole"
    "rr_index r = 0" "rr_consumed r = 0"
    "rr_length r = (if ignored r then whole else length_loop r [0..<length (rr_ranges r)] 0 +
       (if multipart r then length (ending r) else 0))"
proof -
  let ?s = "select_cache_ranges request whole partial"
  define q where "q = \<lparr>rr_selection = ?s, rr_total = whole, rr_content_type = content_type,
    rr_boundary = (if sel_multipart ?s then ''flexedge-'' @ hex_encode (the random) else []),
    rr_length = 0, rr_index = 0, rr_consumed = 0\<rparr>"
  define n where "n = (if sel_ignore ?s then whole else length_loop q [0..<length (sel_ranges ?s)] 0 +
    (if sel_multipart ?s then length (ending q) else 0))"
  have r: "r = q\<lparr>rr_length := n\<rparr>"
    using assms by (auto simp: make_response_def Let_def q_def n_def split: if_splits)
  have q: "rr_selection q = ?s" "rr_total q = whole" "rr_index q = 0" "rr_consumed q = 0" by (simp_all add: q_def)
  have loop: "length_loop r is acc = length_loop q is acc" for "is" acc
    by (induction "is" arbitrary: acc) (simp_all add: r)
  have "rr_ranges r = sel_ranges ?s" "ignored r = sel_ignore ?s" "multipart r = sel_multipart ?s" "ending r = ending q"
    using q(1) unfolding r by (simp_all add: ignored_def multipart_def rr_ranges_def)
  with q loop show "rr_selection r = ?s" "rr_total r = whole" "rr_index r = 0" "rr_consumed r = 0"
    "rr_length r = (if ignored r then whole else length_loop r [0..<length (rr_ranges r)] 0 +
       (if multipart r then length (ending r) else 0))"
    by (simp_all add: n_def) (simp_all add: r n_def)
qed

lemma made_ranges:
  assumes "make_response random request whole partial content_type = Some r"
  shows "ordered_ranges whole (rr_ranges r)" "multipart r \<Longrightarrow> rr_ranges r \<noteq> []"
  using make_response_Some(1) [OF assms] select_multipart [of request whole partial]
    select_loop_ordered [of whole "\<lparr>sel_ranges = [], sel_ignore = False, sel_multipart = False\<rparr>" None partial "drop 6 request" 0]
  by (auto simp: rr_ranges_def multipart_def select_cache_ranges_def Let_def ordered_ranges_def [of _ "[]"] bounded_by_def)

lemma length_response_body:
  assumes "make_response random request (length data) partial content_type = Some r"
  shows "length (response_body r data) = rr_length r"
proof -
  note ranges = made_ranges [OF assms]
  have "map (length \<circ> part_body r data) [0..<length (rr_ranges r)] =
      map (\<lambda>i. cr_length (rr_ranges r ! i) + (if multipart r then length (part_prefix r i) else 0)) [0..<length (rr_ranges r)]"
    using length_part_body [OF ranges(1)] by (intro map_cong) auto
  then have "length (concat (map (part_body r data) [0..<length (rr_ranges r)])) = length_loop r [0..<length (rr_ranges r)] 0"
    by (simp only: length_loop_sum length_concat map_map add_0)
  then show ?thesis
    using ranges(2) unfolding make_response_Some(5) [OF assms] by (simp add: response_body_def)
qed

lemma delivered_parts:
  assumes "delivered data r\<^sub>0 r pos out" and "in_progress r\<^sub>0 data 0 []"
  shows "in_progress r data pos out \<and> (\<exists>c i. r = r\<^sub>0\<lparr>rr_consumed := c, rr_index := i\<rparr>)"
  using assms
proof (induction rule: delivered.induct)
  case start
  then show ?case using moved_refl by blast
next
  case (chunk r pos out offset n t r')
  then have "in_progress r data pos out" by blast
  from consume_progress [OF this chunk(2-5)] obtain c i where "in_progress r' data (offset + n) (out @ t)"
    "r' = r\<lparr>rr_consumed := c, rr_index := i\<rparr>" by blast
  moreover from chunk obtain c' i' where "r = r\<^sub>0\<lparr>rr_consumed := c', rr_index := i'\<rparr>" by blast
  ultimately show ?case by (intro conjI exI [of _ c] exI [of _ i]) auto
qed

lemma delivered_whole:
  assumes "delivered data r\<^sub>0 r pos out" and "ignored r\<^sub>0" and "rr_consumed r\<^sub>0 = 0"
  shows "out = take pos data \<and> rr_consumed r = pos \<and> pos \<le> length data \<and> (\<exists>c. r = r\<^sub>0\<lparr>rr_consumed := c\<rparr>)"
  using assms
proof (induction rule: delivered.induct)
  case start
  then show ?case by (auto intro: exI [of _ "rr_consumed r\<^sub>0"])
next
  case (chunk r pos out offset n t r')
  then have IH: "out = take pos data" "rr_consumed r = pos" "ignored r" "\<exists>c. r = r\<^sub>0\<lparr>rr_consumed := c\<rparr>" by auto
  then have "offset = pos" using chunk(2,3) by (auto simp: next_offset_def)
  with chunk(4,5) IH show ?case by (auto simp: consume_def take_add)
qed

lemma delivered_state:
  assumes "make_response random request (length data) partial content_type = Some r\<^sub>0"
    and "delivered data r\<^sub>0 r pos out"
  shows "if ignored r\<^sub>0 then ignored r \<and> out = take pos data \<and> rr_consumed r = pos \<and> rr_total r = length data \<and> pos \<le> length data
    else in_progress r data pos out \<and> rr_ranges r = rr_ranges r\<^sub>0 \<and> multipart r = multipart r\<^sub>0 \<and> sent r = sent r\<^sub>0"
proof -
  note made = make_response_Some [OF assms(1)] and ranges = made_ranges [OF assms(1)]
  have "in_progress r\<^sub>0 data 0 []" if "\<not> ignored r\<^sub>0"
    using that ranges made by (auto simp: in_progress_def sent_def Let_def ordered_ranges_def list_all_length within_def range_end_def)
  then show ?thesis
    using delivered_parts [OF assms(2)] delivered_whole [OF assms(2)] made(2,4) by auto
qed

text \<open>
  Claim C21.  However the representation is cut into chunks, and whichever gaps between ranges the
  reader skips, the text sent when the response reports that it is done is exactly the body the
  request asks for (each range with its part header, then the closing boundary), and its length is
  the length announced before the first byte.
\<close>

theorem range_response_body:
  assumes "make_response random request (length data) partial content_type = Some r\<^sub>0"
    and "delivered data r\<^sub>0 r pos out" and "response_done r"
  shows "out = response_body r\<^sub>0 data \<and> length out = rr_length r\<^sub>0"
proof -
  have "sent r\<^sub>0 data pos (length (rr_ranges r\<^sub>0)) = response_body r\<^sub>0 data" if "\<not> ignored r\<^sub>0"
    using that by (simp add: sent_def response_body_def)
  then have "out = response_body r\<^sub>0 data"
    using delivered_state [OF assms(1,2)] assms(3)
    by (auto simp: response_done_def response_body_def in_progress_def split: if_splits)
  with length_response_body [OF assms(1)] show ?thesis by simp
qed

text \<open>
  Claim C22.  A response cannot wait for bytes that do not exist: while it is not done, the offset it
  asks for lies before the end of the representation, and once the whole representation was read it
  is done.
\<close>

theorem range_response_finishes:
  assumes "make_response random request (length data) partial content_type = Some r\<^sub>0"
    and "delivered data r\<^sub>0 r pos out"
  shows "(\<not> response_done r \<longrightarrow> next_offset r < length data) \<and> (pos = length data \<longrightarrow> response_done r)"
proof (cases "ignored r\<^sub>0")
  case True
  with delivered_state [OF assms] show ?thesis by (auto simp: response_done_def next_offset_def)
next
  case False
  then have p: "in_progress r data pos out" using delivered_state [OF assms] by simp
  have "within (length data) (rr_ranges r ! rr_index r)" if "rr_index r < length (rr_ranges r)"
    using p that by (simp add: in_progress_def ordered_ranges_def list_all_length)
  with p show ?thesis by (force simp: in_progress_def response_done_def next_offset_def within_def range_end_def)
qed

definition sample_response :: cache_range_response where
  "sample_response = \<lparr>rr_selection = \<lparr>sel_ranges = [], sel_ignore = True, sel_multipart = False\<rparr>, rr_total = 3,
     rr_content_type = [], rr_boundary = [], rr_length = 3, rr_index = 0, rr_consumed = 0\<rparr>"

lemma sample_response_made: "make_response None ''items=1'' (length ''abc'') False [] = Some sample_response"
  by (simp add: make_response_def sample_response_def select_cache_ranges_def)

lemma sample_delivered: "delivered ''abc'' sample_response (sample_response\<lparr>rr_consumed := 3\<rparr>) 3 ''abc''"
  using delivered.chunk [OF delivered.start, of 0 sample_response 3 "''abc''" "''abc''" "sample_response\<lparr>rr_consumed := 3\<rparr>"]
  by (simp add: consume_def sample_response_def ignored_def)

theorem range_response_body_witness:
  "''abc'' = response_body sample_response ''abc'' \<and> length ''abc'' = rr_length sample_response"
  by (rule range_response_body [OF sample_response_made sample_delivered])
    (simp add: response_done_def sample_response_def ignored_def)

theorem range_response_finishes_witness:
  "next_offset sample_response < length ''abc'' \<and> response_done (sample_response\<lparr>rr_consumed := 3\<rparr>)"
proof -
  have "\<not> response_done sample_response" by (simp add: response_done_def sample_response_def ignored_def)
  then show ?thesis
    using range_response_finishes [OF sample_response_made delivered.start]
      range_response_finishes [OF sample_response_made sample_delivered] by simp
qed

end
