(* ===== verification/Bytes_Budget.thy ===== *)
theory Bytes_Budget
  imports Prelude
begin

text \<open>
  \<open>src/node/data/buffered_bytes_budget.h\<close>: a budget of buffered bytes and the leases that draw on it.
  Sizes are \<open>std::size_t\<close>, 64-bit words.  A lease holds a pointer to its budget or none; there is one
  budget here, so the pointer is a flag.
\<close>

subsection \<open>Budget and leases\<close>

record bytes_budget =
  maximum_bytes :: "64 word"
  used_bytes :: "64 word"
  rejected_reservations :: "64 word"

record bytes_lease =
  lease_budget :: bool
  lease_bytes :: "64 word"

definition new_budget :: "64 word \<Rightarrow> bytes_budget" where
  "new_budget maximum = \<lparr>maximum_bytes = maximum, used_bytes = 0, rejected_reservations = 0\<rparr>"

definition new_lease :: bytes_lease where
  "new_lease = \<lparr>lease_budget = True, lease_bytes = 0\<rparr>"

definition empty_lease :: bytes_lease where
  "empty_lease = \<lparr>lease_budget = False, lease_bytes = 0\<rparr>"

definition reserve :: "64 word \<Rightarrow> bytes_budget \<Rightarrow> bool \<times> bytes_budget" where
  "reserve bytes b =
     (if bytes = 0 then (True, b)
      else if bytes > maximum_bytes b \<or> used_bytes b > maximum_bytes b - bytes
      then (False, b\<lparr>rejected_reservations := rejected_reservations b + 1\<rparr>)
      else (True, b\<lparr>used_bytes := used_bytes b + bytes\<rparr>))"

definition release :: "64 word \<Rightarrow> bytes_budget \<Rightarrow> bytes_budget" where
  "release bytes b = (if bytes \<noteq> 0 then b\<lparr>used_bytes := used_bytes b - bytes\<rparr> else b)"

definition try_grow :: "64 word \<Rightarrow> bytes_lease \<Rightarrow> bytes_budget \<Rightarrow> bool \<times> bytes_lease \<times> bytes_budget" where
  "try_grow bytes l b =
     (if \<not> lease_budget l then (True, l, b)
      else case reserve bytes b of
          (False, b') \<Rightarrow> (False, l, b')
        | (True, b') \<Rightarrow> (True, l\<lparr>lease_bytes := lease_bytes l + bytes\<rparr>, b'))"

definition shrink :: "64 word \<Rightarrow> bytes_lease \<Rightarrow> bytes_budget \<Rightarrow> bytes_lease \<times> bytes_budget" where
  "shrink bytes l b =
     (if \<not> lease_budget l \<or> bytes = 0 then (l, b)
      else let released = min bytes (lease_bytes l) in
        (l\<lparr>lease_bytes := lease_bytes l - released\<rparr>, release released b))"

definition reset_lease :: "bytes_lease \<Rightarrow> bytes_budget \<Rightarrow> bytes_lease \<times> bytes_budget" where
  "reset_lease l b =
     (if lease_budget l then (l\<lparr>lease_bytes := 0, lease_budget := False\<rparr>, release (lease_bytes l) b)
      else (l, b))"

text \<open>The moved-from lease is left without a budget; the new value and the rest are returned.\<close>

definition move_from :: "bytes_lease \<Rightarrow> bytes_lease \<times> bytes_lease" where
  "move_from other = (other, other\<lparr>lease_budget := False, lease_bytes := 0\<rparr>)"

subsection \<open>A budget in use\<close>

text \<open>
  The leases that exist are a list.  A step is one public operation on one of them; \<open>drop_lease\<close> is the
  destructor and \<open>move_assign\<close> the assignment, which leaves a lease moved onto itself alone.
\<close>

type_synonym budget_world = "bytes_budget \<times> bytes_lease list"

definition move_assign :: "nat \<Rightarrow> nat \<Rightarrow> budget_world \<Rightarrow> budget_world" where
  "move_assign i j w =
     (case w of (b, ls) \<Rightarrow>
      if i = j then w
      else case (reset_lease (ls ! i) b, move_from (ls ! j)) of
        ((_, b'), (value, rest)) \<Rightarrow> (b', ls[i := value, j := rest]))"

definition drop_lease :: "nat \<Rightarrow> budget_world \<Rightarrow> budget_world" where
  "drop_lease i w = (case w of (b, ls) \<Rightarrow> (snd (reset_lease (ls ! i) b), take i ls @ drop (Suc i) ls))"

inductive budget_step :: "budget_world \<Rightarrow> budget_world \<Rightarrow> bool" where
  lease: "budget_step (b, ls) (b, ls @ [new_lease])"
| default: "budget_step (b, ls) (b, ls @ [empty_lease])"
| move_construct: "j < length ls \<Longrightarrow> move_from (ls ! j) = (value, rest) \<Longrightarrow>
     budget_step (b, ls) (b, ls[j := rest] @ [value])"
| move_assign: "i < length ls \<Longrightarrow> j < length ls \<Longrightarrow> budget_step (b, ls) (move_assign i j (b, ls))"
| try_grow: "i < length ls \<Longrightarrow> try_grow bytes (ls ! i) b = (ok, l, b') \<Longrightarrow>
     budget_step (b, ls) (b', ls[i := l])"
| shrink: "i < length ls \<Longrightarrow> shrink bytes (ls ! i) b = (l, b') \<Longrightarrow> budget_step (b, ls) (b', ls[i := l])"
| drop_lease: "i < length ls \<Longrightarrow> budget_step (b, ls) (drop_lease i (b, ls))"

definition held :: "bytes_lease list \<Rightarrow> nat" where
  "held ls = sum_list (map (\<lambda>l. unat (lease_bytes l)) ls)"

definition budget_ok :: "budget_world \<Rightarrow> bool" where
  "budget_ok w = (case w of (b, ls) \<Rightarrow>
     unat (used_bytes b) = held ls \<and> used_bytes b \<le> maximum_bytes b \<and>
     list_all (\<lambda>l. \<not> lease_budget l \<longrightarrow> lease_bytes l = 0) ls)"

definition budget_start :: "budget_world \<Rightarrow> bool" where
  "budget_start w \<longleftrightarrow> (\<exists>maximum. w = (new_budget maximum, []))"

subsection \<open>Accounting\<close>

lemma held_append [simp]: "held [] = 0" "held (l # ls) = unat (lease_bytes l) + held ls"
  "held (ls @ ls') = held ls + held ls'"
  by (simp_all add: held_def)

lemma held_split: "i < length ls \<Longrightarrow> held ls = held (take i ls) + unat (lease_bytes (ls ! i)) + held (drop (Suc i) ls)"
  by (subst id_take_nth_drop [of i ls]) simp_all

lemma held_update:
  "i < length ls \<Longrightarrow> held (ls[i := l]) + unat (lease_bytes (ls ! i)) = held ls + unat (lease_bytes l)"
  by (simp add: held_split [of i ls] upd_conv_take_nth_drop)

lemma held_member: "i < length ls \<Longrightarrow> unat (lease_bytes (ls ! i)) \<le> held ls"
  by (simp add: held_split)

lemma release_used: "unat bytes \<le> unat (used_bytes b) \<Longrightarrow>
    unat (used_bytes (release bytes b)) = unat (used_bytes b) - unat bytes"
  by (simp add: release_def unat_sub word_le_nat_alt)

lemma release_maximum [simp]: "maximum_bytes (release bytes b) = maximum_bytes b"
  by (simp add: release_def)

lemma reserve_True:
  assumes "reserve bytes b = (True, b')" "used_bytes b \<le> maximum_bytes b"
  shows "unat (used_bytes b') = unat (used_bytes b) + unat bytes \<and> used_bytes b' \<le> maximum_bytes b' \<and>
    maximum_bytes b' = maximum_bytes b"
proof (cases "bytes = 0")
  case False
  with assms(1) have le: "bytes \<le> maximum_bytes b" "used_bytes b \<le> maximum_bytes b - bytes"
    and b': "b' = b\<lparr>used_bytes := used_bytes b + bytes\<rparr>"
    by (auto simp: reserve_def split: if_splits)
  have "unat (used_bytes b) + unat bytes \<le> unat (maximum_bytes b)"
    using le by (simp add: word_le_nat_alt unat_sub)
  moreover from this have "unat (used_bytes b + bytes) = unat (used_bytes b) + unat bytes"
    by (rule unat_add_bounded)
  ultimately show ?thesis by (simp add: b' word_le_nat_alt)
qed (use assms in \<open>simp add: reserve_def\<close>)

lemma reserve_iff:
  "fst (reserve bytes b) \<longleftrightarrow> bytes = 0 \<or> unat (used_bytes b) + unat bytes \<le> unat (maximum_bytes b)"
proof -
  have "used_bytes b \<le> maximum_bytes b - bytes \<longleftrightarrow> unat (used_bytes b) + unat bytes \<le> unat (maximum_bytes b)"
    if "bytes \<le> maximum_bytes b"
    using that by (auto simp: word_le_nat_alt unat_sub)
  then show ?thesis by (auto simp: reserve_def word_less_nat_alt word_le_nat_alt not_less)
qed

lemma budget_ok_update:
  assumes ok: "budget_ok (b, ls)" and i: "i < length ls" and max: "maximum_bytes b' = maximum_bytes b"
    and le: "used_bytes b' \<le> maximum_bytes b'" and l: "lease_budget l \<or> lease_bytes l = 0"
    and used: "unat (used_bytes b') + unat (lease_bytes (ls ! i)) = unat (used_bytes b) + unat (lease_bytes l)"
  shows "budget_ok (b', ls[i := l])"
proof -
  have "unat (used_bytes b') = held (ls[i := l])"
    using ok used held_update [OF i, of l] by (simp add: budget_ok_def)
  moreover have "list_all (\<lambda>l. \<not> lease_budget l \<longrightarrow> lease_bytes l = 0) (ls[i := l])"
    using ok l set_update_subset_insert [of ls i l] by (auto simp: budget_ok_def list_all_iff)
  ultimately show ?thesis using le by (simp add: budget_ok_def)
qed

lemma release_ok:
  assumes "budget_ok (b, ls)" "i < length ls" "bytes \<le> lease_bytes (ls ! i)"
  shows "unat (used_bytes (release bytes b)) + unat bytes = unat (used_bytes b) \<and>
    used_bytes (release bytes b) \<le> maximum_bytes b"
proof -
  have "unat bytes \<le> unat (used_bytes b)"
    using assms held_member [OF assms(2)] by (simp add: budget_ok_def word_le_nat_alt)
  from release_used [OF this] this assms(1) show ?thesis by (auto simp: budget_ok_def word_le_nat_alt)
qed

lemma try_grow_ok:
  assumes ok: "budget_ok (b, ls)" and i: "i < length ls" and grow: "try_grow bytes (ls ! i) b = (r, l, b')"
  shows "budget_ok (b', ls[i := l])"
proof (cases "lease_budget (ls ! i)")
  case False
  with grow ok list_update_id [of ls i] show ?thesis by (auto simp: try_grow_def)
next
  case True
  obtain r1 b1 where r: "reserve bytes b = (r1, b1)" by (rule prod.exhaust)
  have le: "used_bytes b \<le> maximum_bytes b" using ok by (simp add: budget_ok_def)
  show ?thesis
  proof (cases r1)
    case False
    with r grow True have "l = ls ! i" "b' = b\<lparr>rejected_reservations := rejected_reservations b + 1\<rparr>"
      by (auto simp: try_grow_def reserve_def split: if_splits)
    with ok show ?thesis by (simp add: budget_ok_def)
  next
    case rT: True
    with r grow True have l: "l = (ls ! i)\<lparr>lease_bytes := lease_bytes (ls ! i) + bytes\<rparr>" and b': "b' = b1"
      by (auto simp: try_grow_def)
    have res: "unat (used_bytes b') = unat (used_bytes b) + unat bytes" "used_bytes b' \<le> maximum_bytes b'"
      "maximum_bytes b' = maximum_bytes b"
      using reserve_True [OF _ le, of bytes b1] r rT b' by auto
    have "unat (lease_bytes (ls ! i)) + unat bytes \<le> unat (used_bytes b')"
      using held_member [OF i] ok res(1) by (simp add: budget_ok_def)
    then have "unat (lease_bytes (ls ! i) + bytes) = unat (lease_bytes (ls ! i)) + unat bytes"
      by (rule unat_add_bounded)
    with res True show ?thesis by (intro budget_ok_update [OF ok i]) (simp_all add: l)
  qed
qed

lemma shrink_ok:
  assumes ok: "budget_ok (b, ls)" and i: "i < length ls" and shrink: "shrink bytes (ls ! i) b = (l, b')"
  shows "budget_ok (b', ls[i := l])"
proof (cases "lease_budget (ls ! i) \<and> bytes \<noteq> 0")
  case False
  with shrink ok list_update_id [of ls i] show ?thesis by (auto simp: shrink_def)
next
  case True
  define released where "released = min bytes (lease_bytes (ls ! i))"
  have le: "released \<le> lease_bytes (ls ! i)" by (simp add: released_def)
  have l: "l = (ls ! i)\<lparr>lease_bytes := lease_bytes (ls ! i) - released\<rparr>" "b' = release released b"
    using shrink True by (auto simp: shrink_def released_def Let_def)
  show ?thesis
    using release_ok [OF ok i le] le True
    by (intro budget_ok_update [OF ok i]) (auto simp: l unat_sub word_le_nat_alt)
qed

lemma reset_lease_ok:
  assumes ok: "budget_ok (b, ls)" and i: "i < length ls" and reset: "reset_lease (ls ! i) b = (l, b')"
  shows "budget_ok (b', ls[i := l]) \<and> l = empty_lease"
proof (cases "lease_budget (ls ! i)")
  case False
  with ok i have "ls ! i = empty_lease"
    by (cases "ls ! i") (auto simp: budget_ok_def list_all_length empty_lease_def)
  with reset ok False list_update_id [of ls i] show ?thesis by (auto simp: reset_lease_def)
next
  case True
  with reset have l: "l = (ls ! i)\<lparr>lease_bytes := 0, lease_budget := False\<rparr>" "b' = release (lease_bytes (ls ! i)) b"
    by (auto simp: reset_lease_def)
  have "budget_ok (b', ls[i := l])"
    using release_ok [OF ok i order_refl] by (intro budget_ok_update [OF ok i]) (auto simp: l)
  then show ?thesis by (cases "ls ! i") (simp add: l empty_lease_def)
qed

lemma drop_empty_ok:
  assumes "budget_ok (b, ls[i := empty_lease])" "i < length ls"
  shows "budget_ok (b, take i ls @ drop (Suc i) ls)"
  using assms by (simp add: budget_ok_def upd_conv_take_nth_drop empty_lease_def)

lemma swap_held:
  assumes "i < length ls" "j < length ls" "i \<noteq> j" "ls ! i = empty_lease"
  shows "held (ls[i := ls ! j, j := empty_lease]) = held ls"
proof -
  have "held (ls[i := ls ! j, j := empty_lease]) + unat (lease_bytes (ls ! j)) = held (ls[i := ls ! j])"
    using held_update [of j "ls[i := ls ! j]" empty_lease] assms by (simp add: empty_lease_def)
  moreover have "held (ls[i := ls ! j]) = held ls + unat (lease_bytes (ls ! j))"
    using held_update [OF assms(1), of "ls ! j"] assms(4) by (simp add: empty_lease_def)
  ultimately show ?thesis by simp
qed

lemma move_assign_ok:
  assumes ok: "budget_ok (b, ls)" and ij: "i < length ls" "j < length ls"
  shows "budget_ok (move_assign i j (b, ls))"
proof (cases "i = j")
  case False
  obtain l b' where r: "reset_lease (ls ! i) b = (l, b')" by (rule prod.exhaust)
  from reset_lease_ok [OF ok ij(1) r] have ok': "budget_ok (b', ls[i := empty_lease])" by blast
  have moved: "(ls ! j)\<lparr>lease_budget := False, lease_bytes := 0\<rparr> = empty_lease"
    by (cases "ls ! j") (simp add: empty_lease_def)
  have eq: "move_assign i j (b, ls) = (b', ls[i := empty_lease, i := ls ! j, j := empty_lease])"
    using False by (simp add: move_assign_def r move_from_def moved)
  have "held (ls[i := empty_lease, i := ls ! j, j := empty_lease]) = held (ls[i := empty_lease])"
    using swap_held [of i "ls[i := empty_lease]" j] ij False by simp
  moreover have "set (ls[i := empty_lease, i := ls ! j, j := empty_lease]) \<subseteq> set ls \<union> {empty_lease}"
    using ij by (auto dest!: set_update_subset_insert [THEN subsetD])
  ultimately show ?thesis
    using ok ok' unfolding eq budget_ok_def by (fastforce simp: list_all_iff empty_lease_def)
qed (use ok in \<open>simp add: move_assign_def\<close>)

lemma budget_step_ok: "budget_step w w' \<Longrightarrow> budget_ok w \<Longrightarrow> budget_ok w'"
proof (induction rule: budget_step.induct)
  case (move_construct j ls val rest b)
  then have rest: "rest = empty_lease" "val = ls ! j"
    by (cases "ls ! j"; auto simp: move_from_def empty_lease_def)+
  have "held (ls[j := empty_lease] @ [ls ! j]) = held ls"
    using held_update [OF move_construct.hyps(1), of empty_lease] by (simp add: empty_lease_def)
  moreover have "set (ls[j := empty_lease] @ [ls ! j]) \<subseteq> insert empty_lease (set ls)"
    using move_construct.hyps(1) set_update_subset_insert [of ls j empty_lease] by auto
  ultimately show ?case
    using move_construct.prems unfolding rest budget_ok_def by (fastforce simp: list_all_iff empty_lease_def)
next
  case (drop_lease i ls b)
  obtain l b' where r: "reset_lease (ls ! i) b = (l, b')" by (rule prod.exhaust)
  from drop_empty_ok [of b' ls i] reset_lease_ok [OF drop_lease.prems drop_lease.hyps r] drop_lease.hyps
  show ?case by (auto simp: drop_lease_def r)
qed (auto intro: move_assign_ok try_grow_ok shrink_ok simp: budget_ok_def [of "(_, _ @ _)"]
    new_lease_def empty_lease_def, auto simp: budget_ok_def)

interpretation budget_machine: state_machine budget_start budget_step budget_ok
proof unfold_locales
  show "budget_ok w" if "budget_start w" for w
    using that by (auto simp: budget_start_def budget_ok_def new_budget_def)
qed (rule budget_step_ok)

lemma reachable_budget_ok: "budget_step\<^sup>*\<^sup>* (new_budget maximum, []) w \<Longrightarrow> budget_ok w"
  by (rule budget_machine.reachable_invariant [of "(new_budget maximum, [])"]) (auto simp: budget_start_def)

lemma budget_maximum: "budget_step\<^sup>*\<^sup>* w w' \<Longrightarrow> maximum_bytes (fst w') = maximum_bytes (fst w)"
proof (induction rule: rtranclp_induct)
  case (step y z)
  have reset: "maximum_bytes (snd (reset_lease l b)) = maximum_bytes b" for l b
    by (simp add: reset_lease_def)
  from step(2) have "maximum_bytes (fst z) = maximum_bytes (fst y)"
  proof cases
    case (move_assign i ls j b)
    then show ?thesis using reset [of "ls ! i" b] by (auto simp: move_assign_def move_from_def split: prod.split)
  next
    case (try_grow i ls bytes b r l b')
    then show ?thesis by (auto simp: try_grow_def reserve_def split: if_splits prod.splits)
  next
    case (shrink i ls bytes b l b')
    then show ?thesis by (auto simp: shrink_def Let_def split: if_splits)
  qed (auto simp: drop_lease_def reset)
  with step(3) show ?case by simp
qed simp

text \<open>
  Claim C39.  However leases are made, grown, shrunk, moved and destroyed, the bytes they hold add up
  to what the budget counts as used and never exceed its maximum.
\<close>

theorem budget_bounded:
  assumes "budget_step\<^sup>*\<^sup>* (new_budget maximum, []) (b, ls)"
  shows "unat (used_bytes b) = held ls \<and> held ls \<le> unat maximum"
  using reachable_budget_ok [OF assms] budget_maximum [OF assms]
  by (simp add: budget_ok_def word_le_nat_alt new_budget_def)

lemma one_lease: "budget_step\<^sup>*\<^sup>* (new_budget 9, []) (new_budget 9, [new_lease])"
  using budget_step.lease [of "new_budget 9" "[]"] by (intro r_into_rtranclp) simp

theorem budget_bounded_witness:
  "unat (used_bytes (new_budget 9)) = held [new_lease] \<and> held [new_lease] \<le> unat (9 :: 64 word)"
  using budget_bounded [OF one_lease] by simp

text \<open>
  A lease of the budget can grow exactly when all leases together, grown by that much,
  still fit; the test never wraps around.  A refused growth changes no lease.
\<close>

theorem try_grow_iff:
  assumes "budget_step\<^sup>*\<^sup>* (new_budget maximum, []) (b, ls)" "i < length ls" "lease_budget (ls ! i)"
  shows "(case try_grow bytes (ls ! i) b of (grown, l, b') \<Rightarrow>
      grown = (bytes = 0 \<or> held ls + unat bytes \<le> unat maximum) \<and>
      unat (lease_bytes l) = unat (lease_bytes (ls ! i)) + (if grown then unat bytes else 0))"
proof -
  have used: "unat (used_bytes b) = held ls" "maximum_bytes b = maximum"
    using reachable_budget_ok [OF assms(1)] budget_maximum [OF assms(1)]
    by (simp_all add: budget_ok_def new_budget_def)
  obtain r b' where r: "reserve bytes b = (r, b')" by (rule prod.exhaust)
  then have iff: "r = (bytes = 0 \<or> held ls + unat bytes \<le> unat maximum)"
    using reserve_iff [of bytes b] by (simp add: used)
  have "unat (lease_bytes (ls ! i) + bytes) = unat (lease_bytes (ls ! i)) + unat bytes" if r
  proof (cases "bytes = 0")
    case False
    with that iff held_member [OF assms(2)] have "unat (lease_bytes (ls ! i)) + unat bytes \<le> unat maximum" by linarith
    then show ?thesis by (rule unat_add_bounded)
  qed simp
  with r iff assms(3) show ?thesis by (cases r) (simp_all add: try_grow_def)
qed

theorem try_grow_iff_witness:
  "fst (try_grow 10 new_lease (new_budget 9)) = False"
  using try_grow_iff [OF one_lease, of 0 10]
  by (simp add: new_lease_def case_prod_beta)

end
