(* ===== verification/Cache_Capacity.thy ===== *)
theory Cache_Capacity
  imports Prelude
begin

text \<open>
  \<open>src/node/data/cache_capacity.h\<close>: how much a cache may hold, from the resources of the machine.
  All quantities are 64-bit words.  What the operating system reports is an argument.
\<close>

record cache_resource_capacity =
  total_bytes :: "64 word"
  available_bytes :: "64 word"

definition cache_capacity_limit ::
    "cache_resource_capacity option \<Rightarrow> 64 word \<Rightarrow> 64 word \<Rightarrow> 64 word \<Rightarrow> 64 word \<Rightarrow> 64 word" where
  "cache_capacity_limit resource used fixed percent reserved =
     (case resource of
        None \<Rightarrow> if percent \<noteq> 0 \<or> reserved \<noteq> 0 then 0 else fixed
      | Some r \<Rightarrow>
          let configured = (if percent \<noteq> 0
                then total_bytes r div 100 * percent + total_bytes r mod 100 * percent div 100 else fixed);
            available = min (available_bytes r) (total_bytes r);
            recoverable = min (total_bytes r) (available + min used (total_bytes r - available)) in
          min configured (if recoverable > reserved then recoverable - reserved else 0))"

lemma unat_mult_bounded: "unat a * unat b \<le> unat c \<Longrightarrow> unat (a * b) = unat a * unat b" for a b c :: "64 word"
  using unat_less_64 [of c] by (simp add: unat_word_ariths(2) del: unat_less_64)

lemma unat_min: "unat (min a b) = min (unat a) (unat b)" for a b :: "64 word"
  by (simp add: min_def word_le_nat_alt)

lemma unat_percent:
  fixes t p :: "64 word"
  assumes "unat p \<le> 100"
  shows "unat (t div 100 * p + t mod 100 * p div 100) = unat t * unat p div 100"
proof -
  let ?t = "unat t" and ?p = "unat p"
  have split: "?t * ?p div 100 = ?t div 100 * ?p + ?t mod 100 * ?p div 100"
  proof -
    have "?t * ?p = ?t div 100 * ?p * 100 + ?t mod 100 * ?p"
      using add_mult_distrib [of "?t div 100 * 100" "?t mod 100" ?p] by simp
    then show ?thesis by simp
  qed
  have le: "?t * ?p div 100 \<le> ?t"
    using div_le_mono [OF mult_le_mono2 [OF assms, of ?t], of 100] by simp
  have d: "unat (t div 100) = ?t div 100" "unat (t mod 100) = ?t mod 100"
    by (simp_all add: unat_div unat_mod)
  have "?t div 100 * ?p \<le> ?t" using split le by linarith
  then have m1: "unat (t div 100 * p) = ?t div 100 * ?p"
    using unat_mult_bounded [of "t div 100" p t] d by simp
  have "?t mod 100 * ?p \<le> 100 * 100" using assms by (intro mult_le_mono) auto
  then have m2: "unat (t mod 100 * p) = ?t mod 100 * ?p"
    using unat_mult_bounded [of "t mod 100" p "10000"] d by simp
  have m3: "unat (t mod 100 * p div 100) = ?t mod 100 * ?p div 100"
    by (simp add: unat_div m2)
  have "unat (t div 100 * p) + unat (t mod 100 * p div 100) \<le> unat t"
    using split le m1 m3 by simp
  from unat_add_bounded [OF this] show ?thesis by (simp add: m1 m3 split)
qed

lemma unat_recoverable:
  fixes t a u :: "64 word"
  shows "unat (min t (min a t + min u (t - min a t))) = min (unat t) (unat a + unat u)"
proof -
  have sub: "unat (t - min a t) = unat t - min (unat a) (unat t)"
    by (subst unat_sub) (simp_all add: word_le_nat_alt unat_min)
  have "unat (min a t) + unat (min u (t - min a t)) \<le> unat t"
    by (simp add: unat_min sub)
  from unat_add_bounded [OF this] show ?thesis unfolding unat_min sub by arith
qed

text \<open>
  Claim C40.  With a percentage of at most one hundred the limit is computed without wrap-around: it
  is the share of the memory (or the fixed size), capped by what is free or already used by the
  cache less the reserve.
\<close>

theorem cache_capacity_limit_value:
  assumes "unat percent \<le> 100"
  shows "unat (cache_capacity_limit (Some r) used fixed percent reserved) =
    min (if percent \<noteq> 0 then unat (total_bytes r) * unat percent div 100 else unat fixed)
      (min (unat (total_bytes r)) (unat (available_bytes r) + unat used) - unat reserved)"
proof -
  define free where "free = min (total_bytes r) (min (available_bytes r) (total_bytes r) +
    min used (total_bytes r - min (available_bytes r) (total_bytes r)))"
  have rest: "unat (if b > c then b - c else 0) = unat b - unat c" for b c :: "64 word"
    by (simp add: unat_sub word_less_nat_alt word_le_nat_alt)
  have free: "unat free = min (unat (total_bytes r)) (unat (available_bytes r) + unat used)"
    unfolding free_def by (rule unat_recoverable)
  show ?thesis
    unfolding cache_capacity_limit_def option.case Let_def free_def [symmetric] unat_min rest free [symmetric]
    using unat_percent [OF assms] by simp
qed

theorem cache_capacity_limit_value_witness:
  "unat (cache_capacity_limit (Some \<lparr>total_bytes = 1000, available_bytes = 300\<rparr>) 50 7 60 100) = 250"
  by (subst cache_capacity_limit_value) simp_all

end
