(* ===== verification/Route_Match.thy ===== *)
theory Route_Match
  imports Hex_Codec
begin

text \<open>
  \<open>src/common/route_match.h\<close>: the checks on match types, patterns and capture templates, the
  strict UTF-8 validator, and the decoding of query strings.  The regular expression library
  (RE2) is not part of the repository: it is the record \<open>re2\<close> of the calls the code makes, an
  argument of every definition that uses it.  A compiled pattern is its text.
\<close>

record re2_options =
  case_sensitive :: bool
  dot_nl :: bool

record re2 =
  re2_ok :: "re2_options \<Rightarrow> string \<Rightarrow> bool"
  number_of_capturing_groups :: "re2_options \<Rightarrow> string \<Rightarrow> nat"
  partial_match :: "re2_options \<Rightarrow> string \<Rightarrow> string \<Rightarrow> bool"
  full_match :: "re2_options \<Rightarrow> string \<Rightarrow> string \<Rightarrow> bool"
  match_groups :: "re2_options \<Rightarrow> string \<Rightarrow> string \<Rightarrow> string list option"

definition default_options :: re2_options where
  "default_options = \<lparr>case_sensitive = True, dot_nl = False\<rparr>"

definition redirect_status :: "int \<Rightarrow> bool" where
  "redirect_status status \<longleftrightarrow> status = 301 \<or> status = 302 \<or> status = 307 \<or> status = 308"

definition valid_match_type :: "string \<Rightarrow> bool" where
  "valid_match_type type \<longleftrightarrow>
     type = ''exact'' \<or> type = ''prefix'' \<or> type = ''suffix'' \<or> type = ''regex''"

definition compile_pattern :: "re2 \<Rightarrow> string \<Rightarrow> string option" where
  "compile_pattern R pattern =
     (if pattern = [] \<or> length pattern > 512 \<or> \<not> clean_text pattern 512 \<or>
         contains pattern (CHR 0x5C # ''C'') then None
      else if \<not> re2_ok R default_options pattern \<or>
         number_of_capturing_groups R default_options pattern > 9 then None
      else Some pattern)"

fun capture_template :: "string \<Rightarrow> int \<Rightarrow> bool" where
  "capture_template [] groups = True"
| "capture_template (c # cs) groups =
     (if c \<noteq> CHR ''$'' \<or> cs = [] then capture_template cs groups
      else if hd cs = CHR ''$'' then capture_template (tl cs) groups
      else if hd cs \<noteq> CHR ''{'' then capture_template cs groups
      else if length cs < 3 \<or> byte (cs ! 1) < 48 \<or> byte (cs ! 1) > 57 \<or>
              cs ! 2 \<noteq> CHR ''}'' \<or> int (byte (cs ! 1)) - 48 > groups then False
      else capture_template (drop 3 cs) groups)"

definition condition_options :: "string \<Rightarrow> string \<Rightarrow> string \<Rightarrow> string \<Rightarrow> bool" where
  "condition_options source name op v =
     (if (source \<noteq> ''header'' \<and> source \<noteq> ''query'') \<or> name = [] \<or>
         \<not> clean_text name 256 \<or> \<not> clean_text v 2048 \<or>
         (op \<noteq> ''equals'' \<and> op \<noteq> ''not_equals'' \<and> op \<noteq> ''exists'' \<and> op \<noteq> ''absent'') \<or>
         ((op = ''exists'' \<or> op = ''absent'') \<and> v \<noteq> []) then False
      else if source = ''header'' \<and> \<not> http_token name 256 then False
      else True)"

subsection \<open>UTF-8\<close>

text \<open>The lead byte gives the first bits, the number of continuation bytes and the least code.\<close>

definition utf8_lead :: "nat \<Rightarrow> (nat \<times> nat \<times> nat) option" where
  "utf8_lead first =
     (if 0xc2 \<le> first \<and> first \<le> 0xdf then Some (first AND 0x1f, 1, 0x80)
      else if 0xe0 \<le> first \<and> first \<le> 0xef then Some (first AND 0x0f, 2, 0x800)
      else if 0xf0 \<le> first \<and> first \<le> 0xf4 then Some (first AND 0x07, 3, 0x10000)
      else None)"

fun utf8_tail :: "nat \<Rightarrow> nat \<Rightarrow> string \<Rightarrow> (nat \<times> string) option" where
  "utf8_tail 0 code rest = Some (code, rest)"
| "utf8_tail (Suc remaining) code [] = None"
| "utf8_tail (Suc remaining) code (c # cs) =
     (if byte c AND 0xc0 \<noteq> 0x80 then None
      else utf8_tail remaining (push_bit 6 code OR (byte c AND 0x3f)) cs)"

lemma utf8_tail_length: "utf8_tail n code s = Some (code', r) \<Longrightarrow> length s = n + length r"
  by (induction n code s rule: utf8_tail.induct) (auto split: if_splits)

function valid_utf8 :: "string \<Rightarrow> bool" where
  "valid_utf8 [] = True"
| "valid_utf8 (f # rest) =
     (if byte f < 0x80 then valid_utf8 rest
      else (case utf8_lead (byte f) of
        None \<Rightarrow> False
      | Some (code, remaining, minimum) \<Rightarrow>
          if length rest < remaining then False
          else (case utf8_tail remaining code rest of
            None \<Rightarrow> False
          | Some (code', rest') \<Rightarrow>
              if code' < minimum \<or> code' > 0x10ffff \<or> (0xd800 \<le> code' \<and> code' \<le> 0xdfff) then False
              else valid_utf8 rest')))"
  by pat_completeness auto
termination
  by (relation "measure length") (auto dest!: utf8_tail_length)

subsection \<open>Query strings\<close>

definition hex_value :: "char \<Rightarrow> int" where
  "hex_value c =
     (if is_digit c then int (byte c) - 48
      else if 97 \<le> byte c \<and> byte c \<le> 102 then int (byte c) - 97 + 10
      else if 65 \<le> byte c \<and> byte c \<le> 70 then int (byte c) - 65 + 10
      else - 1)"

fun decode_query_loop :: "string \<Rightarrow> string option" where
  "decode_query_loop [] = Some []"
| "decode_query_loop (c # cs) =
     (if c = CHR ''+'' then map_option ((#) CHR '' '') (decode_query_loop cs)
      else if c = CHR ''%'' then
        (case cs of
           h # l # rest \<Rightarrow>
             if hex_value h < 0 \<or> hex_value l < 0 then None
             else map_option ((#) (mk_byte (nat (hex_value h * 16 + hex_value l)))) (decode_query_loop rest)
         | _ \<Rightarrow> None)
      else map_option ((#) c) (decode_query_loop cs))"

definition decode_query :: "string \<Rightarrow> string option" where
  "decode_query input =
     (case decode_query_loop input of
        None \<Rightarrow> None
      | Some result \<Rightarrow> if \<not> valid_utf8 result then None else Some result)"

type_synonym query_values = "(string \<times> string) list"

function get_query_loop :: "string \<Rightarrow> query_values option" where
  "get_query_loop query =
     (if query = [] then Some [] else
      (let (part, amp) = cut_at CHR ''&'' query;
           next_values = (case amp of None \<Rightarrow> Some [] | Some rest \<Rightarrow> get_query_loop rest)
       in if part \<noteq> [] then
            (let (raw_name, equal) = cut_at CHR ''='' part in
             (case (decode_query raw_name,
                    decode_query (case equal of None \<Rightarrow> [] | Some raw_value \<Rightarrow> raw_value)) of
                (Some name, Some v) \<Rightarrow> map_option ((#) (name, v)) next_values
              | _ \<Rightarrow> None))
          else next_values))"
  by pat_completeness auto
termination
  by (relation "measure length") (auto dest!: sym [of "(_, Some _)"] simp: cut_at_Some_iff)

declare get_query_loop.simps [simp del]

definition get_query_values :: "string \<Rightarrow> query_values option" where
  "get_query_values target =
     (case cut_at CHR ''?'' target of
        (_, None) \<Rightarrow> Some []
      | (_, Some query) \<Rightarrow> get_query_loop query)"

subsection \<open>The UTF-8 validator accepts exactly UTF-8\<close>

definition scalar :: "nat \<Rightarrow> bool" where
  "scalar cp \<longleftrightarrow> cp \<le> 0x10ffff \<and> \<not> (0xd800 \<le> cp \<and> cp \<le> 0xdfff)"

definition utf8_encode :: "nat \<Rightarrow> string" where
  "utf8_encode cp =
     (if cp < 0x80 then [mk_byte cp]
      else if cp < 0x800 then [mk_byte (0xc0 + cp div 64), mk_byte (0x80 + cp mod 64)]
      else if cp < 0x10000 then
        [mk_byte (0xe0 + cp div 4096), mk_byte (0x80 + cp div 64 mod 64), mk_byte (0x80 + cp mod 64)]
      else
        [mk_byte (0xf0 + cp div 262144), mk_byte (0x80 + cp div 4096 mod 64),
         mk_byte (0x80 + cp div 64 mod 64), mk_byte (0x80 + cp mod 64)])"

lemma and_mask_nat: "(n :: nat) AND 0x3f = n mod 64" "n AND 0x1f = n mod 32"
  "n AND 0x0f = n mod 16" "n AND 0x07 = n mod 8"
  using take_bit_eq_mask [of 6 n] take_bit_eq_mask [of 5 n] take_bit_eq_mask [of 4 n]
    take_bit_eq_mask [of 3 n]
  by (simp_all add: take_bit_eq_mod mask_eq_exp_minus_1)

lemma continuation_byte: "b < 256 \<Longrightarrow> (b :: nat) AND 0xc0 = 0x80 \<longleftrightarrow> 128 \<le> b \<and> b < 192"
proof -
  assume b: "b < 256"
  have "b AND 192 = 64 * ((b div 64) AND 3)"
    using and_push_bit [of b 6 3] by (simp add: push_bit_eq_mult drop_bit_eq_div)
  also have "(b div 64) AND 3 = b div 64 mod 4"
    using take_bit_eq_mask [of 2 "b div 64"] by (simp add: take_bit_eq_mod mask_eq_exp_minus_1)
  finally show ?thesis using b by auto
qed

lemma utf8_tail_Suc:
  "utf8_tail (Suc n) code s = Some (code', r) \<longleftrightarrow>
     (\<exists>c cs. s = c # cs \<and> 128 \<le> byte c \<and> byte c < 192 \<and>
        utf8_tail n (64 * code + byte c mod 64) cs = Some (code', r))"
  by (cases s) (auto simp: continuation_byte and_mask_nat push_bit_or_nat [of _ 6, simplified])

lemma mod_add_multiple: "n < m \<Longrightarrow> (k * m + n) mod m = (n :: nat)"
  by simp

lemma utf8_tail_encode [simp]:
  "n < 64 \<Longrightarrow> utf8_tail (Suc k) code (mk_byte (128 + n) # r) = utf8_tail k (64 * code + n) r"
  using mod_add_multiple [of n 64 2]
  by (simp add: continuation_byte and_mask_nat push_bit_or_nat [of _ 6, simplified])

declare utf8_tail.simps(3) [simp del]

lemma lead_bits:
  "2 \<le> n \<Longrightarrow> n < 32 \<Longrightarrow> utf8_lead (192 + n) = Some (n, 1, 0x80)"
  "n < 16 \<Longrightarrow> utf8_lead (224 + n) = Some (n, 2, 0x800)"
  "n < 5 \<Longrightarrow> utf8_lead (240 + n) = Some (n, 3, 0x10000)"
  using mod_add_multiple [of n 32 6] mod_add_multiple [of n 16 14] mod_add_multiple [of n 8 30]
  by (simp_all add: utf8_lead_def and_mask_nat)

lemma div_digits: "64 * (cp div 4096) + cp div 64 mod 64 = cp div (64 :: nat)"
  "64 * (cp div 262144) + cp div 4096 mod 64 = cp div (4096 :: nat)"
  using div_mult2_eq [of cp 64 64] div_mult2_eq [of cp 4096 64] by simp_all

lemma valid_utf8_encode: "scalar cp \<Longrightarrow> valid_utf8 (utf8_encode cp @ r) = valid_utf8 r"
proof -
  assume sc: "scalar cp"
  consider "cp < 0x80" | "0x80 \<le> cp" "cp < 0x800" | "0x800 \<le> cp" "cp < 0x10000" | "0x10000 \<le> cp"
    by linarith
  then show ?thesis
  proof cases
    case 1
    then show ?thesis by (simp add: utf8_encode_def)
  next
    case 2
    then have "2 \<le> cp div 64" "cp div 64 < 32" by (auto simp: less_mult_imp_div_less)
    with 2 sc show ?thesis
      by (simp add: utf8_encode_def lead_bits scalar_def)
  next
    case 3
    then have "cp div 4096 < 16" by (auto simp: less_mult_imp_div_less)
    with 3 sc show ?thesis
      by (auto simp: utf8_encode_def lead_bits scalar_def numeral_2_eq_2 div_digits)
  next
    case 4
    with sc have "cp div 262144 < 5" by (auto simp: scalar_def less_mult_imp_div_less)
    with 4 sc show ?thesis
      by (simp add: utf8_encode_def lead_bits scalar_def numeral_3_eq_3 div_digits)
  qed
qed

lemma utf8_lead_Some:
  assumes "utf8_lead b = Some (code, n, minimum)"
  shows "(2 \<le> code \<and> code < 32 \<and> b = 192 + code \<and> n = 1 \<and> minimum = 0x80) \<or>
     (code < 16 \<and> b = 224 + code \<and> n = 2 \<and> minimum = 0x800) \<or>
     (code < 5 \<and> b = 240 + code \<and> n = 3 \<and> minimum = 0x10000)"
proof -
  have "b mod 32 = b - 192" if "192 \<le> b" "b \<le> 223"
    using that mod_add_multiple [of "b - 192" 32 6] by simp
  moreover have "b mod 16 = b - 224" if "224 \<le> b" "b \<le> 239"
    using that mod_add_multiple [of "b - 224" 16 14] by simp
  moreover have "b mod 8 = b - 240" if "240 \<le> b" "b \<le> 244"
    using that mod_add_multiple [of "b - 240" 8 30] by simp
  ultimately show ?thesis
    using assms by (auto simp: utf8_lead_def and_mask_nat split: if_splits)
qed

lemma continuation_char:
  "128 \<le> byte c \<Longrightarrow> byte c < 192 \<Longrightarrow> \<exists>n<64. c = mk_byte (128 + n) \<and> byte c mod 64 = n"
  using mod_add_multiple [of "byte c - 128" 64 2] by (intro exI [of _ "byte c - 128"]) simp

fun tail_bytes :: "nat \<Rightarrow> nat \<Rightarrow> string" where
  "tail_bytes 0 cp = []"
| "tail_bytes (Suc n) cp = mk_byte (128 + cp div 64 ^ n mod 64) # tail_bytes n cp"

lemma utf8_tail_Some:
  "utf8_tail n code s = Some (cp, r) \<Longrightarrow> s = tail_bytes n cp @ r \<and> cp div 64 ^ n = code"
proof (induction n arbitrary: code s)
  case 0
  then show ?case by simp
next
  case (Suc n)
  then obtain c cs where s: "s = c # cs" and c: "128 \<le> byte c" "byte c < 192"
    and rest: "utf8_tail n (64 * code + byte c mod 64) cs = Some (cp, r)"
    by (auto simp: utf8_tail_Suc)
  from continuation_char [OF c] obtain x
    where x: "x < 64" "c = mk_byte (128 + x)" "byte c mod 64 = x" by blast
  from Suc.IH [OF rest] x have cs: "cs = tail_bytes n cp @ r" and d: "cp div 64 ^ n = 64 * code + x"
    by auto
  from d x have "cp div 64 ^ n mod 64 = x" by simp
  moreover have "cp div 64 ^ Suc n = code"
    using d x div_mult2_eq [of cp "64 ^ n" 64] by (simp add: mult.commute)
  ultimately show ?case using s x cs by simp
qed

lemma utf8_sequence:
  assumes "utf8_lead (byte f) = Some (code, n, minimum)" and "utf8_tail n code rest = Some (cp, r)"
    and "minimum \<le> cp"
  shows "f # rest = utf8_encode cp @ r"
proof -
  have f: "f = mk_byte (byte f)" by simp
  from utf8_tail_Some [OF assms(2)] have rest: "rest = tail_bytes n cp @ r" "cp div 64 ^ n = code"
    by auto
  from utf8_lead_Some [OF assms(1)] show ?thesis
  proof (elim disjE conjE)
    assume *: "2 \<le> code" "code < 32" "byte f = 192 + code" "n = 1"  "minimum = 0x80"
    then have "cp < 0x800" using rest(2) by (simp add: div_less_iff_less_mult)
    with * f rest assms(3) show ?thesis by (simp add: utf8_encode_def)
  next
    assume *: "code < 16" "byte f = 224 + code" "n = 2" "minimum = 0x800"
    then have "cp < 0x10000" using rest(2) by (simp add: div_less_iff_less_mult)
    with * f rest assms(3) show ?thesis by (simp add: utf8_encode_def numeral_2_eq_2)
  next
    assume *: "code < 5" "byte f = 240 + code" "n = 3" "minimum = 0x10000"
    with f rest assms(3) show ?thesis by (simp add: utf8_encode_def numeral_3_eq_3)
  qed
qed

text \<open>
  Claim C17.  The validator accepts exactly the byte strings that are the UTF-8 encodings of
  sequences of Unicode scalar values: no overlong form, no surrogate, nothing above U+10FFFF.
\<close>

theorem valid_utf8_iff:
  "valid_utf8 s \<longleftrightarrow> (\<exists>cps. list_all scalar cps \<and> s = concat (map utf8_encode cps))"
proof
  assume "valid_utf8 s"
  then show "\<exists>cps. list_all scalar cps \<and> s = concat (map utf8_encode cps)"
  proof (induction s rule: valid_utf8.induct)
    case 1
    show ?case by (intro exI [of _ "[]"]) simp
  next
    case (2 f rest)
    show ?case
    proof (cases "byte f < 0x80")
      case True
      with 2 obtain cps where "list_all scalar cps" "rest = concat (map utf8_encode cps)" by auto
      with True show ?thesis
        by (intro exI [of _ "byte f # cps"]) (simp add: scalar_def [of "byte f"] utf8_encode_def [of "byte f"])
    next
      case False
      with "2.prems" obtain code n minimum where lead: "utf8_lead (byte f) = Some (code, n, minimum)"
        by (cases "utf8_lead (byte f)") auto
      with "2.prems" False obtain cp r
        where tail: "utf8_tail n code rest = Some (cp, r)" "\<not> length rest < n"
        by (cases "utf8_tail n code rest") (auto split: if_splits)
      with "2.prems" False lead have cp: "minimum \<le> cp" "scalar cp" "valid_utf8 r"
        by (auto simp: scalar_def split: if_splits)
      from "2.IH"(2) [OF False lead refl refl tail(2) tail(1) refl _ cp(3)] cp(1,2)
      obtain cps where "list_all scalar cps" "r = concat (map utf8_encode cps)"
        by (auto simp: scalar_def [of cp])
      with cp(2) utf8_sequence [OF lead tail(1) cp(1)] show ?thesis
        by (intro exI [of _ "cp # cps"]) simp
    qed
  qed
next
  assume "\<exists>cps. list_all scalar cps \<and> s = concat (map utf8_encode cps)"
  then obtain cps where "list_all scalar cps" "s = concat (map utf8_encode cps)" by blast
  then show "valid_utf8 s"
    by (induction cps arbitrary: s) (auto simp: valid_utf8_encode)
qed

subsection \<open>Query decoding\<close>

text \<open>One decoded byte can be written as itself, as \<open>+\<close> for a space, or as \<open>%\<close> and two digits.\<close>

inductive encodes :: "string \<Rightarrow> char \<Rightarrow> bool" where
  plain: "c \<noteq> CHR ''+'' \<Longrightarrow> c \<noteq> CHR ''%'' \<Longrightarrow> encodes [c] c"
| plus: "encodes ''+'' CHR '' ''"
| percent: "hex_value h = int a \<Longrightarrow> hex_value l = int b \<Longrightarrow>
    encodes [CHR ''%'', h, l] (mk_byte (a * 16 + b))"

lemma hex_value_nibble: "hex_value = nibble"
  by (rule ext) (simp add: hex_value_def nibble_def)

lemma hex_value_cases: obtains "hex_value c < 0" | n where "n < 16" "hex_value c = int n"
  using nibble_range [of c] by (auto simp: hex_value_nibble)

lemma decode_query_loop_encodes:
  "decode_query_loop t = Some s \<Longrightarrow> \<exists>es. t = concat es \<and> list_all2 encodes es s"
proof (induction t arbitrary: s rule: decode_query_loop.induct)
  case 1
  then show ?case by simp
next
  case (2 c cs)
  consider "c = CHR ''+''" | "c = CHR ''%''" | "c \<noteq> CHR ''+''" "c \<noteq> CHR ''%''" by blast
  then show ?case
  proof cases
    case 1
    with 2 obtain s' where "s = CHR '' '' # s'" "decode_query_loop cs = Some s'" by auto
    with 1 2 obtain es where "cs = concat es" "list_all2 encodes es s'" by auto
    with 1 \<open>s = _\<close> show ?thesis by (intro exI [of _ "''+'' # es"]) (auto intro: encodes.plus)
  next
    case 2
    with "2.prems" obtain h l rest s' where cs: "cs = h # l # rest"
      and nz: "\<not> (hex_value h < 0 \<or> hex_value l < 0)" and s': "decode_query_loop rest = Some s'"
      and s: "s = mk_byte (nat (hex_value h * 16 + hex_value l)) # s'"
      by (auto split: list.splits if_splits)
    from "2.IH"(2) [OF _ 2 cs refl nz s'] obtain es
      where es: "rest = concat es" "list_all2 encodes es s'" by (auto simp: 2)
    from nz obtain a b where "hex_value h = int a" "hex_value l = int b"
      by (metis linorder_not_less zero_le_imp_eq_int)
    with encodes.percent [OF this] s have "encodes [CHR ''%'', h, l] (hd s)"
      by (metis list.sel(1) nat_int of_nat_add of_nat_mult of_nat_numeral)
    with es cs s 2 show ?thesis by (intro exI [of _ "[CHR ''%'', h, l] # es"]) auto
  next
    case 3
    with 2 obtain s' where "s = c # s'" "decode_query_loop cs = Some s'" by auto
    with 3 2 obtain es where "cs = concat es" "list_all2 encodes es s'" by auto
    with 3 \<open>s = _\<close> show ?thesis by (intro exI [of _ "[c] # es"]) (auto intro: encodes.plain)
  qed
qed

lemma encodes_decode:
  "encodes e c \<Longrightarrow> decode_query_loop (e @ r) = map_option ((#) c) (decode_query_loop r)"
  by (induction rule: encodes.induct) (auto simp: nat_add_distrib nat_mult_distrib)

lemma decode_query_loop_iff:
  "decode_query_loop t = Some s \<longleftrightarrow> (\<exists>es. t = concat es \<and> list_all2 encodes es s)"
proof
  assume "\<exists>es. t = concat es \<and> list_all2 encodes es s"
  then obtain es where t: "t = concat es" and all: "list_all2 encodes es s" by blast
  from all have "decode_query_loop (concat es) = Some s"
    by (induction rule: list_all2_induct) (auto simp: encodes_decode)
  with t show "decode_query_loop t = Some s" by simp
qed (rule decode_query_loop_encodes)

text \<open>
  Claim C18.  Query decoding is exact: a text decodes to a string precisely when the string is
  valid UTF-8 and the text spells each of its bytes as itself, as a plus sign for a space, or as
  a percent sign and two hexadecimal digits.
\<close>

theorem decode_query_iff:
  "decode_query t = Some s \<longleftrightarrow> valid_utf8 s \<and> (\<exists>es. t = concat es \<and> list_all2 encodes es s)"
  unfolding decode_query_def decode_query_loop_iff [symmetric]
  by (auto split: option.splits)

subsection \<open>Query parameters\<close>

text \<open>A client that writes every byte of names and values as \<open>%XX\<close>.\<close>

definition pct_char :: "char \<Rightarrow> string" where
  "pct_char c = [CHR ''%'', hex_digits ! (byte c div 16), hex_digits ! (byte c mod 16)]"

definition pct :: "string \<Rightarrow> string" where
  "pct s = concat (map pct_char s)"

fun render_query :: "query_values \<Rightarrow> string" where
  "render_query [] = []"
| "render_query [(n, v)] = pct n @ CHR ''='' # pct v"
| "render_query ((n, v) # ps) = pct n @ CHR ''='' # pct v @ CHR ''&'' # render_query ps"

lemma hex_digit_facts:
  assumes "n < 16"
  shows "hex_value (hex_digits ! n) = int n" "hex_digits ! n \<notin> {CHR ''&'', CHR ''='', CHR ''?''}"
proof -
  show "hex_value (hex_digits ! n) = int n"
    using hex_digits_nth [OF assms] assms by (simp add: hex_value_def is_digit_def)
  have "byte (hex_digits ! n) \<notin> {byte CHR ''&'', byte CHR ''='', byte CHR ''?''}"
    unfolding hex_digits_nth [OF assms] using assms by (simp add: byte_def)
  then show "hex_digits ! n \<notin> {CHR ''&'', CHR ''='', CHR ''?''}" by auto
qed

lemma encodes_pct_char: "encodes (pct_char c) c"
proof -
  have d: "byte c div 16 < 16" "byte c mod 16 < 16" by (simp_all add: less_mult_imp_div_less)
  have "encodes (pct_char c) (mk_byte (byte c div 16 * 16 + byte c mod 16))"
    unfolding pct_char_def using d by (intro encodes.percent) (simp_all add: hex_digit_facts)
  then show ?thesis by simp
qed

lemma decode_query_pct: "valid_utf8 s \<Longrightarrow> decode_query (pct s) = Some s"
  unfolding decode_query_iff pct_def
  by (auto intro!: exI [of _ "map pct_char s"] simp: list_all2_conv_all_nth encodes_pct_char)

lemma pct_chars: "CHR ''&'' \<notin> set (pct s)" "CHR ''='' \<notin> set (pct s)"
proof -
  have "d \<notin> {CHR ''&'', CHR ''=''}" if "d \<in> set (pct_char c)" for c d
    using that hex_digit_facts(2) [of "byte c div 16"] hex_digit_facts(2) [of "byte c mod 16"]
    by (auto simp: pct_char_def less_mult_imp_div_less)
  then show "CHR ''&'' \<notin> set (pct s)" "CHR ''='' \<notin> set (pct s)"
    by (auto simp: pct_def)
qed

lemma get_query_loop_part:
  assumes "valid_utf8 n" "valid_utf8 v"
  shows "get_query_loop (pct n @ CHR ''='' # pct v) = Some [(n, v)]"
    and "get_query_loop (pct n @ CHR ''='' # pct v @ CHR ''&'' # r) =
           map_option ((#) (n, v)) (get_query_loop r)"
proof -
  let ?part = "pct n @ CHR ''='' # pct v"
  have no: "CHR ''&'' \<notin> set ?part" using pct_chars by simp
  have eq: "cut_at CHR ''='' ?part = (pct n, Some (pct v))" using pct_chars by simp
  show "get_query_loop ?part = Some [(n, v)]"
    by (subst get_query_loop.simps) (simp add: cut_at_absent [OF no] eq assms decode_query_pct)
  have "cut_at CHR ''&'' (?part @ CHR ''&'' # r) = (?part, Some r)" using no by (rule cut_at_append)
  then have "get_query_loop (?part @ CHR ''&'' # r) = map_option ((#) (n, v)) (get_query_loop r)"
    by (subst get_query_loop.simps) (simp add: eq assms decode_query_pct)
  then show "get_query_loop (pct n @ CHR ''='' # pct v @ CHR ''&'' # r) =
           map_option ((#) (n, v)) (get_query_loop r)" by simp
qed

text \<open>
  Claim C19.  Parameters that a client percent-encodes, joins by ampersands and appends after a
  question mark are read back in order, duplicates and empty values included.
\<close>

theorem get_query_values_render:
  assumes "CHR ''?'' \<notin> set path"
    and "list_all (\<lambda>(n, v). valid_utf8 n \<and> valid_utf8 v) ps"
  shows "get_query_values (path @ CHR ''?'' # render_query ps) = Some ps"
proof -
  have "get_query_loop (render_query ps) = Some ps"
    using assms(2)
  proof (induction ps rule: render_query.induct)
    case 1
    show ?case by (simp add: get_query_loop.simps)
  qed (simp_all add: get_query_loop_part)
  with assms(1) show ?thesis by (simp add: get_query_values_def)
qed

theorem get_query_values_render_witness:
  "get_query_values (''/search'' @ CHR ''?'' # render_query [(''q'', ''a b''), (''q'', ''''), (''&'', ''='')])
     = Some [(''q'', ''a b''), (''q'', ''''), (''&'', ''='')]"
  by (rule get_query_values_render) (simp_all add: byte_def)

end
