(* ===== verification/Cache_Settings.thy ===== *)
theory Cache_Settings
  imports Route_Match
begin

text \<open>
  \<open>src/common/cache_settings.h\<close>: the per-rule cache settings and their validation.  The 64-bit
  integers are only compared, so they are \<open>int\<close>; an error message is a constructor of
  \<open>settings_error\<close>, the empty message is \<open>None\<close>.
\<close>

record status_ttl =
  t_from :: int
  t_to :: int
  t_seconds :: int

record header_key =
  hk_name :: string
  hk_values :: "string list"

record cache_key =
  k_query_mode :: string
  k_query_parameters :: "string list"
  k_headers :: "string list"
  k_header_presence :: "string list"
  k_header_values :: "header_key list"
  k_cookies :: "string list"
  k_cookie_presence :: "string list"
  k_include_origin :: bool
  k_host :: string
  k_country :: bool
  k_language :: bool

record vary_header =
  vh_name :: string
  vh_action :: string
  vh_values :: "string list"

record rule_settings =
  s_enabled :: "string list"
  s_status_ttl :: "status_ttl list"
  s_key :: cache_key
  s_armor :: bool
  s_device :: bool
  s_sort_query :: bool
  s_serve_stale :: bool
  s_strong_etags :: bool
  s_origin_control :: bool
  s_vary_default :: string
  s_vary_headers :: "vary_header list"
  s_origin_range :: string
  s_ports :: "int list"
  s_read_timeout :: int
  s_error_passthrough :: bool

definition default_cache_key :: cache_key where
  "default_cache_key = \<lparr>k_query_mode = ''all'', k_query_parameters = [], k_headers = [],
     k_header_presence = [], k_header_values = [], k_cookies = [], k_cookie_presence = [],
     k_include_origin = True, k_host = ''original'', k_country = False, k_language = False\<rparr>"

definition default_settings :: rule_settings where
  "default_settings = \<lparr>s_enabled = [], s_status_ttl = [], s_key = default_cache_key, s_armor = False,
     s_device = False, s_sort_query = False, s_serve_stale = True, s_strong_etags = False,
     s_origin_control = True, s_vary_default = ''bypass'', s_vary_headers = [],
     s_origin_range = ''default'', s_ports = [], s_read_timeout = 120, s_error_passthrough = False\<rparr>"

datatype settings_error =
    Bad_setting_name | Bad_advanced | Bad_status_range | Overlapping_status | Bad_port | Bad_key
  | Too_many_key_fields | Bad_key_field | Too_many_header_values | Restricted_header
  | Bad_header_values | Bad_vary | Bad_vary_value

definition has_setting :: "rule_settings \<Rightarrow> string \<Rightarrow> bool" where
  "has_setting settings name \<longleftrightarrow> name \<in> set (s_enabled settings)"

definition setting_names :: "string list" where
  "setting_names = [''edge'', ''status'', ''browser'', ''key'', ''armor'', ''device'', ''sort'',
     ''stale'', ''etag'', ''origin'', ''vary'', ''range'', ''ports'', ''timeout'', ''errors'']"

definition bad_advanced :: "rule_settings \<Rightarrow> bool" where
  "bad_advanced v \<longleftrightarrow>
     length (s_status_ttl v) > 32 \<or> s_read_timeout v < 1 \<or> s_read_timeout v > 6000 \<or>
     (s_origin_range v \<noteq> ''default'' \<and> s_origin_range v \<noteq> ''on'' \<and> s_origin_range v \<noteq> ''off'') \<or>
     (s_vary_default v \<noteq> ''bypass'' \<and> s_vary_default v \<noteq> ''passthrough'' \<and> s_vary_default v \<noteq> ''normalize'') \<or>
     length (s_vary_headers v) > 50 \<or> length (s_ports v) > 64"

definition bad_status :: "status_ttl \<Rightarrow> bool" where
  "bad_status s \<longleftrightarrow> t_from s < 100 \<or> t_to s > 999 \<or> t_from s > t_to s \<or> t_seconds s < -1 \<or>
     t_seconds s > 31536000"

definition overlapping :: "status_ttl \<Rightarrow> status_ttl \<Rightarrow> bool" where
  "overlapping s e \<longleftrightarrow> t_from s \<le> t_to e \<and> t_to s \<ge> t_from e"

text \<open>The two nested loops over the status ranges; \<open>earlier\<close> holds the indices below \<open>i\<close>.\<close>

fun status_loop :: "status_ttl list \<Rightarrow> status_ttl list \<Rightarrow> settings_error option" where
  "status_loop earlier [] = None"
| "status_loop earlier (s # rest) =
     (if bad_status s then Some Bad_status_range
      else if list_ex (overlapping s) earlier then Some Overlapping_status
      else status_loop (earlier @ [s]) rest)"

definition bad_key :: "cache_key \<Rightarrow> bool" where
  "bad_key key \<longleftrightarrow>
     (k_query_mode key \<noteq> ''all'' \<and> k_query_mode key \<noteq> ''ignore'' \<and> k_query_mode key \<noteq> ''include'' \<and>
      k_query_mode key \<noteq> ''exclude'') \<or>
     (k_host key \<noteq> ''original'' \<and> k_host key \<noteq> ''resolved'') \<or>
     length (k_query_parameters key) > 100 \<or>
     ((k_query_mode key = ''include'' \<or> k_query_mode key = ''exclude'') \<and> k_query_parameters key = [])"

text \<open>\<open>http_token\<close> without a limit uses the declared default of 256 bytes.\<close>

definition key_fields_error :: "bool \<Rightarrow> string list \<Rightarrow> settings_error option" where
  "key_fields_error token names =
     (if length names > 100 then Some Too_many_key_fields
      else check (\<not> unique_names (\<lambda>name. name \<noteq> [] \<and> clean_text name 128 \<and>
             (token \<longrightarrow> http_token name 256)) {} names) Bad_key_field)"

definition restricted_headers :: "string list" where
  "restricted_headers = [''accept'', ''accept-charset'', ''accept-encoding'', ''accept-datetime'',
     ''accept-language'', ''referer'', ''user-agent'']"

definition valid_header_values :: "string list \<Rightarrow> bool" where
  "valid_header_values vs \<longleftrightarrow> vs \<noteq> [] \<and> length vs \<le> 3 \<and>
     list_all (\<lambda>text. text \<noteq> [] \<and> clean_text text 1024) vs"

primrec header_values_loop :: "string set \<Rightarrow> header_key list \<Rightarrow> bool" where
  "header_values_loop seen [] = True"
| "header_values_loop seen (f # fs) =
     (http_token (hk_name f) 256 \<and> hk_name f \<notin> seen \<and> valid_header_values (hk_values f) \<and>
      header_values_loop (insert (hk_name f) seen) fs)"

definition key_error :: "cache_key \<Rightarrow> settings_error option" where
  "key_error key =
     first_error
       [check (bad_key key) Bad_key,
        key_fields_error False (k_query_parameters key),
        key_fields_error True (k_headers key),
        key_fields_error True (k_header_presence key),
        key_fields_error True (k_cookies key),
        key_fields_error True (k_cookie_presence key),
        check (length (k_header_values key) > 50) Too_many_header_values,
        check (list_ex (\<lambda>name. list_ex (ascii_equal name) restricted_headers) (k_headers key)) Restricted_header,
        check (\<not> header_values_loop {} (k_header_values key)) Bad_header_values]"

definition forbidden_vary :: "string list" where
  "forbidden_vary = [''connection'', ''host'', ''cache-control'', ''transfer-encoding'', ''keep-alive'',
     ''proxy-authenticate'', ''proxy-authorization'', ''te'', ''trailer'', ''upgrade'',
     ''cdn-cache-control'', ''surrogate-control'']"

definition vary_name_char :: "char \<Rightarrow> bool" where
  "vary_name_char c \<longleftrightarrow> is_lower c \<or> is_digit c \<or> c = CHR ''_'' \<or> c = CHR ''-''"

definition bad_vary_header :: "vary_header \<Rightarrow> bool" where
  "bad_vary_header h \<longleftrightarrow>
     \<not> http_token (vh_name h) 256 \<or> length (vh_name h) > 128 \<or> \<not> list_all vary_name_char (vh_name h) \<or>
     starts_with (vh_name h) ''cf-'' \<or> starts_with (vh_name h) ''cf_'' \<or> vh_name h \<in> set forbidden_vary \<or>
     (vh_action h \<noteq> ''normalize'' \<and> vh_action h \<noteq> ''passthrough'' \<and> vh_action h \<noteq> ''bypass'') \<or>
     length (vh_values h) > (if vh_name h = ''accept'' then 10 else 20)"

definition bad_vary_value :: "string \<Rightarrow> bool" where
  "bad_vary_value item \<longleftrightarrow> item = [] \<or> length item > 128 \<or>
     \<not> list_all (\<lambda>c. 32 \<le> byte c \<and> byte c \<le> 126) item"

fun vary_loop :: "string set \<Rightarrow> vary_header list \<Rightarrow> settings_error option" where
  "vary_loop seen [] = None"
| "vary_loop seen (h # hs) =
     (if bad_vary_header h \<or> vh_name h \<in> seen then Some Bad_vary
      else if list_ex bad_vary_value (vh_values h) then Some Bad_vary_value
      else vary_loop (insert (vh_name h) seen) hs)"

definition validate_settings :: "rule_settings \<Rightarrow> settings_error option" where
  "validate_settings v =
     first_error
       [check (\<not> unique_names (\<lambda>name. name \<in> set setting_names) {} (s_enabled v)) Bad_setting_name,
        check (bad_advanced v) Bad_advanced,
        status_loop [] (s_status_ttl v),
        check (list_ex (\<lambda>port. port < 1 \<or> port > 65535) (s_ports v)) Bad_port,
        key_error (s_key v),
        vary_loop {} (s_vary_headers v)]"

subsection \<open>What validation establishes\<close>

lemma status_loop_None:
  "status_loop earlier rest = None \<longleftrightarrow>
    (\<forall>s \<in> set rest. \<not> bad_status s \<and> (\<forall>e \<in> set earlier. \<not> overlapping s e)) \<and>
    sorted_wrt (\<lambda>a b. \<not> overlapping b a) rest"
  by (induction earlier rest rule: status_loop.induct) (auto simp: list_ex_iff)

lemma status_loop_same:
  "status_loop [] ranges = None \<Longrightarrow> i < length ranges \<Longrightarrow> j < length ranges \<Longrightarrow>
    t_from (ranges ! i) \<le> x \<Longrightarrow> x \<le> t_to (ranges ! i) \<Longrightarrow>
    t_from (ranges ! j) \<le> x \<Longrightarrow> x \<le> t_to (ranges ! j) \<Longrightarrow> i = j"
  unfolding status_loop_None sorted_wrt_iff_nth_less overlapping_def
  by (metis linorder_neqE_nat order_trans)

lemma validate_settings_None:
  "validate_settings v = None \<longleftrightarrow>
    list_all (\<lambda>name. name \<in> set setting_names) (s_enabled v) \<and> distinct (s_enabled v) \<and>
    \<not> bad_advanced v \<and> status_loop [] (s_status_ttl v) = None \<and>
    list_all (\<lambda>port. 1 \<le> port \<and> port \<le> 65535) (s_ports v) \<and>
    key_error (s_key v) = None \<and> vary_loop {} (s_vary_headers v) = None"
  by (auto simp: validate_settings_def unique_names_iff list_ex_iff list_all_iff)

end
