(* ===== verification/Request_Expression.thy ===== *)
theory Request_Expression
  imports Route_Match
begin

text \<open>
  \<open>src/common/request_expression.h\<close>: the bounded recursive-descent parser of match
  expressions, shared by management validation and the workers.  The parser's state is the text
  still to be read (the source's \<open>position_\<close> is the length of the text minus its length) and the
  program emitted so far.  A throw is a value: the message and the number of bytes not yet read.
  The recursion is bounded by the nesting limit; the operator loops take fuel, running out of it
  would be its own error, and no text makes that happen.
\<close>

subsection \<open>Instructions and errors\<close>

datatype expression_context = Cache_context | Security_context

datatype expression_op = Compare | Logical_not | Logical_and | Logical_xor | Logical_or | Constant

record expression_instruction =
  i_op :: expression_op
  i_field :: string
  i_header :: string
  i_comparison :: string
  i_values :: "string list"
  i_lower :: bool
  i_list :: string

definition empty_instruction :: expression_instruction where
  "empty_instruction = \<lparr>i_op = Compare, i_field = [], i_header = [], i_comparison = [],
     i_values = [], i_lower = False, i_list = []\<rparr>"

datatype expression_error =
    Empty_or_too_long | Unrecognised_content | Missing_separator | Expected_identifier
  | Raw_delimiter_too_long | Expected_string | Invalid_string | Incomplete_escape
  | Unsupported_escape | Control_character | Unterminated_string | Too_many_conditions
  | Header_index | Header_lowercase | Unsupported_field | Nested_too_deep | Strict_wildcard
  | Unsupported_operator | List_too_long | Unsupported_regex | Wildcard_escape
  | Wildcard_double_star | Wildcard_incomplete | Expected_address | Out_of_fuel

text \<open>An error and the number of unread bytes where it was raised.\<close>

type_synonym 'a parse_result = "(expression_error \<times> nat) + 'a"

record parser =
  p_rest :: string
  p_program :: "expression_instruction list"

type_synonym operand = "parser \<Rightarrow> parser parse_result"

definition fail :: "expression_error \<Rightarrow> string \<Rightarrow> 'a parse_result" where
  "fail e rest = Inl (e, length rest)"

subsection \<open>Lexical functions\<close>

definition is_whitespace :: "char \<Rightarrow> bool" where
  "is_whitespace c \<longleftrightarrow> c = CHR '' '' \<or> c = CHR 0x09 \<or> c = CHR 0x0D \<or> c = CHR 0x0A"

definition whitespace :: "string \<Rightarrow> string" where
  "whitespace s = dropWhile is_whitespace s"

definition symbol :: "char \<Rightarrow> string \<Rightarrow> bool \<times> string" where
  "symbol v s =
     (case whitespace s of
        [] \<Rightarrow> (False, [])
      | c # cs \<Rightarrow> if c \<noteq> v then (False, c # cs) else (True, cs))"

definition require :: "char \<Rightarrow> string \<Rightarrow> string parse_result" where
  "require v s = (case symbol v s of (found, r) \<Rightarrow> if \<not> found then fail Missing_separator r else Inr r)"

definition word_char :: "char \<Rightarrow> bool" where
  "word_char c \<longleftrightarrow> is_lower c \<or> is_upper c \<or> is_digit c \<or> c = CHR ''_'' \<or> c = CHR ''.''"

definition keyword :: "string \<Rightarrow> string \<Rightarrow> bool \<times> string" where
  "keyword word s =
     (let r = whitespace s in
      if \<not> starts_with r word then (False, r)
      else let next_text = drop (length word) r in
        if next_text \<noteq> [] \<and> word_char (hd next_text) then (False, r)
        else (True, next_text))"

definition identifier_char :: "char \<Rightarrow> bool" where
  "identifier_char c \<longleftrightarrow> is_lower c \<or> is_digit c \<or> c = CHR ''_'' \<or> c = CHR ''.''"

definition read_identifier :: "string \<Rightarrow> (string \<times> string) parse_result" where
  "read_identifier s =
     (let r = whitespace s in
      if takeWhile identifier_char r = [] then fail Expected_identifier r
      else Inr (takeWhile identifier_char r, dropWhile identifier_char r))"

fun raw_hashes :: "nat \<Rightarrow> string \<Rightarrow> (nat \<times> string) parse_result" where
  "raw_hashes hashes (c # cs) =
     (if c = CHR ''#'' then
        (if hashes + 1 > 8 then fail Raw_delimiter_too_long cs else raw_hashes (hashes + 1) cs)
      else Inr (hashes, c # cs))"
| "raw_hashes hashes [] = Inr (hashes, [])"

fun literal_loop :: "bool \<Rightarrow> nat \<Rightarrow> string \<Rightarrow> string \<Rightarrow> (string \<times> string) parse_result" where
  "literal_loop raw hashes acc [] = fail Unterminated_string []"
| "literal_loop raw hashes acc (c # cs) =
     (if c = CHR 0x22 \<and> (\<not> raw \<or> starts_with cs (replicate hashes CHR ''#'')) then
        (let r = drop hashes cs in
         if length acc > 512 \<or> \<not> valid_utf8 acc then fail Invalid_string r else Inr (acc, r))
      else if \<not> raw \<and> c = CHR 0x5C then
        (case cs of
           [] \<Rightarrow> fail Incomplete_escape []
         | b # bs \<Rightarrow>
             if b \<noteq> CHR 0x5C \<and> b \<noteq> CHR 0x22 then fail Unsupported_escape bs
             else literal_loop raw hashes (acc @ [b]) bs)
      else if iscntrl c then fail Control_character cs
      else literal_loop raw hashes (acc @ [c]) cs)"

definition literal :: "string \<Rightarrow> (string \<times> string) parse_result" where
  "literal s =
     (let r = whitespace s; raw = (r \<noteq> [] \<and> hd r = CHR ''r'') in
      bind_result (if raw then raw_hashes 0 (tl r) else Inr (0, r)) (\<lambda>(hashes, r).
        if r = [] then fail Expected_string []
        else if hd r \<noteq> CHR 0x22 then fail Expected_string (tl r)
        else literal_loop raw hashes [] (tl r)))"

definition emit :: "expression_instruction \<Rightarrow> parser \<Rightarrow> parser parse_result" where
  "emit instruction st =
     (if length (p_program st) \<ge> 256 then fail Too_many_conditions (p_rest st)
      else Inr (st\<lparr>p_program := p_program st @ [instruction]\<rparr>))"

subsection \<open>Fields and scalars\<close>

definition expression_fields :: "string list" where
  "expression_fields = [''http.request.uri.path.extension'', ''http.request.uri.path'',
     ''raw.http.request.uri.path'', ''http.host'', ''http.cookie'', ''http.user_agent'',
     ''http.request.full_uri'', ''http.request.uri.query'', ''raw.http.request.uri.query'',
     ''http.referer'', ''http.request.method'']"

definition security_fields :: "string list" where
  "security_fields = [''ip.src'', ''ip.src.country'', ''ip.src.asnum'']"

definition header_selector :: "string \<Rightarrow> (string \<times> string) parse_result" where
  "header_selector r =
     bind_result (require CHR ''['' r) (\<lambda>r.
     bind_result (literal r) (\<lambda>(header, r).
     bind_result (require CHR '']'' r) (\<lambda>r.
     bind_result (require CHR ''['' r) (\<lambda>r.
       case symbol CHR ''0'' r of (found, r) \<Rightarrow>
         if \<not> found then fail Header_index r
         else bind_result (require CHR '']'' r) (\<lambda>r.
           if \<not> http_token header 128 \<or> list_ex is_upper header then fail Header_lowercase r
           else Inr (header, r))))))"

definition select_field :: "expression_context \<Rightarrow> expression_instruction \<Rightarrow> string \<Rightarrow>
    (expression_instruction \<times> string) parse_result" where
  "select_field context instruction r =
     (if i_field instruction = ''http.request.headers'' then
        bind_result (header_selector r) (\<lambda>(header, r). Inr (instruction\<lparr>i_header := header\<rparr>, r))
      else if i_field instruction \<notin> set expression_fields \<and>
          \<not> (context = Security_context \<and> i_field instruction \<in> set security_fields) then
        fail Unsupported_field r
      else Inr (instruction, r))"

definition field :: "expression_context \<Rightarrow> expression_instruction \<Rightarrow> string \<Rightarrow>
    (expression_instruction \<times> string) parse_result" where
  "field context instruction s =
     (case keyword ''lower'' s of (lower, r) \<Rightarrow>
      bind_result (if lower then require CHR ''('' r else Inr r) (\<lambda>r.
      bind_result (read_identifier r) (\<lambda>(name, r).
      bind_result (select_field context (instruction\<lparr>i_lower := lower, i_field := name\<rparr>) r) (\<lambda>(instruction, r).
      bind_result (if lower then require CHR '')'' r else Inr r) (\<lambda>r. Inr (instruction, r))))))"

definition address_char :: "char \<Rightarrow> bool" where
  "address_char c \<longleftrightarrow> is_digit c \<or> (97 \<le> byte c \<and> byte c \<le> 102) \<or> (65 \<le> byte c \<and> byte c \<le> 70) \<or>
     c = CHR '':'' \<or> c = CHR ''.'' \<or> c = CHR ''/''"

definition scalar_value :: "expression_context \<Rightarrow> expression_instruction \<Rightarrow> string \<Rightarrow>
    (string \<times> string) parse_result" where
  "scalar_value context instruction s =
     (let r = whitespace s in
      if context \<noteq> Security_context \<or>
         (i_field instruction \<noteq> ''ip.src'' \<and> i_field instruction \<noteq> ''ip.src.asnum'') \<or>
         r = [] \<or> hd r = CHR 0x22 then literal r
      else if takeWhile address_char r = [] then fail Expected_address r
      else Inr (takeWhile address_char r, dropWhile address_char r))"

function in_values :: "expression_context \<Rightarrow> expression_instruction \<Rightarrow> string \<Rightarrow>
    (expression_instruction \<times> string) parse_result" where
  "in_values context instruction s =
     (case symbol CHR ''}'' s of
        (True, r) \<Rightarrow> Inr (instruction, r)
      | (False, r) \<Rightarrow>
          if length (i_values instruction) \<ge> 100 then fail List_too_long r
          else bind_result (scalar_value context instruction r) (\<lambda>(v, r).
            in_values context (instruction\<lparr>i_values := i_values instruction @ [v]\<rparr>) r))"
  by pat_completeness auto
termination
  by (relation "measure (\<lambda>(context, instruction, s). 100 - length (i_values instruction))") auto

declare in_values.simps [simp del]

fun wildcard_scan :: "bool \<Rightarrow> bool \<Rightarrow> string \<Rightarrow> string \<Rightarrow> unit parse_result" where
  "wildcard_scan escaped star [] r = (if escaped then fail Wildcard_incomplete r else Inr ())"
| "wildcard_scan escaped star (c # cs) r =
     (if escaped then
        (if c \<noteq> CHR ''*'' \<and> c \<noteq> CHR 0x5C then fail Wildcard_escape r
         else wildcard_scan False False cs r)
      else if c = CHR 0x5C then wildcard_scan True False cs r
      else if c = CHR ''*'' then
        (if star then fail Wildcard_double_star r else wildcard_scan False True cs r)
      else wildcard_scan False False cs r)"

definition comparisons :: "string list" where
  "comparisons = [''eq'', ''ne'', ''contains'', ''wildcard'', ''strict wildcard'', ''matches'', ''in'']"

definition comparison_operator :: "string \<Rightarrow> (string \<times> string) parse_result" where
  "comparison_operator s =
     (case symbol CHR ''='' s of
        (True, r) \<Rightarrow> bind_result (require CHR ''='' r) (\<lambda>r. Inr (''eq'', r))
      | (False, r) \<Rightarrow>
     (case symbol CHR ''!'' r of
        (True, r) \<Rightarrow> bind_result (require CHR ''='' r) (\<lambda>r. Inr (''ne'', r))
      | (False, r) \<Rightarrow>
     (case symbol CHR ''~'' r of
        (True, r) \<Rightarrow> Inr (''matches'', r)
      | (False, r) \<Rightarrow>
          bind_result (read_identifier r) (\<lambda>(op, r).
            if op = ''strict'' then
              (case keyword ''wildcard'' r of (found, r) \<Rightarrow>
                 if \<not> found then fail Strict_wildcard r else Inr (''strict wildcard'', r))
            else Inr (op, r)))))"

text \<open>The part of \<open>primary\<close> that reads one comparison and emits it.\<close>

definition finish_condition :: "re2 \<Rightarrow> expression_instruction \<Rightarrow> parser \<Rightarrow> parser parse_result" where
  "finish_condition R instruction st =
     (let first_value = hd (i_values instruction) in
      if i_comparison instruction = ''matches'' \<and> compile_pattern R first_value = None then
        fail Unsupported_regex (p_rest st)
      else bind_result
        (if ends_with (i_comparison instruction) ''wildcard''
         then wildcard_scan False False first_value (p_rest st) else Inr ())
        (\<lambda>_. emit instruction st))"

definition function_condition :: "expression_context \<Rightarrow> expression_instruction \<Rightarrow> string \<Rightarrow> operand" where
  "function_condition context instruction r st =
     bind_result (require CHR ''('' r) (\<lambda>r.
     bind_result (field context instruction r) (\<lambda>(instruction, r).
     bind_result (require CHR '','' r) (\<lambda>r.
     bind_result (literal r) (\<lambda>(v, r).
     bind_result (require CHR '')'' r) (\<lambda>r.
       emit (instruction\<lparr>i_values := i_values instruction @ [v]\<rparr>) (st\<lparr>p_rest := r\<rparr>))))))"

definition comparison_operand :: "re2 \<Rightarrow> expression_context \<Rightarrow> expression_instruction \<Rightarrow> string \<Rightarrow> operand" where
  "comparison_operand R context instruction r st =
     (if i_comparison instruction \<notin> set comparisons then fail Unsupported_operator r
      else if i_comparison instruction = ''in'' then
        (case (if context = Security_context then symbol CHR ''$'' r else (False, r)) of
           (True, r) \<Rightarrow>
             bind_result (read_identifier r) (\<lambda>(list_name, r).
               emit (instruction\<lparr>i_list := list_name\<rparr>) (st\<lparr>p_rest := r\<rparr>))
         | (False, r) \<Rightarrow>
             bind_result (require CHR ''{'' r) (\<lambda>r.
             bind_result (in_values context instruction r) (\<lambda>(instruction, r).
               finish_condition R instruction (st\<lparr>p_rest := r\<rparr>))))
      else
        bind_result (scalar_value context instruction r) (\<lambda>(v, r).
          finish_condition R (instruction\<lparr>i_values := i_values instruction @ [v]\<rparr>)
            (st\<lparr>p_rest := r\<rparr>)))"

definition condition :: "re2 \<Rightarrow> expression_context \<Rightarrow> operand" where
  "condition R context st =
     (case keyword ''starts_with'' (p_rest st) of (starts, r) \<Rightarrow>
      case (if starts then (False, r) else keyword ''ends_with'' r) of (ends, r) \<Rightarrow>
      let instruction = empty_instruction\<lparr>i_comparison :=
            (if starts then ''starts_with'' else if ends then ''ends_with'' else [])\<rparr> in
      if i_comparison instruction \<noteq> [] then function_condition context instruction r st
      else
        bind_result (field context instruction r) (\<lambda>(instruction, r).
        bind_result (comparison_operator r) (\<lambda>(op, r).
          comparison_operand R context (instruction\<lparr>i_comparison := op\<rparr>) r st)))"

definition operator_instruction :: "expression_op \<Rightarrow> expression_instruction" where
  "operator_instruction op = empty_instruction\<lparr>i_op := op\<rparr>"

definition constant_instruction :: "bool \<Rightarrow> expression_instruction" where
  "constant_instruction b =
     empty_instruction\<lparr>i_op := Constant, i_values := (if b then [''true''] else [])\<rparr>"

subsection \<open>The recursive functions\<close>

text \<open>
  A binary level of the grammar: an operand, then as long as the level's operator follows,
  another operand and the operator's instruction.  \<open>separator\<close> recognises the operator (and skips
  white space when it does not); the loop's fuel is the number of unread bytes, of which every
  iteration consumes some.
\<close>

primrec binary_loop :: "(string \<Rightarrow> bool \<times> string) \<Rightarrow> expression_op \<Rightarrow> operand \<Rightarrow> nat \<Rightarrow> operand" where
  "binary_loop separator op operand 0 = (\<lambda>st. fail Out_of_fuel (p_rest st))"
| "binary_loop separator op operand (Suc fuel) = (\<lambda>st.
     (case separator (p_rest st) of
        (True, r) \<Rightarrow>
          bind_result (operand (st\<lparr>p_rest := r\<rparr>)) (\<lambda>st.
          bind_result (emit (operator_instruction op) st) (\<lambda>st.
            binary_loop separator op operand fuel st))
      | (False, r) \<Rightarrow> Inr (st\<lparr>p_rest := r\<rparr>)))"

definition binary_level :: "(string \<Rightarrow> bool \<times> string) \<Rightarrow> expression_op \<Rightarrow> operand \<Rightarrow> operand" where
  "binary_level separator op operand st =
     bind_result (operand st) (\<lambda>st. binary_loop separator op operand (Suc (length (p_rest st))) st)"

definition and_separator :: "string \<Rightarrow> bool \<times> string" where
  "and_separator s =
     (case keyword ''and'' s of
        (True, r) \<Rightarrow> (True, r)
      | (False, r) \<Rightarrow> if starts_with r ''&&'' then (True, drop 2 r) else (False, r))"

definition xor_separator :: "string \<Rightarrow> bool \<times> string" where
  "xor_separator s = keyword ''xor'' s"

definition or_separator :: "string \<Rightarrow> bool \<times> string" where
  "or_separator s =
     (case keyword ''or'' s of
        (True, r) \<Rightarrow> (True, r)
      | (False, r) \<Rightarrow> if starts_with r ''||'' then (True, drop 2 r) else (False, r))"

definition logical_and :: "operand \<Rightarrow> operand" where
  "logical_and primary_at = binary_level and_separator Logical_and primary_at"

definition logical_xor :: "operand \<Rightarrow> operand" where
  "logical_xor primary_at = binary_level xor_separator Logical_xor (logical_and primary_at)"

definition logical_or :: "operand \<Rightarrow> operand" where
  "logical_or primary_at = binary_level or_separator Logical_or (logical_xor primary_at)"

text \<open>
  \<open>primary levels\<close> is the source's \<open>primary(depth)\<close> with \<open>levels = 25 - depth\<close>: at depth 25
  there is no level left.  \<open>logical_or\<close>, \<open>logical_xor\<close> and \<open>logical_and\<close> at a depth use
  \<open>primary\<close> at the same depth, which is their argument.
\<close>

primrec primary :: "nat \<Rightarrow> re2 \<Rightarrow> expression_context \<Rightarrow> operand" where
  "primary 0 R context = (\<lambda>st. fail Nested_too_deep (p_rest st))"
| "primary (Suc levels) R context = (\<lambda>st.
     (case symbol CHR ''('' (p_rest st) of
        (True, r) \<Rightarrow>
          bind_result (logical_or (primary levels R context) (st\<lparr>p_rest := r\<rparr>)) (\<lambda>st.
          bind_result (require CHR '')'' (p_rest st)) (\<lambda>r. Inr (st\<lparr>p_rest := r\<rparr>)))
      | (False, r) \<Rightarrow>
      (case keyword ''not'' r of (negated, r) \<Rightarrow>
      (case (if negated then (True, r) else symbol CHR ''!'' r) of
        (True, r) \<Rightarrow>
          bind_result (primary levels R context (st\<lparr>p_rest := r\<rparr>)) (\<lambda>st.
            emit (operator_instruction Logical_not) st)
      | (False, r) \<Rightarrow>
      (case keyword ''true'' r of
        (True, r) \<Rightarrow> emit (constant_instruction True) (st\<lparr>p_rest := r\<rparr>)
      | (False, r) \<Rightarrow>
      (case keyword ''false'' r of
        (True, r) \<Rightarrow> emit (constant_instruction False) (st\<lparr>p_rest := r\<rparr>)
      | (False, r) \<Rightarrow> condition R context (st\<lparr>p_rest := r\<rparr>)))))))"

declare primary.simps(2) [simp del]

definition maximum_length :: "expression_context \<Rightarrow> nat" where
  "maximum_length context = (if context = Security_context then 8000 else 4096)"

definition parse :: "re2 \<Rightarrow> expression_context \<Rightarrow> string \<Rightarrow> expression_instruction list parse_result" where
  "parse R context text =
     (if text = [] \<or> length text > maximum_length context then fail Empty_or_too_long text
      else bind_result
        (logical_or (primary 25 R context) \<lparr>p_rest = text, p_program = []\<rparr>) (\<lambda>st.
        let r = whitespace (p_rest st) in
        if r \<noteq> [] then fail Unrecognised_content r else Inr (p_program st)))"

text \<open>The validator returns nothing, or the message with its 1-based position.\<close>

definition validate_expression :: "re2 \<Rightarrow> expression_context \<Rightarrow> string \<Rightarrow> (expression_error \<times> nat) option" where
  "validate_expression R context text =
     (case parse R context text of
        Inr _ \<Rightarrow> None
      | Inl (e, unread) \<Rightarrow> Some (e, length text - unread + 1))"

subsection \<open>Every step makes progress\<close>

text \<open>\<open>progress n rest res\<close>: the step did not run out of fuel, and success left fewer than \<open>n\<close> bytes.\<close>

definition progress :: "nat \<Rightarrow> ('a \<Rightarrow> string) \<Rightarrow> 'a parse_result \<Rightarrow> bool" where
  "progress n rest res \<longleftrightarrow>
     (case res of Inl (e, _) \<Rightarrow> e \<noteq> Out_of_fuel | Inr x \<Rightarrow> length (rest x) < n)"

named_theorems progress_rules \<open>progress of the lexical functions\<close>

lemma progress_Inr [simp]: "progress n rest (Inr x) \<longleftrightarrow> length (rest x) < n"
  by (simp add: progress_def)

lemma fail_not_Inr [simp]: "fail e r \<noteq> Inr x"
  by (simp add: fail_def)

lemma progress_fail [simp]: "progress n rest (fail e r) \<longleftrightarrow> e \<noteq> Out_of_fuel"
  by (simp add: progress_def fail_def)

lemma progress_bind:
  assumes "progress n rest m" and "\<And>x. m = Inr x \<Longrightarrow> length (rest x) < n \<Longrightarrow> progress k rest' (f x)"
  shows "progress k rest' (bind_result m f)"
  using assms by (cases m) (auto simp: progress_def)

lemma progress_mono: "progress n rest m \<Longrightarrow> n \<le> k \<Longrightarrow> progress k rest m"
  by (auto simp: progress_def split: sum.splits)

lemma progress_bindI:
  assumes "progress n rest m" and "n \<le> k"
    and "\<And>x. m = Inr x \<Longrightarrow> length (rest x) < k \<Longrightarrow> progress k rest' (f x)"
  shows "progress k rest' (bind_result m f)"
  using progress_mono [OF assms(1,2)] assms(3) by (rule progress_bind)

lemma progress_not_fuel: "progress n rest m \<Longrightarrow> m \<noteq> Inl (Out_of_fuel, k)"
  by (auto simp: progress_def)

lemma progress_shorter: "progress n rest m \<Longrightarrow> m = Inr x \<Longrightarrow> length (rest x) < n"
  by (auto simp: progress_def)

lemma length_whitespace: "length (whitespace s) \<le> length s"
  by (simp add: whitespace_def length_dropWhile_le)

lemma symbol_length:
  "symbol v s = (True, r) \<Longrightarrow> length r < length s" "symbol v s = (b, r) \<Longrightarrow> length r \<le> length s"
  using length_whitespace [of s] by (cases "whitespace s"; auto simp: symbol_def split: if_splits)+

lemma skip_symbol_length: "symbol v s = (False, r) \<Longrightarrow> length r \<le> length s"
  by (rule symbol_length(2))

lemma keyword_length:
  "keyword w s = (True, r) \<Longrightarrow> w \<noteq> [] \<Longrightarrow> length r < length s"
  "keyword w s = (b, r) \<Longrightarrow> length r \<le> length s"
proof -
  have *: "keyword w s = (b, r) \<Longrightarrow> r = whitespace s \<or> b \<and> whitespace s = w @ r" for b
    by (auto simp: keyword_def Let_def starts_with_iff split: if_splits)
  show "keyword w s = (True, r) \<Longrightarrow> w \<noteq> [] \<Longrightarrow> length r < length s"
    using length_whitespace [of s] by (cases w) (auto simp: keyword_def Let_def starts_with_iff split: if_splits)
  show "keyword w s = (b, r) \<Longrightarrow> length r \<le> length s"
    using length_whitespace [of s] * by fastforce
qed

lemma progress_string_bind:
  assumes "progress (length s) id m" and "length s \<le> k"
    and "\<And>r. m = Inr r \<Longrightarrow> length r < k \<Longrightarrow> progress k rest' (f r)"
  shows "progress k rest' (bind_result m f)"
  using progress_bindI [OF assms(1,2), of rest' f] assms(3) by simp

lemma progress_pair_bind:
  assumes "progress (length s) snd m" and "length s \<le> k"
    and "\<And>v r. m = Inr (v, r) \<Longrightarrow> length r < k \<Longrightarrow> progress k rest' (f (v, r))"
  shows "progress k rest' (bind_result m f)"
  by (rule progress_bindI [OF assms(1,2)]) (use assms(3) in force)

lemma progress_require: "progress (length s) id (require v s)"
  by (auto simp: require_def symbol_length split: prod.splits)

lemma dropWhile_shorter: "takeWhile P r \<noteq> [] \<Longrightarrow> length (dropWhile P r) < length r"
  by (metis add_less_cancel_right add_0 length_append length_greater_0_conv takeWhile_dropWhile_id)

lemma progress_identifier: "progress (length s) snd (read_identifier s)"
  using length_whitespace [of s] dropWhile_shorter [of identifier_char "whitespace s"]
  by (auto simp: read_identifier_def Let_def)

lemma progress_raw_hashes: "progress (Suc (length s)) snd (raw_hashes n s)"
  by (induction n s rule: raw_hashes.induct) (auto intro: progress_mono)

lemma progress_literal_loop: "progress (Suc (length s)) snd (literal_loop raw n acc s)"
proof (induction raw n acc s rule: literal_loop.induct)
  case (2 raw hashes acc c cs)
  let ?done = "c = CHR 0x22 \<and> (\<not> raw \<or> starts_with cs (replicate hashes CHR ''#''))"
  let ?escape = "\<not> raw \<and> c = CHR 0x5C"
  consider "?done" | "\<not> ?done" "?escape" | "\<not> ?done" "\<not> ?escape" by blast
  then show ?case
  proof cases
    case 1
    then show ?thesis by (auto simp: Let_def)
  next
    case 2
    show ?thesis
    proof (cases cs)
      case Nil
      with 2 show ?thesis by simp
    next
      case (Cons b bs)
      with 2 "2.IH"(1) [OF 2(1) 2(2) Cons] show ?thesis by (auto intro: progress_mono)
    qed
  next
    case 3
    have IH: "progress (Suc (length cs)) snd (literal_loop raw hashes (acc @ [c]) cs)" if "\<not> iscntrl c"
      using "2.IH"(2) [OF 3 that] .
    show ?thesis
    proof (cases "iscntrl c")
      case True
      with 3 show ?thesis by (simp only: literal_loop.simps if_not_P if_P progress_fail) simp
    next
      case False
      have "literal_loop raw hashes acc (c # cs) = literal_loop raw hashes (acc @ [c]) cs"
        using 3 False by (simp only: literal_loop.simps if_not_P if_False)
      with progress_mono [OF IH [OF False]] show ?thesis by simp
    qed
  qed
qed simp

lemma progress_literal: "progress (length s) snd (literal s)"
proof (cases "whitespace s")
  case Nil
  then show ?thesis by (simp add: literal_def)
next
  case (Cons c cs)
  then have s: "Suc (length cs) \<le> length s" by (metis length_Cons length_whitespace)
  have body: "progress (length s) snd (if r = [] then fail Expected_string []
        else if hd r \<noteq> CHR 0x22 then fail Expected_string (tl r) else literal_loop b h [] (tl r))"
    if "length r < Suc (Suc (length cs))" for r b h
    using that s progress_literal_loop [of "tl r" b h "[]"] by (cases r) (auto intro: progress_mono)
  have start: "progress (Suc (Suc (length cs))) snd (if b then raw_hashes 0 cs else Inr (0, c # cs))" for b
    using progress_raw_hashes [of cs 0] by (auto intro: progress_mono)
  show ?thesis
    unfolding literal_def Let_def Cons list.sel
    by (rule progress_bind [OF start]) (use body in force)
qed

lemmas progress_lexical_binds = progress_string_bind [OF progress_require]
  progress_pair_bind [OF progress_identifier] progress_pair_bind [OF progress_literal]

lemma progress_header_selector: "progress (length s) snd (header_selector s)"
  unfolding header_selector_def
  by (auto intro!: progress_lexical_binds split: prod.splits dest!: symbol_length)

lemma progress_select_field: "progress (Suc (length r)) snd (select_field context instruction r)"
  by (auto simp: select_field_def intro!: progress_pair_bind [OF progress_header_selector])

lemma progress_field: "progress (length s) snd (field context instruction s)"
proof -
  have start: "progress (Suc (length s)) id (if lower then require CHR ''('' r else Inr r)"
    if "keyword ''lower'' s = (lower, r)" for lower r
    using keyword_length(2) [OF that] progress_mono [OF progress_require, of r] by auto
  have close: "progress k snd (bind_result (if lower then require CHR '')'' r else Inr r) (\<lambda>r. Inr (i, r)))"
    if "length r < k" for lower r k and i :: expression_instruction
    using that by (auto intro!: progress_lexical_binds)
  have select: "progress k snd (bind_result (select_field context i r) (\<lambda>(i, r).
      bind_result (if lower then require CHR '')'' r else Inr r) (\<lambda>r. Inr (i, r))))"
    if "length r < k" for lower r k i
    using that by (intro progress_bindI [OF progress_select_field]) (auto intro!: close)
  obtain lower x where kw: "keyword ''lower'' s = (lower, x)" by force
  show ?thesis
    unfolding field_def kw prod.case
    by (rule progress_bind [OF start [OF kw]], rule progress_pair_bind [OF progress_identifier])
      (auto intro!: select simp only: id_apply less_Suc_eq_le prod.case)
qed

lemma progress_scalar_value: "progress (length s) snd (scalar_value context instruction s)"
  using length_whitespace [of s] dropWhile_shorter [of address_char "whitespace s"]
    progress_mono [OF progress_literal, of "whitespace s" "length s"]
  by (auto simp: scalar_value_def Let_def)

lemma progress_in_values: "progress (length s) snd (in_values ctx instruction s)"
proof (induction ctx instruction s rule: in_values.induct)
  case (1 ctx instruction s)
  obtain b r where sym: "symbol CHR ''}'' s = (b, r)" by force
  show ?case
  proof (cases b)
    case True
    with sym show ?thesis by (subst in_values.simps) (auto dest: symbol_length)
  next
    case False
    have "progress (length s) snd (bind_result (scalar_value ctx instruction r)
        (\<lambda>(v, r). in_values ctx (instruction\<lparr>i_values := i_values instruction @ [v]\<rparr>) r))"
      if "\<not> 100 \<le> length (i_values instruction)"
    proof (rule progress_pair_bind [OF progress_scalar_value symbol_length(2) [OF sym]])
      fix v r'
      assume v: "scalar_value ctx instruction r = Inr (v, r')" and "length r' < length s"
      then show "progress (length s) snd (case (v, r') of (v, r) \<Rightarrow>
          in_values ctx (instruction\<lparr>i_values := i_values instruction @ [v]\<rparr>) r)"
        using progress_mono [OF 1 [OF sym [symmetric] _ that v refl], of "length s"] False by simp
    qed
    with False sym show ?thesis by (subst in_values.simps) auto
  qed
qed

lemma progress_wildcard_scan: "progress k (\<lambda>_. r) (wildcard_scan escaped star s r') \<longleftrightarrow>
    length r < k \<or> wildcard_scan escaped star s r' \<noteq> Inr ()"
  by (induction escaped star s r' rule: wildcard_scan.induct) auto

lemma progress_comparison_operator: "progress (length s) snd (comparison_operator s)"
  unfolding comparison_operator_def
  by (auto split: prod.splits bool.splits intro!: progress_lexical_binds
      dest: symbol_length dest!: skip_symbol_length keyword_length(2))

lemma progress_emit: "progress k p_rest (emit i st) \<longleftrightarrow> length (p_rest st) < k \<or> 256 \<le> length (p_program st)"
  by (auto simp: emit_def)

lemma progress_finish_condition:
  "length (p_rest st) < k \<Longrightarrow> progress k p_rest (finish_condition R instruction st)"
  by (auto simp: finish_condition_def Let_def progress_emit progress_wildcard_scan
      intro!: progress_bind [where n = k and rest = "\<lambda>_. p_rest st"])

lemmas progress_binds = progress_lexical_binds progress_pair_bind [OF progress_field]
  progress_pair_bind [OF progress_scalar_value] progress_pair_bind [OF progress_in_values]
  progress_pair_bind [OF progress_comparison_operator] progress_finish_condition

lemma progress_function_condition:
  "length r \<le> k \<Longrightarrow> progress k p_rest (function_condition ctx instruction r st)"
  unfolding function_condition_def
  by (auto simp: progress_emit intro!: progress_binds)

lemma progress_comparison_operand:
  "length r \<le> k \<Longrightarrow> progress k p_rest (comparison_operand R ctx instruction r st)"
  unfolding comparison_operand_def
  by (auto simp: progress_emit split: prod.splits bool.splits intro!: progress_binds dest!: symbol_length(2))

lemma progress_condition: "progress (length (p_rest st)) p_rest (condition R ctx st)"
  unfolding condition_def
  by (auto simp: Let_def split: prod.splits if_splits
      intro!: progress_binds progress_function_condition progress_comparison_operand
      dest!: symbol_length(2) keyword_length(2))

subsection \<open>Programs are expressions in postfix order\<close>

datatype expression =
    Condition expression_instruction
  | Literal bool
  | Negation expression
  | Binary expression_op expression expression

fun postfix :: "expression \<Rightarrow> expression_instruction list" where
  "postfix (Condition i) = [i]"
| "postfix (Literal b) = [constant_instruction b]"
| "postfix (Negation e) = postfix e @ [operator_instruction Logical_not]"
| "postfix (Binary op x y) = postfix x @ postfix y @ [operator_instruction op]"

text \<open>What the parser promises of every comparison it emits.\<close>

text \<open>The operand of a comparison is a quoted string but for addresses and network numbers.\<close>

definition quoted_operand :: "expression_context \<Rightarrow> string \<Rightarrow> bool" where
  "quoted_operand context name \<longleftrightarrow> context \<noteq> Security_context \<or> name \<notin> {''ip.src'', ''ip.src.asnum''}"

definition string_operand :: "string \<Rightarrow> bool" where
  "string_operand v \<longleftrightarrow> length v \<le> 512 \<and> valid_utf8 v"

definition well_formed_condition :: "re2 \<Rightarrow> expression_context \<Rightarrow> expression_instruction \<Rightarrow> bool" where
  "well_formed_condition R context i \<longleftrightarrow>
     i_op i = Compare \<and>
     (i_field i = ''http.request.headers'' \<or> i_field i \<in> set expression_fields \<or>
        context = Security_context \<and> i_field i \<in> set security_fields) \<and>
     i_comparison i \<in> {''starts_with'', ''ends_with''} \<union> set comparisons \<and>
     (if i_comparison i = ''in'' then length (i_values i) \<le> 100
      else length (i_values i) = 1 \<and> i_list i = []) \<and>
     (i_list i \<noteq> [] \<longrightarrow> context = Security_context \<and> i_values i = []) \<and>
     (i_comparison i = ''matches'' \<longrightarrow> compile_pattern R (hd (i_values i)) \<noteq> None) \<and>
     (ends_with (i_comparison i) ''wildcard'' \<longrightarrow>
        wildcard_scan False False (hd (i_values i)) [] = Inr ()) \<and>
     (i_comparison i \<noteq> ''in'' \<and> quoted_operand context (i_field i) \<longrightarrow> string_operand (hd (i_values i)))"

fun well_formed :: "re2 \<Rightarrow> expression_context \<Rightarrow> expression \<Rightarrow> bool" where
  "well_formed R context (Condition i) = well_formed_condition R context i"
| "well_formed R context (Literal b) = True"
| "well_formed R context (Negation e) = well_formed R context e"
| "well_formed R context (Binary op x y) =
     (op \<in> {Logical_and, Logical_xor, Logical_or} \<and> well_formed R context x \<and> well_formed R context y)"

lemma wildcard_scan_rest: "wildcard_scan escaped star v r = Inr () \<longleftrightarrow> wildcard_scan escaped star v [] = Inr ()"
  by (induction escaped star v r rule: wildcard_scan.induct) auto

lemma emit_Inr_iff: "emit i st = Inr st' \<longleftrightarrow>
    length (p_program st) < 256 \<and> st' = st\<lparr>p_program := p_program st @ [i]\<rparr>"
  by (auto simp: emit_def fail_def)

lemma finish_condition_Inr_iff: "finish_condition R i st = Inr st' \<longleftrightarrow>
    \<not> (i_comparison i = ''matches'' \<and> compile_pattern R (hd (i_values i)) = None) \<and>
    (ends_with (i_comparison i) ''wildcard'' \<longrightarrow> wildcard_scan False False (hd (i_values i)) [] = Inr ()) \<and>
    emit i st = Inr st'"
  by (auto simp: finish_condition_def Let_def bind_result_Inr_iff wildcard_scan_rest [of _ _ _ "p_rest st"])

lemma field_Inr:
  assumes "field context i s = Inr (i', r)"
  shows "i_op i' = i_op i \<and> i_comparison i' = i_comparison i \<and> i_values i' = i_values i \<and> i_list i' = i_list i \<and>
    (i_field i' = ''http.request.headers'' \<or> i_field i' \<in> set expression_fields \<or>
        context = Security_context \<and> i_field i' \<in> set security_fields)"
  using assms unfolding field_def select_field_def
  by (auto simp: bind_result_Inr_iff split: prod.splits if_splits)

lemma in_values_Inr:
  assumes "in_values ctx i s = Inr (i', r)" and "length (i_values i) \<le> 100"
  shows "length (i_values i') \<le> 100 \<and> i_op i' = i_op i \<and> i_comparison i' = i_comparison i \<and>
    i_field i' = i_field i \<and> i_list i' = i_list i"
  using assms
proof (induction ctx i s rule: in_values.induct)
  case (1 ctx i s)
  obtain b r' where sym: "symbol CHR ''}'' s = (b, r')" by force
  show ?case
  proof (cases b)
    case True
    with sym "1.prems" show ?thesis by (subst (asm) in_values.simps) auto
  next
    case False
    from "1.prems"(1) sym False obtain v r'' where short: "\<not> 100 \<le> length (i_values i)"
      and v: "scalar_value ctx i r' = Inr (v, r'')"
      and rest: "in_values ctx (i\<lparr>i_values := i_values i @ [v]\<rparr>) r'' = Inr (i', r)"
      by (subst (asm) in_values.simps) (auto simp: bind_result_Inr_iff split: if_splits)
    from "1.IH" [OF sym [symmetric] _ short v refl rest] False short show ?thesis by auto
  qed
qed

lemma literal_loop_operand: "literal_loop raw hashes acc s = Inr (v, r) \<Longrightarrow> string_operand v"
  by (induction raw hashes acc s rule: literal_loop.induct)
    (auto simp: string_operand_def Let_def fail_def split: if_splits list.splits)

lemma literal_operand: "literal s = Inr (v, r) \<Longrightarrow> string_operand v"
  by (auto simp: literal_def Let_def bind_result_Inr_iff fail_def split: if_splits dest: literal_loop_operand)

lemma scalar_value_operand:
  "scalar_value ctx i s = Inr (v, r) \<Longrightarrow> quoted_operand ctx (i_field i) \<Longrightarrow> string_operand v"
  by (auto simp: scalar_value_def quoted_operand_def Let_def fail_def split: if_splits dest: literal_operand)

lemma function_condition_Inr:
  assumes "function_condition ctx (empty_instruction\<lparr>i_comparison := op\<rparr>) r st = Inr st'"
    and "op = ''starts_with'' \<or> op = ''ends_with''"
  shows "\<exists>i. well_formed_condition R ctx i \<and> p_program st' = p_program st @ [i] \<and> length (p_program st) < 256"
proof -
  from assms(1) obtain i r' r\<^sub>1 v r\<^sub>2 r\<^sub>3 r\<^sub>4 where i: "field ctx (empty_instruction\<lparr>i_comparison := op\<rparr>) r' = Inr (i, r\<^sub>1)"
    and v: "literal r\<^sub>3 = Inr (v, r\<^sub>4)" and "emit (i\<lparr>i_values := i_values i @ [v]\<rparr>) (st\<lparr>p_rest := r\<^sub>2\<rparr>) = Inr st'"
    by (auto simp: function_condition_def bind_result_Inr_iff)
  moreover have "well_formed_condition R ctx (i\<lparr>i_values := i_values i @ [v]\<rparr>)"
    using field_Inr [OF i] assms(2) literal_operand [OF v]
    by (auto simp: well_formed_condition_def empty_instruction_def ends_with_def)
  ultimately show ?thesis by (auto simp: emit_Inr_iff)
qed

lemma finish_well_formed:
  assumes "finish_condition R i (st\<lparr>p_rest := r\<rparr>) = Inr st'" and "i_op i = Compare" and "i_list i = []"
    and "i_field i = ''http.request.headers'' \<or> i_field i \<in> set expression_fields \<or>
        ctx = Security_context \<and> i_field i \<in> set security_fields"
    and "i_comparison i \<in> set comparisons"
    and "if i_comparison i = ''in'' then length (i_values i) \<le> 100 else length (i_values i) = 1"
    and "i_comparison i \<noteq> ''in'' \<and> quoted_operand ctx (i_field i) \<longrightarrow> string_operand (hd (i_values i))"
  shows "\<exists>i. well_formed_condition R ctx i \<and> p_program st' = p_program st @ [i] \<and> length (p_program st) < 256"
proof (intro exI conjI)
  show "well_formed_condition R ctx i"
    using assms unfolding well_formed_condition_def finish_condition_Inr_iff
    by (auto split: if_splits)
qed (use assms(1) in \<open>auto simp: finish_condition_Inr_iff emit_Inr_iff\<close>)

lemma comparison_operand_Inr:
  assumes rest: "comparison_operand R ctx (j\<lparr>i_comparison := op\<rparr>) r st = Inr st'"
    and j: "i_op j = Compare" "i_values j = []" "i_list j = []"
      "i_field j = ''http.request.headers'' \<or> i_field j \<in> set expression_fields \<or>
        ctx = Security_context \<and> i_field j \<in> set security_fields"
  shows "\<exists>i. well_formed_condition R ctx i \<and> p_program st' = p_program st @ [i] \<and> length (p_program st) < 256"
proof -
  from rest have op: "op \<in> set comparisons" by (auto simp: comparison_operand_def split: if_splits)
  note rest = rest [unfolded comparison_operand_def]
  show ?thesis
  proof (cases "op = ''in''")
    case False
    with rest op obtain v r\<^sub>2 r\<^sub>3 where
      v: "scalar_value ctx (j\<lparr>i_comparison := op\<rparr>) r\<^sub>2 = Inr (v, r\<^sub>3)" and
      "finish_condition R (j\<lparr>i_comparison := op, i_values := i_values j @ [v]\<rparr>) (st\<lparr>p_rest := r\<^sub>3\<rparr>) = Inr st'"
      by (auto simp: bind_result_Inr_iff)
    from this(2) show ?thesis
      by (rule finish_well_formed) (use False op j scalar_value_operand [OF v] in auto)
  next
    case True
    show ?thesis
    proof (cases "ctx = Security_context \<and> fst (symbol CHR ''$'' r)")
      case named: True
      with rest op True obtain name r\<^sub>3 where
        "emit (j\<lparr>i_comparison := op, i_list := name\<rparr>) (st\<lparr>p_rest := r\<^sub>3\<rparr>) = Inr st'"
        by (auto simp: bind_result_Inr_iff split: prod.splits)
      with named True j show ?thesis
        by (auto simp: emit_Inr_iff well_formed_condition_def ends_with_def comparisons_def)
    next
      case False
      with rest op True obtain k r\<^sub>3 r\<^sub>4 where k: "in_values ctx (j\<lparr>i_comparison := op\<rparr>) r\<^sub>3 = Inr (k, r\<^sub>4)"
        and fin: "finish_condition R k (st\<lparr>p_rest := r\<^sub>4\<rparr>) = Inr st'"
        by (auto simp: bind_result_Inr_iff split: prod.splits if_splits)
      from fin show ?thesis
        by (rule finish_well_formed) (use in_values_Inr [OF k] True op j in auto)
    qed
  qed
qed

lemma condition_Inr:
  assumes "condition R ctx st = Inr st'"
  shows "\<exists>i. well_formed_condition R ctx i \<and> p_program st' = p_program st @ [i] \<and> length (p_program st) < 256"
proof -
  obtain starts r where s: "keyword ''starts_with'' (p_rest st) = (starts, r)" by force
  obtain ends r' where e: "(if starts then (False, r) else keyword ''ends_with'' r) = (ends, r')" by force
  note res = assms [unfolded condition_def s e prod.case Let_def]
  show ?thesis
  proof (cases "starts \<or> ends")
    case True
    with res show ?thesis by (intro function_condition_Inr) (auto split: if_splits)
  next
    case False
    with res obtain i r\<^sub>1 op r\<^sub>2 where i: "field ctx (empty_instruction\<lparr>i_comparison := []\<rparr>) r' = Inr (i, r\<^sub>1)"
      and rest: "comparison_operand R ctx (i\<lparr>i_comparison := op\<rparr>) r\<^sub>2 st = Inr st'"
      by (auto simp: bind_result_Inr_iff)
    from rest show ?thesis
      by (rule comparison_operand_Inr) (use field_Inr [OF i] in \<open>auto simp: empty_instruction_def\<close>)
  qed
qed

subsection \<open>The contract between the levels of the grammar\<close>

text \<open>What a level of the grammar promises to the level above it.\<close>

locale operand_parser =
  fixes R :: re2 and ctx :: expression_context and operand :: operand
  assumes advances: "progress (length (p_rest st)) p_rest (operand st)"
    and emits: "operand st = Inr st' \<Longrightarrow>
      \<exists>e. well_formed R ctx e \<and> p_program st' = p_program st @ postfix e \<and> length (p_program st') \<le> 256"

text \<open>A level with an operator: its separator consumes text when it is found.\<close>

locale operator_level = operand_parser +
  fixes separator :: "string \<Rightarrow> bool \<times> string" and op :: expression_op
  assumes consumes: "separator s = (True, r) \<Longrightarrow> length r < length s"
    and skips: "separator s = (False, r) \<Longrightarrow> length r \<le> length s"
    and operator: "op \<in> {Logical_and, Logical_xor, Logical_or}"
begin

lemma loop_advances:
  "length (p_rest st) < fuel \<Longrightarrow> length (p_rest st) < k \<Longrightarrow>
    progress k p_rest (binary_loop separator op operand fuel st)"
proof (induction fuel arbitrary: st)
  case (Suc fuel)
  obtain b r where s: "separator (p_rest st) = (b, r)" by force
  show ?case
  proof (cases b)
    case True
    with s have r: "length r < length (p_rest st)" by (auto dest: consumes)
    have "progress k p_rest (bind_result (operand (st\<lparr>p_rest := r\<rparr>)) (\<lambda>st.
          bind_result (emit (operator_instruction op) st) (\<lambda>st. binary_loop separator op operand fuel st)))"
    proof (rule progress_bind [OF advances])
      fix st' :: parser
      assume "length (p_rest st') < length (p_rest (st\<lparr>p_rest := r\<rparr>))"
      with r Suc show "progress k p_rest (bind_result (emit (operator_instruction op) st')
          (\<lambda>st. binary_loop separator op operand fuel st))"
        by (intro progress_bind [where n = fuel and rest = p_rest]) (auto simp: progress_emit emit_Inr_iff)
    qed
    with True s show ?thesis by simp
  next
    case False
    with s Suc.prems show ?thesis by (auto dest: skips)
  qed
qed simp

lemma loop_emits:
  assumes "binary_loop separator op operand fuel st = Inr st'"
    and "p_program st = prefix @ postfix e" and "well_formed R ctx e" and "length (p_program st) \<le> 256"
  shows "\<exists>e. well_formed R ctx e \<and> p_program st' = prefix @ postfix e \<and> length (p_program st') \<le> 256"
  using assms
proof (induction fuel arbitrary: st e)
  case (Suc fuel)
  obtain b r where s: "separator (p_rest st) = (b, r)" by force
  show ?case
  proof (cases b)
    case True
    with s Suc.prems(1) obtain st\<^sub>1 st\<^sub>2 where one: "operand (st\<lparr>p_rest := r\<rparr>) = Inr st\<^sub>1"
      and two: "emit (operator_instruction op) st\<^sub>1 = Inr st\<^sub>2"
      and rest: "binary_loop separator op operand fuel st\<^sub>2 = Inr st'"
      by (auto simp: bind_result_Inr_iff)
    from emits [OF one] obtain e' where e': "well_formed R ctx e'"
      "p_program st\<^sub>1 = p_program st @ postfix e'" by auto
    show ?thesis
      by (rule Suc.IH [OF rest, of "Binary op e e'"])
        (use e' two Suc.prems operator in \<open>auto simp: emit_Inr_iff\<close>)
  next
    case False
    with s Suc.prems show ?thesis by auto
  qed
qed simp

lemma level: "operand_parser R ctx (binary_level separator op operand)"
proof
  fix st st'
  show "progress (length (p_rest st)) p_rest (binary_level separator op operand st)"
    unfolding binary_level_def by (rule progress_bind [OF advances]) (intro loop_advances; simp)
  assume "binary_level separator op operand st = Inr st'"
  then obtain st\<^sub>1 where "operand st = Inr st\<^sub>1"
    and "binary_loop separator op operand (Suc (length (p_rest st\<^sub>1))) st\<^sub>1 = Inr st'"
    by (auto simp: binary_level_def bind_result_Inr_iff)
  with emits show "\<exists>e. well_formed R ctx e \<and> p_program st' = p_program st @ postfix e \<and> length (p_program st') \<le> 256"
    by (metis loop_emits)
qed

end

lemma and_level: "operand_parser R ctx p \<Longrightarrow> operator_level R ctx p and_separator Logical_and"
  unfolding operator_level_def operator_level_axioms_def and_separator_def
  by (auto split: prod.splits bool.splits if_splits dest: keyword_length simp: starts_with_iff)

lemma xor_level: "operand_parser R ctx p \<Longrightarrow> operator_level R ctx p xor_separator Logical_xor"
  unfolding operator_level_def operator_level_axioms_def xor_separator_def
  by (auto dest: keyword_length)

lemma or_level: "operand_parser R ctx p \<Longrightarrow> operator_level R ctx p or_separator Logical_or"
  unfolding operator_level_def operator_level_axioms_def or_separator_def
  by (auto split: prod.splits bool.splits if_splits dest: keyword_length simp: starts_with_iff)

lemma logical_or_level: "operand_parser R ctx p \<Longrightarrow> operand_parser R ctx (logical_or p)"
  unfolding logical_or_def logical_xor_def logical_and_def
  by (intro operator_level.level or_level xor_level and_level)

lemma emit_operand:
  assumes "emit i st = Inr st'" and "p_program st = p_program st\<^sub>0 @ q" and "postfix e = q @ [i]" and "well_formed R ctx e"
  shows "\<exists>e. well_formed R ctx e \<and> p_program st' = p_program st\<^sub>0 @ postfix e \<and> length (p_program st') \<le> 256"
  using assms by (intro exI [of _ e]) (auto simp: emit_Inr_iff)

text \<open>The alternatives of \<open>primary\<close>: how each begins, and what is left to do.\<close>

lemma primary_cases:
  obtains (group) r where "length r < length (p_rest st)"
      "primary (Suc levels) R ctx st = bind_result (logical_or (primary levels R ctx) (st\<lparr>p_rest := r\<rparr>)) (\<lambda>st.
          bind_result (require CHR '')'' (p_rest st)) (\<lambda>r. Inr (st\<lparr>p_rest := r\<rparr>)))"
    | (negation) r where "length r < length (p_rest st)"
      "primary (Suc levels) R ctx st = bind_result (primary levels R ctx (st\<lparr>p_rest := r\<rparr>))
          (\<lambda>st. emit (operator_instruction Logical_not) st)"
    | (truth) r b where "length r < length (p_rest st)"
      "primary (Suc levels) R ctx st = emit (constant_instruction b) (st\<lparr>p_rest := r\<rparr>)"
    | (comparison) r where "length r \<le> length (p_rest st)"
      "primary (Suc levels) R ctx st = condition R ctx (st\<lparr>p_rest := r\<rparr>)"
proof -
  obtain b\<^sub>1 r\<^sub>1 where 1: "symbol CHR ''('' (p_rest st) = (b\<^sub>1, r\<^sub>1)" by force
  obtain b\<^sub>2 r\<^sub>2 where 2: "keyword ''not'' r\<^sub>1 = (b\<^sub>2, r\<^sub>2)" by force
  obtain b\<^sub>3 r\<^sub>3 where 3: "(if b\<^sub>2 then (True, r\<^sub>2) else symbol CHR ''!'' r\<^sub>2) = (b\<^sub>3, r\<^sub>3)" by force
  obtain b\<^sub>4 r\<^sub>4 where 4: "keyword ''true'' r\<^sub>3 = (b\<^sub>4, r\<^sub>4)" by force
  obtain b\<^sub>5 r\<^sub>5 where 5: "keyword ''false'' r\<^sub>4 = (b\<^sub>5, r\<^sub>5)" by force
  have eq: "primary (Suc levels) R ctx st =
      (if b\<^sub>1 then bind_result (logical_or (primary levels R ctx) (st\<lparr>p_rest := r\<^sub>1\<rparr>)) (\<lambda>st.
          bind_result (require CHR '')'' (p_rest st)) (\<lambda>r. Inr (st\<lparr>p_rest := r\<rparr>)))
       else if b\<^sub>3 then bind_result (primary levels R ctx (st\<lparr>p_rest := r\<^sub>3\<rparr>))
          (\<lambda>st. emit (operator_instruction Logical_not) st)
       else if b\<^sub>4 then emit (constant_instruction True) (st\<lparr>p_rest := r\<^sub>4\<rparr>)
       else if b\<^sub>5 then emit (constant_instruction False) (st\<lparr>p_rest := r\<^sub>5\<rparr>)
       else condition R ctx (st\<lparr>p_rest := r\<^sub>5\<rparr>))"
    by (simp add: primary.simps(2) 1 2 3 4 5 split: bool.splits)
  have le1: "length r\<^sub>1 \<le> length (p_rest st)" "b\<^sub>1 \<Longrightarrow> length r\<^sub>1 < length (p_rest st)" using 1 by (auto dest: symbol_length)
  have le2: "length r\<^sub>2 \<le> length (p_rest st)" "b\<^sub>2 \<Longrightarrow> length r\<^sub>2 < length (p_rest st)" using keyword_length(2) [OF 2] le1 2 by (auto dest: keyword_length(1))
  have le3: "length r\<^sub>3 \<le> length (p_rest st)" "b\<^sub>3 \<Longrightarrow> length r\<^sub>3 < length (p_rest st)"
    using 3 le2 by (auto split: if_splits dest: symbol_length)
  have le4: "length r\<^sub>4 \<le> length (p_rest st)" "b\<^sub>4 \<Longrightarrow> length r\<^sub>4 < length (p_rest st)" using keyword_length(2) [OF 4] le3 4 by (auto dest: keyword_length(1))
  have le5: "length r\<^sub>5 \<le> length (p_rest st)" "b\<^sub>5 \<Longrightarrow> length r\<^sub>5 < length (p_rest st)" using keyword_length(2) [OF 5] le4 5 by (auto dest: keyword_length(1))
  show thesis
    using eq le1(2) le3(2) le4(2) le5 that by (auto split: if_splits)
qed

lemma primary_level: "operand_parser R ctx (primary levels R ctx)"
proof (induction levels)
  case 0
  show ?case by standard (auto simp: fail_def progress_def)
next
  case (Suc levels)
  note inner = logical_or_level [OF Suc]
  show ?case
  proof
    fix st
    show "progress (length (p_rest st)) p_rest (primary (Suc levels) R ctx st)"
    proof (cases rule: primary_cases [of st levels R ctx])
      case (group r)
      then show ?thesis
        unfolding group(2)
        by (intro progress_bindI [OF operand_parser.advances [OF inner]] progress_string_bind [OF progress_require]) auto
    next
      case (negation r)
      then show ?thesis
        unfolding negation(2)
        by (intro progress_bindI [OF operand_parser.advances [OF Suc]]) (auto simp: progress_emit)
    next
      case (comparison r)
      then show ?thesis using progress_mono [OF progress_condition] by fastforce
    qed (simp add: progress_emit)
  next
    fix st st'
    assume res: "primary (Suc levels) R ctx st = Inr st'"
    show "\<exists>e. well_formed R ctx e \<and> p_program st' = p_program st @ postfix e \<and> length (p_program st') \<le> 256"
    proof (cases rule: primary_cases [of st levels R ctx])
      case (group r)
      with res obtain st\<^sub>1 r' where "logical_or (primary levels R ctx) (st\<lparr>p_rest := r\<rparr>) = Inr st\<^sub>1"
        and "st' = st\<^sub>1\<lparr>p_rest := r'\<rparr>" by (auto simp: bind_result_Inr_iff)
      with operand_parser.emits [OF inner this(1)] show ?thesis by simp
    next
      case (negation r)
      with res obtain st\<^sub>1 where "primary levels R ctx (st\<lparr>p_rest := r\<rparr>) = Inr st\<^sub>1"
        and e: "emit (operator_instruction Logical_not) st\<^sub>1 = Inr st'" by (auto simp: bind_result_Inr_iff)
      from operand_parser.emits [OF Suc this(1)] obtain e where "well_formed R ctx e"
        "p_program st\<^sub>1 = p_program st @ postfix e" by auto
      then show ?thesis by (intro emit_operand [OF e, of _ _ "Negation e"]) auto
    next
      case (truth r b)
      with res show ?thesis by (intro emit_operand [of _ "st\<lparr>p_rest := r\<rparr>" _ _ "[]" "Literal b"]) auto
    next
      case (comparison r)
      with condition_Inr [of R ctx "st\<lparr>p_rest := r\<rparr>" st'] res obtain i where
        "well_formed_condition R ctx i" "p_program st' = p_program st @ [i]" "length (p_program st) < 256" by auto
      then show ?thesis by (intro exI [of _ "Condition i"]) auto
    qed
  qed
qed

interpretation expression_grammar: operand_parser R ctx "logical_or (primary 25 R ctx)" for R ctx
  by (intro logical_or_level primary_level)

interpretation expression_levels: operator_level R ctx "logical_xor (primary 25 R ctx)" or_separator Logical_or for R ctx
  unfolding logical_xor_def logical_and_def
  by (intro or_level operator_level.level xor_level and_level primary_level)

lemma parsed_program:
  assumes "parse R ctx text = Inr program"
  shows "\<exists>e. well_formed R ctx e \<and> program = postfix e \<and> length program \<le> 256"
proof -
  from assms obtain st where "logical_or (primary 25 R ctx) \<lparr>p_rest = text, p_program = []\<rparr> = Inr st"
    and "program = p_program st"
    by (auto simp: parse_def bind_result_Inr_iff Let_def split: if_splits)
  with expression_grammar.emits show ?thesis by fastforce
qed

lemma parse_example:
  "parse R Cache_context ''not http.host eq r\"a\"'' =
    Inr [empty_instruction\<lparr>i_field := ''http.host'', i_comparison := ''eq'', i_values := [''a'']\<rparr>,
      operator_instruction Logical_not]"
  by code_simp

text \<open>
  Claim C12.  Whatever the text, the parser's loops end: parse never runs out of the fuel given to
  the operator loops, so it returns a program or one of the errors the source throws.
\<close>

theorem parse_terminates: "parse R ctx text \<noteq> Inl (Out_of_fuel, n)"
proof -
  have "progress (length text) p_rest (logical_or (primary 25 R ctx) \<lparr>p_rest = text, p_program = []\<rparr>)"
    using expression_grammar.advances [of "\<lparr>p_rest = text, p_program = []\<rparr>"] by simp
  then have "progress k (\<lambda>_. []) (parse R ctx text)" if "0 < k" for k
    unfolding parse_def using that by (auto simp: Let_def intro!: progress_bind)
  from progress_not_fuel [OF this [of 1]] show ?thesis by simp
qed



end
