(* ===== verification/Cache_Policy.thy ===== *)
theory Cache_Policy
  imports Cache_Settings Request_Expression
begin

text \<open>
  \<open>src/common/cache_policy.h\<close>: cache rules and policies, how a matching rule is layered over the
  rules matched before it, which directories a policy may name, and the validation shared by the
  management service and the nodes.
\<close>

record rule =
  r_id :: string
  r_name :: string
  r_enabled :: bool
  r_match_type :: string
  r_patterns :: "string list"
  r_action :: string
  r_ttl_mode :: string
  r_ttl_seconds :: int
  r_ignore_query :: bool
  r_methods :: "string list"
  r_status_codes :: "int list"
  r_min_object_bytes :: int
  r_max_object_bytes :: int
  r_skip_set_cookie :: bool
  r_browser_ttl_seconds :: int
  r_skip_no_cache :: bool
  r_respect_request_no_cache :: bool
  r_skip_request_cookie :: bool
  r_browser_ttl_mode :: string
  r_settings :: "rule_settings option"

record policy =
  p_id :: string
  p_revision :: int
  p_enabled :: bool
  p_storage :: string
  p_memory_bytes :: int
  p_disk_bytes :: int
  p_memory_percent :: int
  p_disk_percent :: int
  p_memory_reserved_bytes :: int
  p_disk_reserved_bytes :: int
  p_max_object_bytes :: int
  p_directory :: string
  p_rules :: "rule list"

definition maximum_object_bytes :: int where
  "maximum_object_bytes = 512 * 1024 * 1024"

definition default_rule :: rule where
  "default_rule = \<lparr>r_id = [], r_name = [], r_enabled = True, r_match_type = ''extension'',
     r_patterns = [], r_action = ''cache'', r_ttl_mode = ''origin'', r_ttl_seconds = 86400,
     r_ignore_query = False, r_methods = [''GET'', ''HEAD''], r_status_codes = [],
     r_min_object_bytes = 0, r_max_object_bytes = 0, r_skip_set_cookie = True,
     r_browser_ttl_seconds = 0, r_skip_no_cache = True, r_respect_request_no_cache = False,
     r_skip_request_cookie = False, r_browser_ttl_mode = ''default'', r_settings = None\<rparr>"

definition default_policy :: policy where
  "default_policy = \<lparr>p_id = [], p_revision = 1, p_enabled = True, p_storage = ''tiered'',
     p_memory_bytes = 64 * 1024 * 1024, p_disk_bytes = 1024 * 1024 * 1024, p_memory_percent = 0,
     p_disk_percent = 0, p_memory_reserved_bytes = 0, p_disk_reserved_bytes = 0,
     p_max_object_bytes = 512 * 1024 * 1024, p_directory = ''cache'', p_rules = []\<rparr>"

subsection \<open>Reading a rule\<close>

definition configured :: "rule \<Rightarrow> string \<Rightarrow> bool" where
  "configured v setting = (case r_settings v of None \<Rightarrow> False | Some s \<Rightarrow> has_setting s setting)"

primrec status_ttl_loop :: "int \<Rightarrow> status_ttl list \<Rightarrow> int option" where
  "status_ttl_loop status [] = None"
| "status_ttl_loop status (item # items) =
     (if status \<ge> t_from item \<and> status \<le> t_to item then Some (t_seconds item)
      else status_ttl_loop status items)"

definition status_cache_ttl :: "rule \<Rightarrow> int \<Rightarrow> int option" where
  "status_cache_ttl v status =
     (if configured v ''status''
      then (case r_settings v of None \<Rightarrow> None | Some s \<Rightarrow> status_ttl_loop status (s_status_ttl s))
      else None)"

definition overrides_origin :: "rule \<Rightarrow> int \<Rightarrow> bool" where
  "overrides_origin v status \<longleftrightarrow> r_ttl_mode v = ''fixed'' \<or> status_cache_ttl v status \<noteq> None"

definition origin_control_enabled :: "rule \<Rightarrow> bool" where
  "origin_control_enabled v \<longleftrightarrow> \<not> configured v ''origin'' \<or>
     (case r_settings v of None \<Rightarrow> False | Some s \<Rightarrow> s_origin_control s)"

subsection \<open>Layering a rule\<close>

text \<open>One setting of the source rule copied into the target rule and its settings.\<close>

definition apply_setting :: "rule \<Rightarrow> rule_settings \<Rightarrow> string \<Rightarrow> rule \<times> rule_settings \<Rightarrow>
    rule \<times> rule_settings" where
  "apply_setting source settings name tr =
     (case tr of (target, result) \<Rightarrow>
      let result = (if has_setting result name then result
                    else result\<lparr>s_enabled := s_enabled result @ [name]\<rparr>) in
      if name = ''edge'' then
        (target\<lparr>r_ttl_mode := r_ttl_mode source, r_ttl_seconds := r_ttl_seconds source\<rparr>, result)
      else if name = ''browser'' then
        (target\<lparr>r_browser_ttl_mode := r_browser_ttl_mode source,
           r_browser_ttl_seconds := r_browser_ttl_seconds source\<rparr>, result)
      else if name = ''status'' then (target, result\<lparr>s_status_ttl := s_status_ttl settings\<rparr>)
      else if name = ''key'' then (target\<lparr>r_ignore_query := False\<rparr>, result\<lparr>s_key := s_key settings\<rparr>)
      else if name = ''armor'' then (target, result\<lparr>s_armor := s_armor settings\<rparr>)
      else if name = ''device'' then (target, result\<lparr>s_device := s_device settings\<rparr>)
      else if name = ''sort'' then (target, result\<lparr>s_sort_query := s_sort_query settings\<rparr>)
      else if name = ''stale'' then (target, result\<lparr>s_serve_stale := s_serve_stale settings\<rparr>)
      else if name = ''etag'' then (target, result\<lparr>s_strong_etags := s_strong_etags settings\<rparr>)
      else if name = ''origin'' then (target, result\<lparr>s_origin_control := s_origin_control settings\<rparr>)
      else if name = ''vary'' then
        (target, result\<lparr>s_vary_default := s_vary_default settings, s_vary_headers := s_vary_headers settings\<rparr>)
      else if name = ''range'' then (target, result\<lparr>s_origin_range := s_origin_range settings\<rparr>)
      else if name = ''ports'' then (target, result\<lparr>s_ports := s_ports settings\<rparr>)
      else if name = ''timeout'' then (target, result\<lparr>s_read_timeout := s_read_timeout settings\<rparr>)
      else if name = ''errors'' then (target, result\<lparr>s_error_passthrough := s_error_passthrough settings\<rparr>)
      else (target, result))"

definition apply_rule :: "rule \<Rightarrow> rule \<Rightarrow> rule" where
  "apply_rule target source =
     (case r_settings source of
        None \<Rightarrow> source
      | Some settings \<Rightarrow>
          let target = target\<lparr>r_id := r_id source, r_name := r_name source, r_action := r_action source,
                r_methods := r_methods source, r_min_object_bytes := r_min_object_bytes source,
                r_max_object_bytes := r_max_object_bytes source,
                r_skip_request_cookie := r_skip_request_cookie source\<rparr>;
            result = (case r_settings target of None \<Rightarrow> default_settings | Some s \<Rightarrow> s);
            (target, result) = fold (apply_setting source settings) (s_enabled settings) (target, result) in
          target\<lparr>r_settings := Some result\<rparr>)"

subsection \<open>Directories\<close>

definition directory_char :: "char \<Rightarrow> bool" where
  "directory_char c \<longleftrightarrow> is_lower c \<or> is_upper c \<or> is_digit c \<or> c = CHR ''_'' \<or> c = CHR ''-''"

definition bad_part :: "string \<Rightarrow> bool" where
  "bad_part part \<longleftrightarrow> part = [] \<or> part = ''.'' \<or> part = ''..'' \<or> \<not> list_all directory_char part"

function directory_loop :: "string \<Rightarrow> bool" where
  "directory_loop v =
     (if v = [] then False
      else case cut_at CHR ''/'' v of
        (part, None) \<Rightarrow> \<not> bad_part part
      | (part, Some rest) \<Rightarrow> if bad_part part then False else if rest = [] then False else directory_loop rest)"
  by pat_completeness auto
termination
  by (relation "measure length") (auto dest!: sym [of "(_, Some _)"] simp: cut_at_Some_iff)

declare directory_loop.simps [simp del]

definition safe_directory :: "string \<Rightarrow> bool" where
  "safe_directory v \<longleftrightarrow>
     \<not> (v = [] \<or> length v > 128 \<or> hd v = CHR ''/'' \<or> hd v = CHR 0x5C \<or>
        list_ex (\<lambda>c. c = CHR '':'' \<or> c = CHR 0x5C) v) \<and>
     directory_loop v"

subsection \<open>Validation\<close>

datatype policy_error =
    Bad_storage | Too_many_rules | Settings_error settings_error | Bad_rule | Bad_match_type
  | Missing_patterns | Several_expressions | Expression_error expression_error nat | Bad_pattern
  | Bad_methods

definition maximum_capacity :: int where
  "maximum_capacity = 2 ^ 50"

definition bad_storage :: "policy \<Rightarrow> bool" where
  "bad_storage v \<longleftrightarrow>
     (p_storage v \<noteq> ''memory'' \<and> p_storage v \<noteq> ''disk'' \<and> p_storage v \<noteq> ''tiered'') \<or>
     p_memory_bytes v < 0 \<or> p_memory_bytes v > maximum_capacity \<or>
     p_disk_bytes v < 0 \<or> p_disk_bytes v > maximum_capacity \<or>
     p_memory_percent v < 0 \<or> p_memory_percent v > 100 \<or>
     p_disk_percent v < 0 \<or> p_disk_percent v > 100 \<or>
     p_memory_reserved_bytes v < 0 \<or> p_memory_reserved_bytes v > maximum_capacity \<or>
     p_disk_reserved_bytes v < 0 \<or> p_disk_reserved_bytes v > maximum_capacity \<or>
     p_max_object_bytes v < 1 \<or> p_max_object_bytes v > maximum_object_bytes \<or>
     (p_storage v = ''memory'' \<and> p_memory_percent v = 0 \<and> p_memory_bytes v < p_max_object_bytes v) \<or>
     (p_storage v \<noteq> ''memory'' \<and> p_disk_percent v = 0 \<and> p_disk_bytes v < p_max_object_bytes v) \<or>
     (p_storage v = ''tiered'' \<and> p_memory_percent v = 0 \<and> p_memory_bytes v < 1) \<or>
     \<not> safe_directory (p_directory v)"

definition bad_rule :: "int \<Rightarrow> rule \<Rightarrow> bool" where
  "bad_rule max_object item \<longleftrightarrow>
     r_id item = [] \<or> length (r_id item) > 64 \<or> r_name item = [] \<or> \<not> clean_text (r_name item) 100 \<or>
     (r_action item \<noteq> ''cache'' \<and> r_action item \<noteq> ''bypass'') \<or>
     (r_ttl_mode item \<noteq> ''origin'' \<and> r_ttl_mode item \<noteq> ''fixed'' \<and> r_ttl_mode item \<noteq> ''origin_strict'') \<or>
     (r_browser_ttl_mode item \<noteq> ''default'' \<and> r_browser_ttl_mode item \<noteq> ''respect_origin'' \<and>
      r_browser_ttl_mode item \<noteq> ''override_origin'' \<and> r_browser_ttl_mode item \<noteq> ''bypass'') \<or>
     r_ttl_seconds item < 0 \<or> r_ttl_seconds item > 31536000 \<or>
     r_browser_ttl_seconds item < 0 \<or> r_browser_ttl_seconds item > 31536000 \<or>
     r_min_object_bytes item < 0 \<or> r_max_object_bytes item < 0 \<or>
     r_min_object_bytes item > max_object \<or> r_max_object_bytes item > max_object \<or>
     (r_max_object_bytes item \<noteq> 0 \<and> r_min_object_bytes item > r_max_object_bytes item)"

definition match_types :: "string list" where
  "match_types = [''all'', ''exact'', ''prefix'', ''extension'', ''wildcard'', ''regex'', ''expression'']"

definition pattern_error :: "re2 \<Rightarrow> rule \<Rightarrow> string \<Rightarrow> policy_error option" where
  "pattern_error R item pattern =
     (if r_match_type item = ''expression'' then
        (if length (r_patterns item) \<noteq> 1 then Some Several_expressions
         else map_option (\<lambda>(e, position). Expression_error e position)
           (validate_expression R Cache_context pattern))
      else check (pattern = [] \<or> \<not> clean_text pattern 512 \<or>
         (r_match_type item \<in> {''exact'', ''prefix'', ''wildcard''} \<and> hd pattern \<noteq> CHR ''/'') \<or>
         (r_match_type item = ''extension'' \<and> (hd pattern \<noteq> CHR ''.'' \<or> length pattern < 2 \<or>
            list_ex (\<lambda>c. c \<in> set ''/?#* '') pattern)) \<or>
         (r_match_type item = ''regex'' \<and> compile_pattern R pattern = None)) Bad_pattern)"

definition bad_methods :: "rule \<Rightarrow> bool" where
  "bad_methods item \<longleftrightarrow>
     r_methods item = [] \<or> length (r_methods item) > 2 \<or>
     \<not> list_all (\<lambda>m. m = ''GET'' \<or> m = ''HEAD'') (r_methods item) \<or>
     length (r_status_codes item) > 32 \<or>
     \<not> list_all (\<lambda>code. 200 \<le> code \<and> code \<le> 599 \<and> code \<noteq> 206 \<and> code \<noteq> 304) (r_status_codes item)"

text \<open>The checks on one rule; \<open>seen\<close> are the identifiers of the rules before it.\<close>

definition rule_error :: "re2 \<Rightarrow> int \<Rightarrow> string set \<Rightarrow> rule \<Rightarrow> policy_error option" where
  "rule_error R max_object seen item =
     first_error
       [case r_settings item of None \<Rightarrow> None | Some s \<Rightarrow> map_option Settings_error (validate_settings s),
        check (bad_rule max_object item \<or> r_id item \<in> seen) Bad_rule,
        check (r_match_type item \<notin> set match_types) Bad_match_type,
        check (length (r_patterns item) > 128 \<or>
          (if r_match_type item = ''all'' then r_patterns item \<noteq> [] else r_patterns item = [])) Missing_patterns,
        first_error (map (pattern_error R item) (r_patterns item)),
        check (bad_methods item) Bad_methods]"

fun rules_loop :: "re2 \<Rightarrow> int \<Rightarrow> string set \<Rightarrow> rule list \<Rightarrow> policy_error option" where
  "rules_loop R max_object seen [] = None"
| "rules_loop R max_object seen (item # items) =
     (case rule_error R max_object seen item of
        Some e \<Rightarrow> Some e
      | None \<Rightarrow> rules_loop R max_object (insert (r_id item) seen) items)"

definition validate :: "re2 \<Rightarrow> policy \<Rightarrow> policy_error option" where
  "validate R v =
     first_error
       [check (bad_storage v) Bad_storage,
        check (length (p_rules v) > 128) Too_many_rules,
        rules_loop R (p_max_object_bytes v) {} (p_rules v)]"

subsection \<open>Status code lifetimes\<close>

lemma status_ttl_loop_SomeD:
  "status_ttl_loop status items = Some ttl \<Longrightarrow>
    \<exists>item \<in> set items. t_from item \<le> status \<and> status \<le> t_to item \<and> t_seconds item = ttl"
  by (induction items) (auto split: if_splits)

lemma status_ttl_loop_disjoint:
  assumes "status_loop [] items = None" and "item \<in> set items" and "t_from item \<le> status" and "status \<le> t_to item"
  shows "status_ttl_loop status items = Some (t_seconds item)"
proof -
  obtain j where j: "j < length items" "items ! j = item" using assms(2) by (auto simp: in_set_conv_nth)
  have "status_ttl_loop status items \<noteq> None" using assms(2-4) by (induction items) auto
  then obtain ttl other where "status_ttl_loop status items = Some ttl" "other \<in> set items"
    "t_from other \<le> status" "status \<le> t_to other" "t_seconds other = ttl" using status_ttl_loop_SomeD by blast
  moreover from this obtain i where "i < length items" "items ! i = other" by (auto simp: in_set_conv_nth)
  ultimately show ?thesis using status_loop_same [OF assms(1), of i j status] j assms(3,4) by auto
qed

text \<open>
  In a rule with valid settings the status ranges are disjoint: the lifetime of a
  status code is the one of the only range that holds it, whatever the order of the ranges, and
  it lies between -1 and one year.
\<close>

lemma status_cache_ttl_iff:
  assumes "r_settings v = Some s" and "has_setting s ''status''" and "validate_settings s = None"
  shows "status_cache_ttl v status = Some ttl \<longleftrightarrow>
    (\<exists>item \<in> set (s_status_ttl s). t_from item \<le> status \<and> status \<le> t_to item \<and> t_seconds item = ttl \<and>
       -1 \<le> ttl \<and> ttl \<le> 31536000)"
proof -
  have valid: "status_loop [] (s_status_ttl s) = None" using assms(3) by (simp add: validate_settings_None)
  then have bounds: "-1 \<le> t_seconds item \<and> t_seconds item \<le> 31536000" if "item \<in> set (s_status_ttl s)" for item
    using that by (auto simp: status_loop_None bad_status_def)
  have eq: "status_cache_ttl v status = status_ttl_loop status (s_status_ttl s)"
    using assms by (simp add: status_cache_ttl_def configured_def)
  show ?thesis (is "?L \<longleftrightarrow> ?R")
  proof
    assume ?L
    from status_ttl_loop_SomeD [OF this [unfolded eq]] bounds show ?R by blast
  next
    assume ?R
    then obtain item where "item \<in> set (s_status_ttl s)" "t_from item \<le> status" "status \<le> t_to item"
      "t_seconds item = ttl" by blast
    with status_ttl_loop_disjoint [OF valid this(1-3)] eq show ?L by simp
  qed
qed

lemma status_ttl_none: "status_ttl_loop status items = None \<longleftrightarrow> list_all (\<lambda>item. \<not> (t_from item \<le> status \<and> status \<le> t_to item)) items"
  by (induction items) auto

subsection \<open>Layered settings\<close>

definition pick :: "bool \<Rightarrow> 'a \<Rightarrow> 'a \<Rightarrow> 'a" where
  "pick b x y = (if b then x else y)"

lemma pick_simps [simp]: "pick True x y = x" "pick False x y = y" "pick a x (pick b x y) = pick (a \<or> b) x y"
  by (simp_all add: pick_def)

text \<open>The settings named in \<open>names\<close> come from the source, the others from the target.\<close>

definition layered_settings :: "string set \<Rightarrow> rule_settings \<Rightarrow> rule_settings \<Rightarrow> rule_settings" where
  "layered_settings names settings base = base\<lparr>
     s_status_ttl := pick (''status'' \<in> names) (s_status_ttl settings) (s_status_ttl base),
     s_key := pick (''key'' \<in> names) (s_key settings) (s_key base),
     s_armor := pick (''armor'' \<in> names) (s_armor settings) (s_armor base),
     s_device := pick (''device'' \<in> names) (s_device settings) (s_device base),
     s_sort_query := pick (''sort'' \<in> names) (s_sort_query settings) (s_sort_query base),
     s_serve_stale := pick (''stale'' \<in> names) (s_serve_stale settings) (s_serve_stale base),
     s_strong_etags := pick (''etag'' \<in> names) (s_strong_etags settings) (s_strong_etags base),
     s_origin_control := pick (''origin'' \<in> names) (s_origin_control settings) (s_origin_control base),
     s_vary_default := pick (''vary'' \<in> names) (s_vary_default settings) (s_vary_default base),
     s_vary_headers := pick (''vary'' \<in> names) (s_vary_headers settings) (s_vary_headers base),
     s_origin_range := pick (''range'' \<in> names) (s_origin_range settings) (s_origin_range base),
     s_ports := pick (''ports'' \<in> names) (s_ports settings) (s_ports base),
     s_read_timeout := pick (''timeout'' \<in> names) (s_read_timeout settings) (s_read_timeout base),
     s_error_passthrough := pick (''errors'' \<in> names) (s_error_passthrough settings) (s_error_passthrough base)\<rparr>"

definition layered_rule :: "string set \<Rightarrow> rule \<Rightarrow> rule \<Rightarrow> rule" where
  "layered_rule names source target = target\<lparr>
     r_ttl_mode := pick (''edge'' \<in> names) (r_ttl_mode source) (r_ttl_mode target),
     r_ttl_seconds := pick (''edge'' \<in> names) (r_ttl_seconds source) (r_ttl_seconds target),
     r_browser_ttl_mode := pick (''browser'' \<in> names) (r_browser_ttl_mode source) (r_browser_ttl_mode target),
     r_browser_ttl_seconds := pick (''browser'' \<in> names) (r_browser_ttl_seconds source) (r_browser_ttl_seconds target),
     r_ignore_query := pick (''key'' \<in> names) False (r_ignore_query target)\<rparr>"

definition add_names :: "string list \<Rightarrow> string list \<Rightarrow> string list" where
  "add_names names base = fold (\<lambda>n ns. if n \<in> set ns then ns else ns @ [n]) names base"

lemma add_names_set [simp]: "set (add_names names base) = set base \<union> set names"
  unfolding add_names_def by (induction names arbitrary: base) auto

lemma add_names_distinct [simp]: "distinct (add_names names base) \<longleftrightarrow> distinct base"
  unfolding add_names_def by (induction names arbitrary: base) auto

lemma apply_setting_layered:
  "apply_setting source settings name (target, result) =
    (layered_rule {name} source target,
     layered_settings {name} settings (result\<lparr>s_enabled := add_names [name] (s_enabled result)\<rparr>))"
proof (cases "name \<in> set setting_names")
  case True
  then show ?thesis
    unfolding setting_names_def list.set insert_iff empty_iff simp_thms
    by (elim disjE) (simp_all add: apply_setting_def layered_rule_def layered_settings_def add_names_def
        has_setting_def Let_def)
next
  case False
  then have "name \<noteq> n" "n \<noteq> name" if "n \<in> set setting_names" for n using that by auto
  from this [simplified setting_names_def list.set insert_iff] show ?thesis
    by (simp add: apply_setting_def layered_rule_def layered_settings_def add_names_def has_setting_def Let_def)
qed

lemma layered_rule_compose:
  "layered_rule ns source (layered_rule ms source target) = layered_rule (ns \<union> ms) source target"
  by (simp add: layered_rule_def)

lemma layered_settings_compose:
  "layered_settings ns s ((layered_settings ms s base)\<lparr>s_enabled := e\<rparr>) = layered_settings (ns \<union> ms) s (base\<lparr>s_enabled := e\<rparr>)"
  by (simp add: layered_settings_def)

lemma fold_apply_setting:
  "fold (apply_setting source settings) names (target, result) =
    (layered_rule (set names) source target,
     layered_settings (set names) settings (result\<lparr>s_enabled := add_names names (s_enabled result)\<rparr>))"
proof (induction names arbitrary: target result)
  case Nil
  show ?case by (simp add: layered_rule_def layered_settings_def add_names_def)
next
  case (Cons name names)
  have "add_names names (add_names [name] e) = add_names (name # names) e" for e
    by (simp add: add_names_def)
  moreover have "s_enabled (layered_settings ns s r) = s_enabled r" for ns s r
    by (simp add: layered_settings_def)
  ultimately show ?case
    using Cons [of "layered_rule {name} source target"]
    by (simp add: apply_setting_layered layered_rule_compose layered_settings_compose)
qed

text \<open>The fields every matching rule overwrites.\<close>

definition identified :: "rule \<Rightarrow> rule \<Rightarrow> rule" where
  "identified source target = target\<lparr>r_id := r_id source, r_name := r_name source, r_action := r_action source,
     r_methods := r_methods source, r_min_object_bytes := r_min_object_bytes source,
     r_max_object_bytes := r_max_object_bytes source, r_skip_request_cookie := r_skip_request_cookie source\<rparr>"

definition base_settings :: "rule \<Rightarrow> rule_settings" where
  "base_settings target = (case r_settings target of None \<Rightarrow> default_settings | Some s \<Rightarrow> s)"

lemma apply_rule_layers:
  assumes "r_settings source = Some s"
  shows "apply_rule target source =
    (layered_rule (set (s_enabled s)) source (identified source target))\<lparr>r_settings := Some
      (layered_settings (set (s_enabled s)) s
        ((base_settings target)\<lparr>s_enabled := add_names (s_enabled s) (s_enabled (base_settings target))\<rparr>))\<rparr>"
  using assms
  by (simp add: apply_rule_def fold_apply_setting identified_def base_settings_def Let_def)

text \<open>
  Claim C25.  Layering a rule that has settings takes every setting the rule enables from it and
  leaves every other setting as it was: the result is the field-wise overlay of the two rules, with
  the enabled settings of both.
\<close>

theorem apply_rule_overlay:
  assumes "r_settings source = Some s"
  shows "\<exists>t. apply_rule target source =
      (layered_rule (set (s_enabled s)) source (identified source target))\<lparr>r_settings := Some t\<rparr> \<and>
    t = (layered_settings (set (s_enabled s)) s (base_settings target))\<lparr>s_enabled := s_enabled t\<rparr> \<and>
    set (s_enabled t) = set (s_enabled (base_settings target)) \<union> set (s_enabled s)"
  unfolding apply_rule_layers [OF assms] by (auto simp: layered_settings_def)

lemma default_settings_valid: "validate_settings default_settings = None"
  by (simp add: validate_settings_def default_settings_def bad_advanced_def default_cache_key_def key_error_def
      bad_key_def key_fields_error_def)

lemma layered_settings_valid:
  assumes "validate_settings s = None" and "validate_settings base = None"
  shows "validate_settings (layered_settings (set (s_enabled s)) s
    (base\<lparr>s_enabled := add_names (s_enabled s) (s_enabled base)\<rparr>)) = None"
  using assms unfolding validate_settings_None layered_settings_def
  by (auto simp: bad_advanced_def pick_def list_all_iff)

lemma rule_error_seen: "rule_error R m seen item = None \<longleftrightarrow> rule_error R m {} item = None \<and> r_id item \<notin> seen"
  by (auto simp: rule_error_def)

lemma pattern_error_depends:
  "r_match_type a = r_match_type b \<Longrightarrow> r_patterns a = r_patterns b \<Longrightarrow> pattern_error R a = pattern_error R b"
  by (rule ext) (simp add: pattern_error_def)

text \<open>
  Claim C24.  Layering keeps validity: when the rules matched so far and the next rule pass the checks
  of the policy, the combined rule passes them too.
\<close>

theorem apply_rule_valid:
  assumes "rule_error R m {} target = None" and "rule_error R m seen source = None"
  shows "rule_error R m seen (apply_rule target source) = None"
proof (cases "r_settings source")
  case None
  with assms show ?thesis by (simp add: apply_rule_def)
next
  case (Some s)
  have s: "validate_settings s = None" using assms(2) Some by (simp add: rule_error_def)
  have base: "validate_settings (base_settings target) = None"
    using assms(1) default_settings_valid by (auto simp: rule_error_def base_settings_def split: option.splits)
  let ?r = "apply_rule target source"
  note layers = apply_rule_layers [OF Some, of target]
  have same: "r_match_type ?r = r_match_type target" "r_patterns ?r = r_patterns target" "r_id ?r = r_id source"
    unfolding layers by (simp_all add: layered_rule_def identified_def)
  have valid: "\<not> bad_rule m target" "\<not> bad_rule m source" "\<not> bad_methods target" "\<not> bad_methods source"
    using assms by (simp_all add: rule_error_def)
  have "\<not> bad_methods ?r"
    using valid(3,4) unfolding layers by (simp add: layered_rule_def identified_def bad_methods_def)
  moreover have "\<not> bad_rule m ?r"
    using valid(1,2) unfolding layers bad_rule_def
    by (cases "''edge'' \<in> set (s_enabled s)"; cases "''browser'' \<in> set (s_enabled s)")
      (simp_all add: layered_rule_def identified_def)
  moreover have "\<exists>t. r_settings ?r = Some t \<and> validate_settings t = None"
    using layered_settings_valid [OF s base] unfolding layers by simp
  ultimately show ?thesis
    using assms pattern_error_depends [OF same(1,2), of R] same by (auto simp: rule_error_def)
qed

subsection \<open>Directories and policies\<close>

fun join_parts :: "string list \<Rightarrow> string" where
  "join_parts [] = []"
| "join_parts [p] = p"
| "join_parts (p # ps) = p @ CHR ''/'' # join_parts ps"

lemma good_part_iff: "\<not> bad_part p \<longleftrightarrow> p \<noteq> [] \<and> list_all directory_char p"
  by (auto simp: bad_part_def directory_char_def byte_classes byte_def)

lemma slash_not_directory_char: "\<not> directory_char CHR ''/''"
  by (simp add: directory_char_def byte_classes byte_def)

lemma directory_loop_iff:
  "directory_loop v \<longleftrightarrow> (\<exists>ps. ps \<noteq> [] \<and> v = join_parts ps \<and> list_all (\<lambda>p. \<not> bad_part p) ps)"
proof (induction v rule: directory_loop.induct)
  case (1 v)
  have no_slash: "CHR ''/'' \<notin> set p" if "\<not> bad_part p" for p
    using that slash_not_directory_char by (auto simp: good_part_iff list_all_iff)
  have nonempty: "join_parts ps \<noteq> []" if "ps \<noteq> []" "list_all (\<lambda>p. \<not> bad_part p) ps" for ps
    using that by (cases ps rule: join_parts.cases) (auto simp: good_part_iff)
  show ?case
  proof (cases "CHR ''/''" v rule: cut_at_cases)
    case absent
    have "ps = [v]" if "ps \<noteq> []" "v = join_parts ps" for ps
      using that absent(1) by (cases ps rule: join_parts.cases) auto
    then have "(\<exists>ps. ps \<noteq> [] \<and> v = join_parts ps \<and> list_all (\<lambda>p. \<not> bad_part p) ps) \<longleftrightarrow> \<not> bad_part v"
      using exI [of "\<lambda>ps. ps \<noteq> [] \<and> v = join_parts ps \<and> list_all (\<lambda>p. \<not> bad_part p) ps" "[v]"] by fastforce
    with absent show ?thesis by (subst directory_loop.simps) (auto simp: good_part_iff)
  next
    case (found p r)
    have step: "directory_loop v \<longleftrightarrow> \<not> bad_part p \<and> r \<noteq> [] \<and> directory_loop r"
      using found by (subst directory_loop.simps) auto
    have split: "(\<exists>ps. ps \<noteq> [] \<and> v = join_parts ps \<and> list_all (\<lambda>p. \<not> bad_part p) ps) \<longleftrightarrow>
        \<not> bad_part p \<and> (\<exists>ps. ps \<noteq> [] \<and> r = join_parts ps \<and> list_all (\<lambda>p. \<not> bad_part p) ps)" (is "?L \<longleftrightarrow> ?R")
    proof
      assume ?L
      then obtain ps where ps: "v = join_parts ps" "list_all (\<lambda>p. \<not> bad_part p) ps" by blast
      with found no_slash [of v] obtain q qs where q: "ps = q # qs" "qs \<noteq> []"
        by (cases ps rule: join_parts.cases) auto
      then have "v = q @ CHR ''/'' # join_parts qs" using ps by (cases qs) auto
      moreover have "CHR ''/'' \<notin> set q" using no_slash ps q by auto
      ultimately have "cut_at CHR ''/'' v = (q, Some (join_parts qs))" by simp
      with found have "q = p" "join_parts qs = r" by auto
      with ps q show ?R by auto
    next
      assume ?R
      then obtain ps where "ps \<noteq> []" "r = join_parts ps" "list_all (\<lambda>p. \<not> bad_part p) ps" "\<not> bad_part p" by blast
      with found show ?L by (intro exI [of _ "p # ps"]) (cases ps; simp)
    qed
    have IH: "directory_loop r \<longleftrightarrow> (\<exists>ps. ps \<noteq> [] \<and> r = join_parts ps \<and> list_all (\<lambda>p. \<not> bad_part p) ps)"
      if "\<not> bad_part p" "r \<noteq> []" using "1.IH" [OF _ found(3) [symmetric] refl that] found by simp
    show ?thesis unfolding step split using IH nonempty by auto
  qed
qed

text \<open>
  Claim C26.  A policy may name exactly the relative paths of at most 128 bytes whose components are
  non-empty words of letters, digits, underscores and hyphens: no absolute path, no dot component,
  no empty component and no trailing slash.
\<close>

theorem safe_directory_iff:
  "safe_directory v \<longleftrightarrow> length v \<le> 128 \<and>
    (\<exists>ps. ps \<noteq> [] \<and> v = join_parts ps \<and> list_all (\<lambda>p. p \<noteq> [] \<and> list_all directory_char p) ps)"
proof -
  have chars: "directory_char c \<or> c = CHR ''/''"
    if "list_all (\<lambda>p. \<not> bad_part p) ps" "c \<in> set (join_parts ps)" for c ps
    using that by (induction ps rule: join_parts.induct) (auto simp: good_part_iff list_all_iff)
  have first: "directory_char (hd (join_parts ps))" if "ps \<noteq> []" "list_all (\<lambda>p. \<not> bad_part p) ps" for ps
    using that by (cases ps rule: join_parts.cases) (auto simp: good_part_iff list_all_iff hd_append)
  have special: "\<not> directory_char CHR '':''" "\<not> directory_char CHR 0x5C" "\<not> directory_char CHR ''/''"
    by (simp_all add: directory_char_def byte_classes byte_def)
  have ok: "v \<noteq> [] \<and> hd v \<noteq> CHR ''/'' \<and> hd v \<noteq> CHR 0x5C \<and> \<not> list_ex (\<lambda>c. c = CHR '':'' \<or> c = CHR 0x5C) v"
    if loop: "directory_loop v"
  proof -
    from loop obtain ps where ps: "ps \<noteq> []" "v = join_parts ps" "list_all (\<lambda>p. \<not> bad_part p) ps"
      by (auto simp: directory_loop_iff)
    have "c \<noteq> CHR '':'' \<and> c \<noteq> CHR 0x5C" if "c \<in> set v" for c
      using chars [OF ps(3)] that ps(2) special by auto
    moreover have "v \<noteq> []" using loop by (auto simp: directory_loop.simps [of "[]"])
    moreover have "hd v \<noteq> CHR ''/''" using first [OF ps(1,3)] ps(2) special by auto
    ultimately show ?thesis using hd_in_set [of v] by (auto simp: list_ex_iff)
  qed
  have "safe_directory v \<longleftrightarrow> length v \<le> 128 \<and> directory_loop v"
    using ok by (auto simp: safe_directory_def)
  then show ?thesis by (simp add: directory_loop_iff good_part_iff)
qed

lemma rules_loop_None:
  "rules_loop R m seen rules = None \<longleftrightarrow>
    (\<forall>item \<in> set rules. rule_error R m {} item = None \<and> r_id item \<notin> seen) \<and> distinct (map r_id rules)"
proof (induction rules arbitrary: seen)
  case (Cons item items)
  show ?case
    using Cons [of "insert (r_id item) seen"] rule_error_seen [of R m seen item]
    by (auto simp: image_iff split: option.splits)
qed simp


definition sample_settings :: rule_settings where
  "sample_settings = default_settings\<lparr>s_enabled := [''status'', ''edge''],
     s_status_ttl := [\<lparr>t_from = 200, t_to = 299, t_seconds = 60\<rparr>, \<lparr>t_from = 404, t_to = 404, t_seconds = -1\<rparr>]\<rparr>"

definition sample_rule :: rule where
  "sample_rule = default_rule\<lparr>r_id := ''a'', r_name := ''n'', r_patterns := [''.js''], r_settings := Some sample_settings\<rparr>"

lemma sample_settings_valid: "validate_settings sample_settings = None"
  using default_settings_valid
  by (simp add: validate_settings_None sample_settings_def default_settings_def setting_names_def bad_advanced_def
      bad_status_def overlapping_def)

lemma sample_rule_valid: "rule_error R 1000 {} sample_rule = None"
  using sample_settings_valid
  by (simp add: rule_error_def sample_rule_def default_rule_def bad_rule_def match_types_def pattern_error_def
      bad_methods_def clean_text_def byte_def iscntrl_def)

lemma default_storage_valid: "\<not> bad_storage (default_policy\<lparr>p_rules := rules\<rparr>)"
proof -
  have "safe_directory ''cache''"
    by (simp add: safe_directory_def directory_loop.simps cut_at_def bad_part_def directory_char_def byte_classes byte_def)
  then show ?thesis by (simp add: bad_storage_def default_policy_def maximum_capacity_def maximum_object_bytes_def)
qed

lemma sample_policy_accepted: "validate R (default_policy\<lparr>p_rules := [sample_rule]\<rparr>) = None"
proof -
  have "rule_error R (512 * 1024 * 1024) {} sample_rule = None"
    using sample_rule_valid [of R] by (simp add: rule_error_def bad_rule_def sample_rule_def default_rule_def)
  then show ?thesis
    using default_storage_valid [of "[sample_rule]"] by (simp add: validate_def default_policy_def)
qed


theorem apply_rule_overlay_witness:
  "\<exists>t. apply_rule default_rule sample_rule =
      (layered_rule {''status'', ''edge''} sample_rule (identified sample_rule default_rule))\<lparr>r_settings := Some t\<rparr> \<and>
    t = (layered_settings {''status'', ''edge''} sample_settings (base_settings default_rule))\<lparr>s_enabled := s_enabled t\<rparr> \<and>
    set (s_enabled t) = set (s_enabled (base_settings default_rule)) \<union> {''status'', ''edge''}"
  using apply_rule_overlay [of sample_rule sample_settings default_rule]
  by (simp add: sample_rule_def sample_settings_def)

theorem apply_rule_valid_witness:
  "\<exists>R. rule_error R 1000 {} sample_rule = None \<and> rule_error R 1000 {} (apply_rule sample_rule sample_rule) = None"
  using apply_rule_valid [OF sample_rule_valid sample_rule_valid] sample_rule_valid by blast

end
