(* ===== verification/Cache_Proto.thy ===== *)
theory Cache_Proto
  imports Cache_Policy
begin

text \<open>
  \<open>src/common/cache_settings_proto.h\<close>, the conversions of \<open>src/common/cache_policy.h\<close> and the built-in
  rules of \<open>src/common/cache_defaults.h\<close>.  The messages of \<open>src/node/proto/edge_control.proto\<close> are
  records of their fields: a \<open>repeated\<close> field is a list, an \<open>optional\<close> field and a message field are
  options.  A converter writes into a message it is given; nested messages start at their defaults.
\<close>

subsection \<open>Messages\<close>

record CacheStatusTTL =
  pst_from :: int
  pst_to :: int
  pst_seconds :: int

record CacheHeaderKey =
  phk_name :: string
  phk_values :: "string list"

record CacheKeySettings =
  pk_query_mode :: string
  pk_query_parameters :: "string list"
  pk_headers :: "string list"
  pk_header_presence :: "string list"
  pk_header_values :: "CacheHeaderKey list"
  pk_cookies :: "string list"
  pk_cookie_presence :: "string list"
  pk_include_origin :: bool
  pk_host :: string
  pk_country :: bool
  pk_language :: bool

record CacheVaryHeader =
  pv_name :: string
  pv_action :: string
  pv_values :: "string list"

record CacheRuleSettings =
  ps_enabled :: "string list"
  ps_status_ttl :: "CacheStatusTTL list"
  ps_key :: "CacheKeySettings option"
  ps_armor :: bool
  ps_device :: bool
  ps_sort_query :: bool
  ps_serve_stale :: bool
  ps_strong_etags :: bool
  ps_origin_control :: bool
  ps_vary_default :: string
  ps_vary_headers :: "CacheVaryHeader list"
  ps_origin_range :: string
  ps_ports :: "int list"
  ps_read_timeout :: int
  ps_error_passthrough :: bool

record CacheRule =
  pr_id :: string
  pr_name :: string
  pr_enabled :: bool
  pr_match_type :: string
  pr_patterns :: "string list"
  pr_action :: string
  pr_ttl_mode :: string
  pr_ttl_seconds :: int
  pr_ignore_query :: bool
  pr_methods :: "string list"
  pr_status_codes :: "32 word list"
  pr_min_object_bytes :: int
  pr_max_object_bytes :: int
  pr_skip_set_cookie :: bool
  pr_browser_ttl_seconds :: int
  pr_skip_no_cache :: "bool option"
  pr_respect_request_no_cache :: "bool option"
  pr_skip_request_cookie :: "bool option"
  pr_browser_ttl_mode :: "string option"
  pr_settings :: "CacheRuleSettings option"

record CachePolicy =
  pp_id :: string
  pp_revision :: int
  pp_enabled :: bool
  pp_storage :: string
  pp_memory_bytes :: int
  pp_disk_bytes :: int
  pp_max_object_bytes :: int
  pp_directory :: string
  pp_rules :: "CacheRule list"
  pp_memory_percent :: int
  pp_disk_percent :: int
  pp_memory_reserved_bytes :: int
  pp_disk_reserved_bytes :: int

definition empty_CacheStatusTTL :: CacheStatusTTL where
  "empty_CacheStatusTTL = \<lparr>pst_from = 0, pst_to = 0, pst_seconds = 0\<rparr>"

definition empty_CacheHeaderKey :: CacheHeaderKey where
  "empty_CacheHeaderKey = \<lparr>phk_name = [], phk_values = []\<rparr>"

definition empty_CacheKeySettings :: CacheKeySettings where
  "empty_CacheKeySettings = \<lparr>pk_query_mode = [], pk_query_parameters = [], pk_headers = [],
     pk_header_presence = [], pk_header_values = [], pk_cookies = [], pk_cookie_presence = [],
     pk_include_origin = False, pk_host = [], pk_country = False, pk_language = False\<rparr>"

definition empty_CacheVaryHeader :: CacheVaryHeader where
  "empty_CacheVaryHeader = \<lparr>pv_name = [], pv_action = [], pv_values = []\<rparr>"

definition empty_CacheRuleSettings :: CacheRuleSettings where
  "empty_CacheRuleSettings = \<lparr>ps_enabled = [], ps_status_ttl = [], ps_key = None, ps_armor = False,
     ps_device = False, ps_sort_query = False, ps_serve_stale = False, ps_strong_etags = False,
     ps_origin_control = False, ps_vary_default = [], ps_vary_headers = [], ps_origin_range = [],
     ps_ports = [], ps_read_timeout = 0, ps_error_passthrough = False\<rparr>"

definition empty_CacheRule :: CacheRule where
  "empty_CacheRule = \<lparr>pr_id = [], pr_name = [], pr_enabled = False, pr_match_type = [], pr_patterns = [],
     pr_action = [], pr_ttl_mode = [], pr_ttl_seconds = 0, pr_ignore_query = False, pr_methods = [],
     pr_status_codes = [], pr_min_object_bytes = 0, pr_max_object_bytes = 0, pr_skip_set_cookie = False,
     pr_browser_ttl_seconds = 0, pr_skip_no_cache = None, pr_respect_request_no_cache = None,
     pr_skip_request_cookie = None, pr_browser_ttl_mode = None, pr_settings = None\<rparr>"

definition empty_CachePolicy :: CachePolicy where
  "empty_CachePolicy = \<lparr>pp_id = [], pp_revision = 0, pp_enabled = False, pp_storage = [], pp_memory_bytes = 0,
     pp_disk_bytes = 0, pp_max_object_bytes = 0, pp_directory = [], pp_rules = [], pp_memory_percent = 0,
     pp_disk_percent = 0, pp_memory_reserved_bytes = 0, pp_disk_reserved_bytes = 0\<rparr>"

definition value_or_empty :: "'a option \<Rightarrow> 'a \<Rightarrow> 'a" where
  "value_or_empty m e = (case m of None \<Rightarrow> e | Some x \<Rightarrow> x)"

subsection \<open>Settings\<close>

definition status_ttl_to_proto :: "status_ttl \<Rightarrow> CacheStatusTTL \<Rightarrow> CacheStatusTTL" where
  "status_ttl_to_proto input output =
     output\<lparr>pst_from := t_from input, pst_to := t_to input, pst_seconds := t_seconds input\<rparr>"

definition status_ttl_from_proto :: "CacheStatusTTL \<Rightarrow> status_ttl" where
  "status_ttl_from_proto input = \<lparr>t_from = pst_from input, t_to = pst_to input, t_seconds = pst_seconds input\<rparr>"

definition header_key_to_proto :: "header_key \<Rightarrow> CacheHeaderKey \<Rightarrow> CacheHeaderKey" where
  "header_key_to_proto input output =
     output\<lparr>phk_name := hk_name input, phk_values := phk_values output @ hk_values input\<rparr>"

definition header_key_from_proto :: "CacheHeaderKey \<Rightarrow> header_key" where
  "header_key_from_proto input = \<lparr>hk_name = phk_name input, hk_values = phk_values input\<rparr>"

definition cache_key_to_proto :: "cache_key \<Rightarrow> CacheKeySettings \<Rightarrow> CacheKeySettings" where
  "cache_key_to_proto input output = output\<lparr>
     pk_query_mode := k_query_mode input,
     pk_query_parameters := pk_query_parameters output @ k_query_parameters input,
     pk_headers := pk_headers output @ k_headers input,
     pk_header_presence := pk_header_presence output @ k_header_presence input,
     pk_header_values := pk_header_values output @
       map (\<lambda>v. header_key_to_proto v empty_CacheHeaderKey) (k_header_values input),
     pk_cookies := pk_cookies output @ k_cookies input,
     pk_cookie_presence := pk_cookie_presence output @ k_cookie_presence input,
     pk_include_origin := k_include_origin input,
     pk_host := k_host input,
     pk_country := k_country input,
     pk_language := k_language input\<rparr>"

definition cache_key_from_proto :: "CacheKeySettings \<Rightarrow> cache_key" where
  "cache_key_from_proto input = default_cache_key\<lparr>
     k_query_mode := pk_query_mode input,
     k_query_parameters := pk_query_parameters input,
     k_headers := pk_headers input,
     k_header_presence := pk_header_presence input,
     k_header_values := k_header_values default_cache_key @ map header_key_from_proto (pk_header_values input),
     k_cookies := pk_cookies input,
     k_cookie_presence := pk_cookie_presence input,
     k_include_origin := pk_include_origin input,
     k_host := pk_host input,
     k_country := pk_country input,
     k_language := pk_language input\<rparr>"

definition vary_header_to_proto :: "vary_header \<Rightarrow> CacheVaryHeader \<Rightarrow> CacheVaryHeader" where
  "vary_header_to_proto input output = output\<lparr>pv_name := vh_name input, pv_action := vh_action input,
     pv_values := pv_values output @ vh_values input\<rparr>"

definition vary_header_from_proto :: "CacheVaryHeader \<Rightarrow> vary_header" where
  "vary_header_from_proto input =
     \<lparr>vh_name = pv_name input, vh_action = pv_action input, vh_values = pv_values input\<rparr>"

definition settings_to_proto :: "rule_settings \<Rightarrow> CacheRuleSettings \<Rightarrow> CacheRuleSettings" where
  "settings_to_proto input output = output\<lparr>
     ps_enabled := ps_enabled output @ s_enabled input,
     ps_status_ttl := ps_status_ttl output @
       map (\<lambda>v. status_ttl_to_proto v empty_CacheStatusTTL) (s_status_ttl input),
     ps_key := Some (cache_key_to_proto (s_key input) (value_or_empty (ps_key output) empty_CacheKeySettings)),
     ps_armor := s_armor input,
     ps_device := s_device input,
     ps_sort_query := s_sort_query input,
     ps_serve_stale := s_serve_stale input,
     ps_strong_etags := s_strong_etags input,
     ps_origin_control := s_origin_control input,
     ps_vary_default := s_vary_default input,
     ps_vary_headers := ps_vary_headers output @
       map (\<lambda>v. vary_header_to_proto v empty_CacheVaryHeader) (s_vary_headers input),
     ps_origin_range := s_origin_range input,
     ps_ports := ps_ports output @ s_ports input,
     ps_read_timeout := s_read_timeout input,
     ps_error_passthrough := s_error_passthrough input\<rparr>"

definition rule_settings_from_proto :: "CacheRuleSettings \<Rightarrow> rule_settings" where
  "rule_settings_from_proto input = default_settings\<lparr>
     s_enabled := ps_enabled input,
     s_status_ttl := s_status_ttl default_settings @ map status_ttl_from_proto (ps_status_ttl input),
     s_key := cache_key_from_proto (value_or_empty (ps_key input) empty_CacheKeySettings),
     s_armor := ps_armor input,
     s_device := ps_device input,
     s_sort_query := ps_sort_query input,
     s_serve_stale := ps_serve_stale input,
     s_strong_etags := ps_strong_etags input,
     s_origin_control := ps_origin_control input,
     s_vary_default := ps_vary_default input,
     s_vary_headers := s_vary_headers default_settings @ map vary_header_from_proto (ps_vary_headers input),
     s_origin_range := ps_origin_range input,
     s_ports := ps_ports input,
     s_read_timeout := ps_read_timeout input,
     s_error_passthrough := ps_error_passthrough input\<rparr>"

subsection \<open>Policies\<close>

definition rule_to_proto :: "rule \<Rightarrow> CacheRule \<Rightarrow> CacheRule" where
  "rule_to_proto source target = target\<lparr>
     pr_id := r_id source,
     pr_name := r_name source,
     pr_enabled := r_enabled source,
     pr_match_type := r_match_type source,
     pr_patterns := pr_patterns target @ r_patterns source,
     pr_action := r_action source,
     pr_ttl_mode := r_ttl_mode source,
     pr_ttl_seconds := r_ttl_seconds source,
     pr_ignore_query := r_ignore_query source,
     pr_methods := pr_methods target @ r_methods source,
     pr_status_codes := pr_status_codes target @ map word_of_int (r_status_codes source),
     pr_min_object_bytes := r_min_object_bytes source,
     pr_max_object_bytes := r_max_object_bytes source,
     pr_skip_set_cookie := r_skip_set_cookie source,
     pr_browser_ttl_seconds := r_browser_ttl_seconds source,
     pr_skip_no_cache := Some (r_skip_no_cache source),
     pr_respect_request_no_cache := Some (r_respect_request_no_cache source),
     pr_skip_request_cookie := Some (r_skip_request_cookie source),
     pr_browser_ttl_mode := Some (r_browser_ttl_mode source),
     pr_settings := (case r_settings source of
         None \<Rightarrow> pr_settings target
       | Some s \<Rightarrow> Some (settings_to_proto s (value_or_empty (pr_settings target) empty_CacheRuleSettings)))\<rparr>"

definition to_proto :: "policy \<Rightarrow> CachePolicy \<Rightarrow> CachePolicy" where
  "to_proto input output = output\<lparr>
     pp_id := p_id input,
     pp_revision := p_revision input,
     pp_enabled := p_enabled input,
     pp_storage := p_storage input,
     pp_memory_bytes := p_memory_bytes input,
     pp_disk_bytes := p_disk_bytes input,
     pp_memory_percent := p_memory_percent input,
     pp_disk_percent := p_disk_percent input,
     pp_memory_reserved_bytes := p_memory_reserved_bytes input,
     pp_disk_reserved_bytes := p_disk_reserved_bytes input,
     pp_max_object_bytes := p_max_object_bytes input,
     pp_directory := p_directory input,
     pp_rules := pp_rules output @ map (\<lambda>r. rule_to_proto r empty_CacheRule) (p_rules input)\<rparr>"

definition rule_from_proto :: "CacheRule \<Rightarrow> rule" where
  "rule_from_proto source = \<lparr>
     r_id = pr_id source,
     r_name = pr_name source,
     r_enabled = pr_enabled source,
     r_match_type = pr_match_type source,
     r_patterns = pr_patterns source,
     r_action = pr_action source,
     r_ttl_mode = pr_ttl_mode source,
     r_ttl_seconds = pr_ttl_seconds source,
     r_ignore_query = pr_ignore_query source,
     r_methods = pr_methods source,
     r_status_codes = map uint (pr_status_codes source),
     r_min_object_bytes = pr_min_object_bytes source,
     r_max_object_bytes = pr_max_object_bytes source,
     r_skip_set_cookie = pr_skip_set_cookie source,
     r_browser_ttl_seconds = pr_browser_ttl_seconds source,
     r_skip_no_cache = (case pr_skip_no_cache source of Some b \<Rightarrow> b | None \<Rightarrow> True),
     r_respect_request_no_cache = (case pr_respect_request_no_cache source of Some b \<Rightarrow> b | None \<Rightarrow> False),
     r_skip_request_cookie = (case pr_skip_request_cookie source of Some b \<Rightarrow> b | None \<Rightarrow> False),
     r_browser_ttl_mode = (case pr_browser_ttl_mode source of
         Some mode \<Rightarrow> mode
       | None \<Rightarrow> if pr_browser_ttl_seconds source > 0 then ''override_origin'' else ''default''),
     r_settings = (case pr_settings source of Some s \<Rightarrow> Some (rule_settings_from_proto s) | None \<Rightarrow> None)\<rparr>"

definition from_proto :: "CachePolicy \<Rightarrow> policy" where
  "from_proto input = \<lparr>
     p_id = pp_id input,
     p_revision = pp_revision input,
     p_enabled = pp_enabled input,
     p_storage = pp_storage input,
     p_memory_bytes = pp_memory_bytes input,
     p_disk_bytes = pp_disk_bytes input,
     p_memory_percent = pp_memory_percent input,
     p_disk_percent = pp_disk_percent input,
     p_memory_reserved_bytes = pp_memory_reserved_bytes input,
     p_disk_reserved_bytes = pp_disk_reserved_bytes input,
     p_max_object_bytes = pp_max_object_bytes input,
     p_directory = pp_directory input,
     p_rules = map rule_from_proto (pp_rules input)\<rparr>"

subsection \<open>Built-in rules\<close>

definition default_static_rule :: rule where
  "default_static_rule = default_rule\<lparr>r_id := ''cache-static'',
     r_name := map char_of [0xE9, 0x9D, 0x99, 0xE6, 0x80, 0x81, 0xE8, 0xB5, 0x84, 0xE6, 0xBA, 0x90 :: nat],
     r_patterns := [''.7z'', ''.avi'', ''.avif'', ''.apk'', ''.bin'', ''.bmp'', ''.bz'', ''.bz2'',
       ''.class'', ''.css'', ''.csv'', ''.doc'', ''.docx'', ''.dmg'', ''.ejs'', ''.eot'', ''.eps'', ''.exe'',
       ''.flac'', ''.gif'', ''.gz'', ''.ico'', ''.iso'', ''.jar'', ''.jpg'', ''.jpeg'', ''.js'', ''.mid'',
       ''.midi'', ''.mkv'', ''.mp3'', ''.mp4'', ''.ogg'', ''.otf'', ''.pdf'', ''.pict'', ''.pls'', ''.png'',
       ''.ppt'', ''.pptx'', ''.ps'', ''.rar'', ''.svg'', ''.svgz'', ''.swf'', ''.tar'', ''.tif'', ''.tiff'',
       ''.ttf'', ''.webm'', ''.webp'', ''.woff'', ''.woff2'', ''.xls'', ''.xlsx'', ''.zip'', ''.zst'']\<rparr>"

definition static_additions :: "string list" where
  "static_additions = [''.mjs'', ''.wasm'', ''.apng'', ''.jxl'', ''.heic'', ''.heif'', ''.jfif'', ''.cur'',
     ''.ttc'', ''.otc'', ''.sfnt'', ''.aac'', ''.wav'', ''.m4a'', ''.opus'', ''.oga'', ''.weba'', ''.m4v'', ''.mov'',
     ''.mpeg'', ''.mpg'', ''.ogv'', ''.m3u8'', ''.mpd'', ''.m4s'', ''.xz'', ''.txz'', ''.tgz'', ''.deb'', ''.rpm'',
     ''.cab'', ''.msi'', ''.msix'', ''.msixbundle'', ''.appx'', ''.appxbundle'', ''.epub'', ''.rtf'', ''.odp'', ''.ods'', ''.odt'']"

definition safe_static_rules :: "rule list" where
  "safe_static_rules =
     (let assets = default_static_rule;
        assets = assets\<lparr>r_patterns := filter (\<lambda>p. p \<noteq> ''.ejs'') (r_patterns assets) @ static_additions\<rparr>;
        settings = default_settings\<lparr>s_enabled := [''edge'', ''browser'', ''armor'', ''origin''], s_armor := True\<rparr> in
      [assets\<lparr>r_settings := Some settings, r_browser_ttl_mode := ''respect_origin''\<rparr>])"

subsection \<open>Round trips\<close>

interpretation status_ttl_codec: codec "\<lambda>v. status_ttl_to_proto v empty_CacheStatusTTL" status_ttl_from_proto "\<lambda>_. True"
  by standard (simp add: status_ttl_to_proto_def status_ttl_from_proto_def)

interpretation header_key_codec: codec "\<lambda>v. header_key_to_proto v empty_CacheHeaderKey" header_key_from_proto "\<lambda>_. True"
  by standard (simp add: header_key_to_proto_def header_key_from_proto_def empty_CacheHeaderKey_def)

interpretation vary_header_codec: codec "\<lambda>v. vary_header_to_proto v empty_CacheVaryHeader" vary_header_from_proto "\<lambda>_. True"
  by standard (simp add: vary_header_to_proto_def vary_header_from_proto_def empty_CacheVaryHeader_def)

lemmas element_roundtrips = status_ttl_codec.list_roundtrip header_key_codec.list_roundtrip
  vary_header_codec.list_roundtrip

interpretation cache_key_codec: codec "\<lambda>v. cache_key_to_proto v empty_CacheKeySettings" cache_key_from_proto "\<lambda>_. True"
  by standard (simp add: cache_key_to_proto_def cache_key_from_proto_def empty_CacheKeySettings_def
      default_cache_key_def header_key_codec.list_roundtrip list_all_iff)

interpretation settings_codec: codec "\<lambda>v. settings_to_proto v empty_CacheRuleSettings" rule_settings_from_proto "\<lambda>_. True"
  by standard (simp add: settings_to_proto_def rule_settings_from_proto_def empty_CacheRuleSettings_def
      default_settings_def value_or_empty_def cache_key_codec.roundtrip element_roundtrips list_all_iff)

text \<open>The status codes of a rule are narrowed to 32 bits on the way out.\<close>

definition codes_fit :: "rule \<Rightarrow> bool" where
  "codes_fit r \<longleftrightarrow> list_all (\<lambda>code. 0 \<le> code \<and> code < 2 ^ 32) (r_status_codes r)"

lemma map_uint_word_of_int:
  "list_all (\<lambda>code. 0 \<le> code \<and> code < 2 ^ 32) codes \<Longrightarrow> map (uint \<circ> (word_of_int :: int \<Rightarrow> 32 word)) codes = codes"
  by (induction codes) (auto simp: uint_word_of_int take_bit_int_eq_self)

lemma codes_roundtrip: "codes_fit v \<Longrightarrow> map uint (map word_of_int (r_status_codes v) :: 32 word list) = r_status_codes v"
  unfolding codes_fit_def by (simp add: map_uint_word_of_int)

lemma settings_option_roundtrip:
  "(case (case s of None \<Rightarrow> None | Some s \<Rightarrow> Some (settings_to_proto s (value_or_empty None empty_CacheRuleSettings))) of
     Some s \<Rightarrow> Some (rule_settings_from_proto s) | None \<Rightarrow> None) = s"
  by (cases s) (simp_all add: value_or_empty_def settings_codec.roundtrip)

interpretation rule_codec: codec "\<lambda>v. rule_to_proto v empty_CacheRule" rule_from_proto codes_fit
proof
  fix v
  assume "codes_fit v"
  then show "rule_from_proto (rule_to_proto v empty_CacheRule) = v"
    unfolding rule_to_proto_def rule_from_proto_def empty_CacheRule_def
    by (simp only: CacheRule.simps append_Nil codes_roundtrip settings_option_roundtrip option.case) simp
qed

interpretation policy_codec: codec "\<lambda>v. to_proto v empty_CachePolicy" from_proto "\<lambda>v. list_all codes_fit (p_rules v)"
proof
  fix v :: policy
  assume "list_all codes_fit (p_rules v)"
  from rule_codec.list_roundtrip [OF this] show "from_proto (to_proto v empty_CachePolicy) = v"
    unfolding to_proto_def from_proto_def empty_CachePolicy_def
    by (simp only: CachePolicy.simps append_Nil map_map) simp
qed

lemma valid_codes_fit: "rule_error R m {} r = None \<Longrightarrow> codes_fit r"
proof -
  assume "rule_error R m {} r = None"
  then have "\<not> bad_methods r" by (simp add: rule_error_def)
  then have "list_all (\<lambda>code. 200 \<le> code \<and> code \<le> 599 \<and> code \<noteq> 206 \<and> code \<noteq> 304) (r_status_codes r)"
    unfolding bad_methods_def by blast
  then show ?thesis unfolding codes_fit_def by (rule list.pred_mono_strong) simp
qed

text \<open>
  Claim C28.  A policy that passes validation crosses the control protocol unchanged: writing it into a
  fresh message and reading the message back gives the same policy, rules and settings included.
\<close>

theorem valid_policy_roundtrip:
  assumes "validate R v = None"
  shows "from_proto (to_proto v empty_CachePolicy) = v"
  using assms
  by (intro policy_codec.roundtrip)
    (auto simp: validate_def rules_loop_None list_all_iff intro: valid_codes_fit)

theorem valid_policy_roundtrip_witness:
  "\<exists>R. validate R (default_policy\<lparr>p_rules := [sample_rule]\<rparr>) = None \<and>
    from_proto (to_proto (default_policy\<lparr>p_rules := [sample_rule]\<rparr>) empty_CachePolicy) = default_policy\<lparr>p_rules := [sample_rule]\<rparr>"
  using valid_policy_roundtrip [OF sample_policy_accepted] sample_policy_accepted by blast

definition static_pattern_ok :: "string \<Rightarrow> bool" where
  "static_pattern_ok p \<longleftrightarrow> p \<noteq> [] \<and> clean_text p 512 \<and> hd p = CHR ''.'' \<and> 2 \<le> length p \<and> \<not> list_ex (\<lambda>c. c \<in> set ''/?#* '') p"

lemma static_patterns_ok:
  "list_all static_pattern_ok (r_patterns default_static_rule)" "list_all static_pattern_ok static_additions"
  by code_simp+

definition safe_static_settings :: rule_settings where
  "safe_static_settings = default_settings\<lparr>s_enabled := [''edge'', ''browser'', ''armor'', ''origin''], s_armor := True\<rparr>"

lemma safe_static_settings_valid: "validate_settings safe_static_settings = None"
  using default_settings_valid
  by (simp add: validate_settings_None safe_static_settings_def default_settings_def setting_names_def bad_advanced_def)

lemma pattern_error_static:
  "r_match_type item = ''extension'' \<Longrightarrow> static_pattern_ok p \<Longrightarrow> pattern_error R item p = None"
  by (auto simp: pattern_error_def static_pattern_ok_def)

lemma static_rule_valid:
  assumes "list_all static_pattern_ok ps" and "ps \<noteq> []" and "length ps \<le> 128"
  shows "rule_error R 536870912 {} (default_static_rule\<lparr>r_patterns := ps, r_settings := Some safe_static_settings,
    r_browser_ttl_mode := ''respect_origin''\<rparr>) = None"
proof -
  let ?r = "default_static_rule\<lparr>r_patterns := ps, r_settings := Some safe_static_settings, r_browser_ttl_mode := ''respect_origin''\<rparr>"
  have "r_match_type ?r = ''extension''" by (simp add: default_static_rule_def default_rule_def)
  then have "first_error (map (pattern_error R ?r) ps) = None"
    using assms(1) pattern_error_static [of ?r] by (auto simp: first_error_None list_all_iff)
  moreover have "clean_text (r_name default_static_rule) 100" by code_simp
  ultimately show ?thesis
    using assms(2,3) safe_static_settings_valid
    by (simp add: rule_error_def bad_rule_def match_types_def bad_methods_def)
       (simp add: default_static_rule_def default_rule_def)
qed

text \<open>
  The built-in static rules are acceptable in the default policy and cache no ejs files.
\<close>

theorem safe_static_rules_valid:
  "validate R (default_policy\<lparr>p_rules := safe_static_rules\<rparr>) = None \<and>
    list_all (\<lambda>r. ''.ejs'' \<notin> set (r_patterns r)) safe_static_rules"
proof
  define ps where "ps = filter (\<lambda>p. p \<noteq> ''.ejs'') (r_patterns default_static_rule) @ static_additions"
  have rules: "safe_static_rules = [default_static_rule\<lparr>r_patterns := ps, r_settings := Some safe_static_settings,
    r_browser_ttl_mode := ''respect_origin''\<rparr>]"
    by (simp add: safe_static_rules_def Let_def ps_def safe_static_settings_def)
  have "list_all static_pattern_ok ps" using static_patterns_ok by (auto simp: ps_def list_all_iff)
  moreover have "ps \<noteq> []" "length ps \<le> 128" by (simp_all add: ps_def static_additions_def default_static_rule_def)
  ultimately have "rules_loop R 536870912 {} safe_static_rules = None"
    unfolding rules by (simp add: static_rule_valid)
  then show "validate R (default_policy\<lparr>p_rules := safe_static_rules\<rparr>) = None"
    using default_storage_valid [of safe_static_rules] arg_cong [OF rules, of length]
    by (simp add: validate_def default_policy_def)
  show "list_all (\<lambda>r. ''.ejs'' \<notin> set (r_patterns r)) safe_static_rules"
    unfolding rules by (simp add: ps_def static_additions_def)
qed

end
