(* ===== verification/Website_Proto.thy ===== *)
theory Website_Proto
  imports Cache_Proto
begin

text \<open>
  The messages of \<open>src/node/proto/edge_control.proto\<close> that describe a published website, as the
  generated classes present them: the fields read by the code modelled here, absent submessages as
  \<open>None\<close>, repeated fields as lists, 32-bit unsigned fields as \<open>nat\<close>.
\<close>

record HeaderMutation =
  hm_name :: string
  hm_value :: string

record RouteCondition =
  rc_source :: string
  rc_name :: string
  rc_op :: string
  rc_value :: string

record RouteRule =
  rr_id :: string
  rr_enabled :: bool
  rr_match_type :: string
  rr_path :: string
  rr_methods :: "string list"
  rr_action :: string
  rr_rewrite_path :: string
  rr_redirect_url :: string
  rr_redirect_status :: nat
  rr_request_headers :: "HeaderMutation list"
  rr_response_headers :: "HeaderMutation list"
  rr_origin_ids :: "string list"
  rr_origin_group :: string
  rr_name :: string
  rr_description :: string
  rr_hostnames :: "string list"
  rr_rewrite_mode :: string
  rr_query_mode :: string
  rr_query_string :: string
  rr_conditions :: "RouteCondition list"

record Domain =
  d_hostname :: string
  d_https_enabled :: bool
  d_certificate_digest :: string

record Origin =
  o_id :: string
  o_protocol :: string
  o_host :: string
  o_port :: nat
  o_role :: string
  o_weight :: nat
  o_enabled :: bool
  o_group :: string

record SecurityListEntry =
  sle_value :: string
  sle_expires_unix_ms :: nat

record SecurityList =
  sl_name :: string
  sl_type :: string
  sl_entries :: "string list"
  sl_members :: "SecurityListEntry list"

record SecurityRule =
  sr_id :: string
  sr_enabled :: bool
  sr_expression :: string
  sr_action :: string
  sr_response_status :: nat
  sr_response_content_type :: string
  sr_response_body :: string
  sr_name :: string
  sr_skip_stages :: "string list"

record CcRule =
  cr_id :: string
  cr_enabled :: bool
  cr_expression :: string
  cr_requests :: nat
  cr_window_seconds :: nat
  cr_mitigation_seconds :: nat
  cr_action :: string
  cr_name :: string
  cr_response_status :: nat
  cr_response_content_type :: string
  cr_response_body :: string

record ManagedSecurity =
  ms_enabled :: bool
  ms_paranoia_level :: nat
  ms_inbound_threshold :: nat
  ms_body_limit_bytes :: nat
  ms_detection_only :: bool
  ms_excluded_rules :: "nat list"

record SecurityPolicy =
  sp_id :: string
  sp_name :: string
  sp_revision :: int
  sp_custom_rules :: "SecurityRule list"
  sp_cc_rules :: "CcRule list"
  sp_managed :: "ManagedSecurity option"
  sp_lists :: "SecurityList list"

record Website =
  w_id :: string
  w_enabled :: bool
  w_revision :: int
  w_domains :: "Domain list"
  w_origins :: "Origin list"
  w_origin_connect_timeout_seconds :: nat
  w_origin_read_timeout_seconds :: nat
  w_health_check_enabled :: bool
  w_https_enabled :: bool
  w_minimum_tls_version :: string
  w_force_https :: bool
  w_hsts_enabled :: bool
  w_health_check_path :: string
  w_health_check_interval_seconds :: nat
  w_health_check_timeout_seconds :: nat
  w_healthy_threshold :: nat
  w_unhealthy_threshold :: nat
  w_response_compression_enabled :: bool
  w_response_compression_min_bytes :: nat
  w_response_compression_algorithms :: "string list"
  w_response_compression_mime_types :: "string list"
  w_response_compression_extensions :: "string list"
  w_response_compression_excluded_extensions :: "string list"
  w_response_compression_max_bytes :: nat
  w_access_log_status_code_ranges :: "string list"
  w_route_rules :: "RouteRule list"
  w_health_check_expected_status :: nat
  w_default_origin_group :: string
  w_response_cache :: "CachePolicy option"
  w_origin_http_version :: string
  w_security :: "SecurityPolicy option"

text \<open>The group an origin or a rule names; an empty name is the group \<open>default\<close>.\<close>

definition group_or_default :: "string \<Rightarrow> string" where
  "group_or_default g = (if g = [] then ''default'' else g)"

text \<open>A message of which nothing is set.\<close>

definition empty_RouteRule :: RouteRule where
  "empty_RouteRule = \<lparr>rr_id = [], rr_enabled = False, rr_match_type = [], rr_path = [], rr_methods = [],
     rr_action = [], rr_rewrite_path = [], rr_redirect_url = [], rr_redirect_status = 0,
     rr_request_headers = [], rr_response_headers = [], rr_origin_ids = [], rr_origin_group = [],
     rr_name = [], rr_description = [], rr_hostnames = [], rr_rewrite_mode = [], rr_query_mode = [],
     rr_query_string = [], rr_conditions = []\<rparr>"

definition empty_Website :: Website where
  "empty_Website = \<lparr>w_id = [], w_enabled = False, w_revision = 0, w_domains = [], w_origins = [],
     w_origin_connect_timeout_seconds = 0, w_origin_read_timeout_seconds = 0,
     w_health_check_enabled = False, w_https_enabled = False, w_minimum_tls_version = [],
     w_force_https = False, w_hsts_enabled = False, w_health_check_path = [],
     w_health_check_interval_seconds = 0, w_health_check_timeout_seconds = 0,
     w_healthy_threshold = 0, w_unhealthy_threshold = 0, w_response_compression_enabled = False,
     w_response_compression_min_bytes = 0, w_response_compression_algorithms = [],
     w_response_compression_mime_types = [], w_response_compression_extensions = [],
     w_response_compression_excluded_extensions = [], w_response_compression_max_bytes = 0,
     w_access_log_status_code_ranges = [], w_route_rules = [], w_health_check_expected_status = 0,
     w_default_origin_group = [], w_response_cache = None, w_origin_http_version = [],
     w_security = None\<rparr>"

end
