(* ===== verification/Match_List.thy ===== *)
theory Match_List
  imports Prelude
begin

text \<open>
  \<open>src/node/data/request_match_list.h\<close>: the lists of addresses, countries, AS numbers and user
  agents a security expression refers to.  Address lists become interval trees stored in a vector
  (nodes refer to each other by index) and searched with pruning by the largest range end and the
  latest expiry of a subtree.  Address parsing is asio's: the record \<open>asio\<close> of the calls the code
  makes.  A 16-byte array is a list of 8-bit words under the lexicographic order of \<open>std::array\<close>.
\<close>

type_synonym bytes = "8 word list"

datatype address = V4 bytes | V6 bytes nat

text \<open>\<open>V6 bytes scope_id\<close>; the calls of \<open>asio::ip\<close>.\<close>

record asio =
  make_address :: "string \<Rightarrow> address option"
  is_v4_mapped :: "bytes \<Rightarrow> bool"
  v4_from_mapped :: "bytes \<Rightarrow> bytes"

record request_list_value =
  v_value :: string
  v_expires_unix_ms :: nat

record range =
  r_first :: bytes
  r_last :: bytes
  r_expires :: nat

text \<open>A child index; \<open>None\<close> is \<open>no_node\<close>.\<close>

record tree_node =
  n_value :: range
  n_maximum_end :: bytes
  n_maximum_expiry :: nat
  n_left :: "nat option"
  n_right :: "nat option"

record request_match_list =
  l_type :: string
  l_strings :: "string \<rightharpoonup> nat"
  l_ipv4 :: "range list"
  l_ipv6 :: "range list"
  l_ipv4_tree :: "tree_node list"
  l_ipv6_tree :: "tree_node list"
  l_has_expiration :: bool

datatype list_error =
    Invalid_entry | Invalid_country | Invalid_asn | Invalid_type | Invalid_address | Invalid_prefix

subsection \<open>Addresses and networks\<close>

definition is_v4 :: "address \<Rightarrow> bool" where
  "is_v4 a = (case a of V4 _ \<Rightarrow> True | V6 _ _ \<Rightarrow> False)"

definition scoped :: "address \<Rightarrow> bool" where
  "scoped a = (case a of V4 _ \<Rightarrow> False | V6 _ scope_id \<Rightarrow> scope_id \<noteq> 0)"

definition mapped :: "asio \<Rightarrow> address \<Rightarrow> bool" where
  "mapped A a = (case a of V4 _ \<Rightarrow> False | V6 bs _ \<Rightarrow> is_v4_mapped A bs)"

definition unmap :: "asio \<Rightarrow> address \<Rightarrow> address" where
  "unmap A a = (case a of V4 bs \<Rightarrow> V4 bs | V6 bs _ \<Rightarrow> V4 (v4_from_mapped A bs))"

definition key :: "address \<Rightarrow> bytes" where
  "key a = (case a of V4 bs \<Rightarrow> bs @ replicate (16 - length bs) 0 | V6 bs _ \<Rightarrow> bs)"

definition bit_mask :: "nat \<Rightarrow> 8 word" where
  "bit_mask i = push_bit (7 - i mod 8) 1"

function widen :: "nat \<Rightarrow> nat \<Rightarrow> range \<Rightarrow> range" where
  "widen i width v =
     (if i < width then
        widen (i + 1) width
          (v\<lparr>r_first := (r_first v)[i div 8 := r_first v ! (i div 8) AND NOT (bit_mask i)],
             r_last := (r_last v)[i div 8 := r_last v ! (i div 8) OR bit_mask i]\<rparr>)
      else v)"
  by pat_completeness auto
termination
  by (relation "measure (\<lambda>(i, width, v). width - i)") auto

declare widen.simps [simp del]

definition parse_prefix :: "nat \<Rightarrow> string option \<Rightarrow> nat option" where
  "parse_prefix width suffix =
     (case suffix of
        None \<Rightarrow> Some width
      | Some text \<Rightarrow>
          (case from_chars u32_max text of
             None \<Rightarrow> None
           | Some (prefix, rest) \<Rightarrow> if rest \<noteq> [] \<or> prefix > width then None else Some prefix))"

text \<open>\<open>add_network\<close> up to the choice of the vector: the normalised address and its range.\<close>

definition network :: "asio \<Rightarrow> string \<Rightarrow> nat \<Rightarrow> list_error + (address \<times> range)" where
  "network A input expires =
     (case cut_at CHR ''/'' input of (text, suffix) \<Rightarrow>
      case make_address A text of
        None \<Rightarrow> Inl Invalid_address
      | Some address \<Rightarrow>
          if scoped address then Inl Invalid_address
          else
            let width = (if is_v4 address then 32 else 128) in
            case parse_prefix width suffix of
              None \<Rightarrow> Inl Invalid_prefix
            | Some prefix \<Rightarrow>
                let (address, prefix, width) =
                  (if mapped A address \<and> prefix \<ge> 96 then (unmap A address, prefix - 96, 32)
                   else (address, prefix, width)) in
                Inr (address, widen prefix width
                  \<lparr>r_first = key address, r_last = key address, r_expires = expires\<rparr>))"

definition add_network :: "asio \<Rightarrow> string \<Rightarrow> nat \<Rightarrow> request_match_list \<Rightarrow>
    list_error + request_match_list" where
  "add_network A input expires l =
     bind_result (network A input expires) (\<lambda>(address, v).
       Inr (if is_v4 address then l\<lparr>l_ipv4 := l_ipv4 l @ [v]\<rparr> else l\<lparr>l_ipv6 := l_ipv6 l @ [v]\<rparr>))"

subsection \<open>The interval tree\<close>

definition absorb :: "tree_node list \<Rightarrow> nat option \<Rightarrow> tree_node \<Rightarrow> tree_node" where
  "absorb tree child node =
     (case child of
        None \<Rightarrow> node
      | Some c \<Rightarrow> node\<lparr>n_maximum_end := max (n_maximum_end node) (n_maximum_end (tree ! c)),
                      n_maximum_expiry := max (n_maximum_expiry node) (n_maximum_expiry (tree ! c))\<rparr>)"

text \<open>The bounds \<open>begin\<close> and \<open>end\<close> are \<open>start\<close> and \<open>stop\<close>; \<open>begin \<le> end\<close> at every call of the source.\<close>

function build_tree :: "range list \<Rightarrow> tree_node list \<Rightarrow> nat \<Rightarrow> nat \<Rightarrow> nat option \<times> tree_node list" where
  "build_tree ranges tree start stop =
     (if stop \<le> start then (None, tree)
      else
        let middle = start + (stop - start) div 2; index = length tree; v = ranges ! middle;
          tree = tree @ [\<lparr>n_value = v, n_maximum_end = r_last v, n_maximum_expiry = r_expires v,
                          n_left = None, n_right = None\<rparr>];
          (left, tree) = build_tree ranges tree start middle;
          (right, tree) = build_tree ranges tree (middle + 1) stop;
          node = absorb tree right (absorb tree left ((tree ! index)\<lparr>n_left := left, n_right := right\<rparr>)) in
        (Some index, tree[index := node]))"
  by pat_completeness auto
termination
  by (relation "measure (\<lambda>(ranges, tree, start, stop). stop - start)") auto

declare build_tree.simps [simp del]

text \<open>
  The search; \<open>None\<close> when the fuel runs out or an index is outside the vector, which does not
  happen on the trees the constructor builds.
\<close>

primrec in_tree :: "nat \<Rightarrow> tree_node list \<Rightarrow> nat option \<Rightarrow> bytes \<Rightarrow> nat \<Rightarrow> bool option" where
  "in_tree 0 tree index v now = (if index = None then Some False else None)"
| "in_tree (Suc fuel) tree index v now =
     (case index of
        None \<Rightarrow> Some False
      | Some i \<Rightarrow>
          if length tree \<le> i then None
          else
            let node = tree ! i in
            if n_maximum_end node < v \<or> n_maximum_expiry node \<le> now then Some False
            else
              (case in_tree fuel tree (n_left node) v now of
                 None \<Rightarrow> None
               | Some True \<Rightarrow> Some True
               | Some False \<Rightarrow>
                   if r_first (n_value node) > v then Some False
                   else if v \<le> r_last (n_value node) \<and> r_expires (n_value node) > now then Some True
                   else in_tree fuel tree (n_right node) v now))"

subsection \<open>Construction and lookup\<close>

definition range_less :: "range \<Rightarrow> range \<Rightarrow> bool" where
  "range_less a b \<longleftrightarrow> r_first a < r_first b"

text \<open>The merging loop; the accumulator holds the merged ranges, last one first.\<close>

fun merge_ranges :: "range list \<Rightarrow> range list \<Rightarrow> range list" where
  "merge_ranges merged [] = rev merged"
| "merge_ranges [] (item # items) = merge_ranges [item] items"
| "merge_ranges (back # merged) (item # items) =
     (if r_expires item = r_expires back \<and> r_first item \<le> r_last back
      then merge_ranges (back\<lparr>r_last := max (r_last back) (r_last item)\<rparr> # merged) items
      else merge_ranges (item # back # merged) items)"

definition valid_asn :: "string \<Rightarrow> bool" where
  "valid_asn item =
     (case from_chars u32_max item of
        None \<Rightarrow> False
      | Some (n, rest) \<Rightarrow> rest = [] \<and> n \<noteq> 0 \<and> to_string n = item)"

definition add_string :: "string \<Rightarrow> nat \<Rightarrow> request_match_list \<Rightarrow> list_error + request_match_list" where
  "add_string item expires l =
     (if item = [] \<or> length item > 2048 then Inl Invalid_entry
      else if l_type l = ''country'' \<and>
        (length item \<noteq> 2 \<or> \<not> is_upper (item ! 0) \<or> \<not> is_upper (item ! 1)) then Inl Invalid_country
      else if l_type l = ''asn'' \<and> \<not> valid_asn item then Inl Invalid_asn
      else Inr (l\<lparr>l_strings := (l_strings l)(item \<mapsto>
        (case l_strings l item of None \<Rightarrow> expires | Some old \<Rightarrow> max old expires))\<rparr>))"

definition add_entry :: "asio \<Rightarrow> request_list_value \<Rightarrow> request_match_list \<Rightarrow>
    list_error + request_match_list" where
  "add_entry A source l =
     (let l = l\<lparr>l_has_expiration := l_has_expiration l \<or> v_expires_unix_ms source \<noteq> 0\<rparr>;
        expires = (if v_expires_unix_ms source \<noteq> 0 then v_expires_unix_ms source else u64_max) in
      if l_type l = ''ip'' then add_network A (v_value source) expires l
      else add_string (v_value source) expires l)"

primrec add_entries :: "asio \<Rightarrow> request_list_value list \<Rightarrow> request_match_list \<Rightarrow>
    list_error + request_match_list" where
  "add_entries A [] l = Inr l"
| "add_entries A (e # es) l = bind_result (add_entry A e l) (add_entries A es)"

definition index_ranges :: "range list \<Rightarrow> tree_node list" where
  "index_ranges ranges =
     (let merged = merge_ranges [] (sort_less range_less ranges) in
      snd (build_tree merged [] 0 (length merged)))"

definition make_list :: "asio \<Rightarrow> string \<Rightarrow> request_list_value list \<Rightarrow>
    list_error + request_match_list" where
  "make_list A type entries =
     bind_result (add_entries A entries
       \<lparr>l_type = type, l_strings = Map.empty, l_ipv4 = [], l_ipv6 = [], l_ipv4_tree = [],
        l_ipv6_tree = [], l_has_expiration = False\<rparr>) (\<lambda>l.
     if type \<noteq> ''ip'' \<and> type \<noteq> ''asn'' \<and> type \<noteq> ''country'' \<and> type \<noteq> ''user_agent''
     then Inl Invalid_type
     else Inr (l\<lparr>l_ipv4_tree := index_ranges (l_ipv4 l), l_ipv6_tree := index_ranges (l_ipv6 l),
                 l_ipv4 := [], l_ipv6 := []\<rparr>))"

definition permanent_values :: "string list \<Rightarrow> request_list_value list" where
  "permanent_values entries = map (\<lambda>item. \<lparr>v_value = item, v_expires_unix_ms = 0\<rparr>) entries"

definition normalise :: "asio \<Rightarrow> address \<Rightarrow> address" where
  "normalise A a = (if mapped A a then unmap A a else a)"

text \<open>\<open>clock\<close> is the system time in milliseconds, read only by lists that have expiring entries.\<close>

definition list_contains :: "asio \<Rightarrow> request_match_list \<Rightarrow> nat \<Rightarrow> string \<Rightarrow> bool option" where
  "list_contains A l clock input =
     (let now = (if l_has_expiration l then clock else 0) in
      if l_type l \<noteq> ''ip'' then
        Some (case l_strings l input of None \<Rightarrow> False | Some expires \<Rightarrow> expires > now)
      else
        (case make_address A input of
           None \<Rightarrow> Some False
         | Some address \<Rightarrow>
             if scoped address then Some False
             else
               let address = normalise A address;
                 tree = (if is_v4 address then l_ipv4_tree l else l_ipv6_tree l) in
               if tree = [] then Some False
               else in_tree (length tree) tree (Some 0) (key address) now))"

subsection \<open>Building and searching the tree\<close>

text \<open>A range covers an address at a time.\<close>

definition covers :: "bytes \<Rightarrow> nat \<Rightarrow> range \<Rightarrow> bool" where
  "covers v now r \<longleftrightarrow> r_first r \<le> v \<and> v \<le> r_last r \<and> now < r_expires r"

text \<open>
  The nodes reachable from an index, all at or after \<open>low\<close>, hold these ranges in order, and the
  node's bounds are bounds of its subtree.
\<close>

inductive represents :: "tree_node list \<Rightarrow> nat \<Rightarrow> nat option \<Rightarrow> range list \<Rightarrow> bool" for tree where
  empty: "represents tree low None []"
| node: "low \<le> i \<Longrightarrow> i < length tree \<Longrightarrow>
    represents tree (Suc i) (n_left (tree ! i)) ls \<Longrightarrow>
    represents tree (Suc i) (n_right (tree ! i)) rs \<Longrightarrow>
    \<forall>r \<in> set (ls @ n_value (tree ! i) # rs).
      r_last r \<le> n_maximum_end (tree ! i) \<and> r_expires r \<le> n_maximum_expiry (tree ! i) \<Longrightarrow>
    represents tree low (Some i) (ls @ n_value (tree ! i) # rs)"

inductive_cases represents_NoneE: "represents tree low None xs"
inductive_cases represents_SomeE: "represents tree low (Some i) xs"

lemma represents_agree:
  assumes "represents tree low idx xs"
    and "\<And>j. low \<le> j \<Longrightarrow> j < length tree \<Longrightarrow> j < length tree' \<and> tree' ! j = tree ! j"
  shows "represents tree' low idx xs"
  using assms
proof (induction rule: represents.induct)
  case (node low i ls rs)
  then have same: "i < length tree'" "tree' ! i = tree ! i" by auto
  show ?case
    using represents.node [of low i tree' ls rs] node same by auto
qed (auto intro: represents.empty)

lemma represents_low: "represents tree low idx xs \<Longrightarrow> low' \<le> low \<Longrightarrow> represents tree low' idx xs"
proof (erule represents.cases, goal_cases)
  case (2 low i ls rs)
  then show ?case using represents.node [of low' i tree ls rs] by auto
qed (simp add: represents.empty)

lemma in_tree_represents:
  assumes "represents tree low idx xs" and "length tree \<le> low + fuel" and "sorted (map r_first xs)"
  shows "in_tree fuel tree idx v now = Some (\<exists>r \<in> set xs. covers v now r)"
  using assms
proof (induction arbitrary: fuel rule: represents.induct)
  case (empty low)
  then show ?case by (cases fuel) auto
next
  case (node low i ls rs)
  let ?n = "tree ! i"
  from node.hyps node.prems obtain f where fuel: "fuel = Suc f" "length tree \<le> Suc i + f"
    by (cases fuel) auto
  have sorted: "sorted (map r_first ls)" "sorted (map r_first rs)"
    "\<And>r. r \<in> set rs \<Longrightarrow> r_first (n_value ?n) \<le> r_first r"
    using node.prems(2) by (auto simp: sorted_append)
  have left: "in_tree f tree (n_left ?n) v now = Some (\<exists>r \<in> set ls. covers v now r)"
    and right: "in_tree f tree (n_right ?n) v now = Some (\<exists>r \<in> set rs. covers v now r)"
    using node.IH fuel sorted by auto
  have pruned: "\<not> covers v now r"
    if "n_maximum_end ?n < v \<or> n_maximum_expiry ?n \<le> now" "r \<in> set (ls @ n_value ?n # rs)" for r
  proof -
    have "r_last r \<le> n_maximum_end ?n" "r_expires r \<le> n_maximum_expiry ?n"
      using node.hyps that(2) by blast+
    with that(1) show ?thesis by (auto simp: covers_def)
  qed
  have above: "\<not> covers v now r" if "v < r_first (n_value ?n)" "r \<in> set (n_value ?n # rs)" for r
    using sorted(3) that by (fastforce simp: covers_def)
  show ?case
  proof (cases "n_maximum_end ?n < v \<or> n_maximum_expiry ?n \<le> now")
    case True
    with pruned have "\<not> (\<exists>r \<in> set (ls @ n_value ?n # rs). covers v now r)" by blast
    with True node.hyps(2) fuel show ?thesis by (auto simp: Let_def)
  next
    case False
    then have "in_tree fuel tree (Some i) v now =
        (if \<exists>r \<in> set ls. covers v now r then Some True
         else if v < r_first (n_value ?n) then Some False
         else if covers v now (n_value ?n) then Some True
         else Some (\<exists>r \<in> set rs. covers v now r))"
      using node.hyps(2) fuel left right covers_def [of v now "n_value ?n"]
      by (cases "\<exists>r \<in> set ls. covers v now r") (auto simp: Let_def not_less)
    with above show ?thesis by auto
  qed
qed

text \<open>\<open>slice a b xs\<close> holds the elements \<open>a \<le> i < b\<close>.\<close>

abbreviation slice :: "nat \<Rightarrow> nat \<Rightarrow> 'a list \<Rightarrow> 'a list" where
  "slice a b xs \<equiv> drop a (take b xs)"

lemma slice_split:
  "a \<le> m \<Longrightarrow> m < b \<Longrightarrow> b \<le> length xs \<Longrightarrow> slice a b xs = slice a m xs @ xs ! m # slice (Suc m) b xs"
proof -
  assume le: "a \<le> m" "m < b" "b \<le> length xs"
  then have "take b xs = take m xs @ xs ! m # slice (Suc m) b xs"
    using id_take_nth_drop [of m "take b xs"] by (simp add: min_def)
  then have "slice a b xs = drop a (take m xs @ xs ! m # slice (Suc m) b xs)" by simp
  with le show ?thesis by simp
qed

lemma absorb_keeps [simp]:
  "n_value (absorb tree c node) = n_value node" "n_left (absorb tree c node) = n_left node"
  "n_right (absorb tree c node) = n_right node"
  by (simp_all add: absorb_def split: option.split)

lemma absorb_mono:
  "e \<le> n_maximum_end node \<Longrightarrow> e \<le> n_maximum_end (absorb tree c node)"
  "x \<le> n_maximum_expiry node \<Longrightarrow> x \<le> n_maximum_expiry (absorb tree c node)"
  by (auto simp: absorb_def le_max_iff_disj split: option.split)

lemma absorb_bounds:
  assumes "represents tree low c xs" and "r \<in> set xs"
  shows "r_last r \<le> n_maximum_end (absorb tree c node) \<and> r_expires r \<le> n_maximum_expiry (absorb tree c node)"
proof (cases c)
  case None
  with assms show ?thesis by (auto elim: represents_NoneE)
next
  case (Some i)
  from assms(1) [unfolded Some] show ?thesis
    by (rule represents_SomeE) (use assms(2) Some in \<open>auto simp: absorb_def le_max_iff_disj\<close>)
qed

lemma built_node:
  assumes left: "represents tree\<^sub>1 (Suc (length tree)) left ls"
      "take (Suc (length tree)) tree\<^sub>1 = tree @ [node\<^sub>0]" "Suc (length tree) \<le> length tree\<^sub>1"
    and right: "represents tree\<^sub>2 (length tree\<^sub>1) right rs"
      "take (length tree\<^sub>1) tree\<^sub>2 = tree\<^sub>1" "length tree\<^sub>1 \<le> length tree\<^sub>2"
    and node\<^sub>0: "node\<^sub>0 = \<lparr>n_value = v, n_maximum_end = r_last v, n_maximum_expiry = r_expires v, n_left = None, n_right = None\<rparr>"
    and node: "node = absorb tree\<^sub>2 right (absorb tree\<^sub>2 left (node\<^sub>0\<lparr>n_left := left, n_right := right\<rparr>))"
  shows "represents (tree\<^sub>2[length tree := node]) (length tree) (Some (length tree)) (ls @ v # rs)
    \<and> take (length tree) (tree\<^sub>2[length tree := node]) = tree \<and> length tree \<le> length tree\<^sub>2"
proof -
  let ?i = "length tree" and ?tree = "tree\<^sub>2[length tree := node]"
  have old: "tree\<^sub>2 ! j = tree\<^sub>1 ! j" if "j < length tree\<^sub>1" for j
    using right(2,3) that by (metis nth_take)
  have at: "?tree ! ?i = node" and len: "?i < length tree\<^sub>2" using left(3) right(3) by auto
  have left2: "represents tree\<^sub>2 (Suc ?i) left ls"
    by (rule represents_agree [OF left(1)]) (use old right(3) in auto)
  have reps: "represents ?tree (Suc ?i) left ls" "represents ?tree (Suc ?i) right rs"
    by (rule represents_agree [OF left2], simp)
      (rule represents_agree [OF represents_low [OF right(1)]], use left(3) in auto)
  have fields: "n_value node = v" "n_left node = left" "n_right node = right"
    by (simp_all add: node node\<^sub>0)
  have bounds: "r_last r \<le> n_maximum_end node \<and> r_expires r \<le> n_maximum_expiry node" if r: "r \<in> set (ls @ v # rs)" for r
  proof -
    consider "r \<in> set ls" | "r = v" | "r \<in> set rs" using r by auto
    then show ?thesis
    proof cases
      case 1
      with absorb_bounds [OF left2 1] show ?thesis unfolding node by (auto intro: absorb_mono)
    next
      case 2
      then show ?thesis unfolding node node\<^sub>0 by (auto intro!: absorb_mono)
    next
      case 3
      with absorb_bounds [OF right(1) 3] show ?thesis unfolding node by auto
    qed
  qed
  have "represents ?tree ?i (Some ?i) (ls @ n_value (?tree ! ?i) # rs)"
    by (rule represents.node) (use reps bounds len at fields in auto)
  moreover have "take ?i ?tree = tree"
  proof -
    have "take ?i ?tree = take ?i (take (Suc ?i) (take (length tree\<^sub>1) tree\<^sub>2))"
      using left(3) by (simp add: min_def)
    also have "\<dots> = tree" unfolding right(2) left(2) by simp
    finally show ?thesis .
  qed
  ultimately show ?thesis using at fields len by simp
qed

lemma build_tree_represents:
  assumes "build_tree ranges tree start stop = (idx, tree')" and "start \<le> stop" and "stop \<le> length ranges"
  shows "represents tree' (length tree) idx (slice start stop ranges) \<and> take (length tree) tree' = tree
    \<and> length tree \<le> length tree' \<and> (start < stop \<longrightarrow> idx = Some (length tree))"
  using assms
proof (induction ranges tree start stop arbitrary: idx tree' rule: build_tree.induct)
  case (1 ranges tree start stop)
  show ?case
  proof (cases "stop \<le> start")
    case True
    with "1.prems" show ?thesis by (auto simp: build_tree.simps [of ranges tree start stop] intro: represents.empty)
  next
    case False
    define m where "m = start + (stop - start) div 2"
    define node\<^sub>0 where "node\<^sub>0 = \<lparr>n_value = ranges ! m, n_maximum_end = r_last (ranges ! m),
      n_maximum_expiry = r_expires (ranges ! m), n_left = None, n_right = None\<rparr>"
    obtain left tree\<^sub>1 where l: "build_tree ranges (tree @ [node\<^sub>0]) start m = (left, tree\<^sub>1)" by force
    obtain right tree\<^sub>2 where r: "build_tree ranges tree\<^sub>1 (m + 1) stop = (right, tree\<^sub>2)" by force
    have m: "start \<le> m" "m < stop" using False by (auto simp: m_def)
    have IH1: "represents tree\<^sub>1 (Suc (length tree)) left (slice start m ranges)"
      "take (Suc (length tree)) tree\<^sub>1 = tree @ [node\<^sub>0]" "Suc (length tree) \<le> length tree\<^sub>1"
      using "1.IH"(1) [OF False m_def refl refl _ l] m "1.prems" by (auto simp: node\<^sub>0_def)
    have IH2: "represents tree\<^sub>2 (length tree\<^sub>1) right (slice (Suc m) stop ranges)"
      "take (length tree\<^sub>1) tree\<^sub>2 = tree\<^sub>1" "length tree\<^sub>1 \<le> length tree\<^sub>2"
      using "1.IH"(2) [OF False m_def refl refl _ l [symmetric] refl r] m "1.prems" by (auto simp: node\<^sub>0_def)
    define node where "node = absorb tree\<^sub>2 right (absorb tree\<^sub>2 left (node\<^sub>0\<lparr>n_left := left, n_right := right\<rparr>))"
    have "tree\<^sub>1 ! length tree = node\<^sub>0"
      using IH1(2,3) by (metis lessI nth_append_length nth_take)
    then have "tree\<^sub>2 ! length tree = node\<^sub>0"
      using IH2(2,3) IH1(3) by (metis Suc_le_eq nth_take)
    then have res: "idx = Some (length tree)" "tree' = tree\<^sub>2[length tree := node]"
      using "1.prems"(1) l r False
      by (auto simp: build_tree.simps [of ranges tree start stop] Let_def m_def node\<^sub>0_def node_def)
    show ?thesis
      using built_node [OF IH1 IH2 node\<^sub>0_def node_def] m slice_split [of start m stop ranges] "1.prems" res
      by (simp add: node\<^sub>0_def)
  qed
qed

subsection \<open>Sorting and merging keep the covered addresses\<close>

interpretation range_order: strict_weak_order range_less
  by unfold_locales (auto simp: range_less_def)

lemma sort_ranges_sorted: "sorted (map r_first (sort_less range_less ranges))"
  using range_order.sort_less_sorted [of ranges]
  by (simp add: sorted_wrt_map range_less_def not_less)

lemma merge_ranges_correct:
  assumes "sorted (map r_first (rev merged @ items))"
  shows "sorted (map r_first (merge_ranges merged items)) \<and>
    ((\<exists>r \<in> set (merge_ranges merged items). covers v now r) \<longleftrightarrow> (\<exists>r \<in> set (merged @ items). covers v now r))"
  using assms
proof (induction merged items rule: merge_ranges.induct)
  case (3 prev merged item items)
  show ?case
  proof (cases "r_expires item = r_expires prev \<and> r_first item \<le> r_last prev")
    case True
    let ?prev = "prev\<lparr>r_last := max (r_last prev) (r_last item)\<rparr>"
    have "r_first prev \<le> r_first item" using "3.prems" by (auto simp: sorted_append)
    with True have "covers v now ?prev \<longleftrightarrow> covers v now prev \<or> covers v now item"
      by (auto simp: covers_def le_max_iff_disj intro: order_trans)
    moreover have "sorted (map r_first (rev (?prev # merged) @ items))"
      using "3.prems" by (auto simp: sorted_append)
    ultimately show ?thesis using "3.IH"(1) [OF True] True by auto
  next
    case False
    with 3 show ?thesis by auto
  qed
qed auto

lemma index_ranges_search:
  "(if index_ranges ranges = [] then Some False
    else in_tree (length (index_ranges ranges)) (index_ranges ranges) (Some 0) v now) =
    Some (\<exists>r \<in> set ranges. covers v now r)"
proof -
  let ?merged = "merge_ranges [] (sort_less range_less ranges)"
  obtain idx tree where b: "build_tree ?merged [] 0 (length ?merged) = (idx, tree)" by force
  then have tree: "index_ranges ranges = tree" by (simp add: index_ranges_def)
  have rep: "represents tree 0 idx ?merged" "?merged \<noteq> [] \<Longrightarrow> idx = Some 0"
    using build_tree_represents [OF b] by auto
  have merged: "sorted (map r_first ?merged)"
    "(\<exists>r \<in> set ?merged. covers v now r) \<longleftrightarrow> (\<exists>r \<in> set ranges. covers v now r)"
    using merge_ranges_correct [of "[]" "sort_less range_less ranges"] sort_ranges_sorted by auto
  show ?thesis
  proof (cases "?merged = []")
    case True
    with b tree merged(2) show ?thesis by (simp add: build_tree.simps)
  next
    case False
    with rep have "represents tree 0 (Some 0) ?merged" by simp
    from in_tree_represents [OF this, of "length tree"] this merged tree show ?thesis
      by (auto elim: represents_SomeE)
  qed
qed

subsection \<open>Networks in bits\<close>

text \<open>Bit \<open>i\<close> of an address, the most significant bit of the first byte first.\<close>

definition net_bit :: "bytes \<Rightarrow> nat \<Rightarrow> bool" where
  "net_bit bs i \<longleftrightarrow> bit (bs ! (i div 8)) (7 - i mod 8)"

lemma bit_mask_at: "bit (bit_mask i) (7 - j mod 8) \<longleftrightarrow> j mod 8 = i mod 8"
proof -
  have "i mod 8 < 8" "j mod 8 < 8" by simp_all
  then show ?thesis by (auto simp: bit_mask_def bit_simps)
qed

lemma net_bit_update:
  assumes "i < 8 * length bs" and "j < 8 * length bs"
  shows "net_bit (bs[i div 8 := w]) j =
    (if j div 8 = i div 8 then bit w (7 - j mod 8) else net_bit bs j)"
  using assms by (auto simp: net_bit_def nth_list_update)

lemma same_bit: "j div 8 = i div 8 \<Longrightarrow> j mod 8 = i mod 8 \<longleftrightarrow> j = i" for i j :: nat
  by (metis div_mod_decomp)

lemma net_bit_clear_set:
  assumes "i < 8 * length bs" and "j < 8 * length bs"
  shows "net_bit (bs[i div 8 := bs ! (i div 8) AND NOT (bit_mask i)]) j \<longleftrightarrow> net_bit bs j \<and> j \<noteq> i"
    and "net_bit (bs[i div 8 := bs ! (i div 8) OR bit_mask i]) j \<longleftrightarrow> net_bit bs j \<or> j = i"
  using assms same_bit [of j i] net_bit_def [of bs j]
  by (auto simp: net_bit_update bit_mask_at bit_and_iff bit_or_iff bit_not_iff)

lemma widen_shape:
  assumes "length (r_first v) = n" and "length (r_last v) = n" and "width \<le> 8 * n"
  shows "length (r_first (widen i width v)) = n \<and> length (r_last (widen i width v)) = n \<and>
    r_expires (widen i width v) = r_expires v \<and>
    (\<forall>j < 8 * n. net_bit (r_first (widen i width v)) j = (net_bit (r_first v) j \<and> \<not> (i \<le> j \<and> j < width)) \<and>
       net_bit (r_last (widen i width v)) j = (net_bit (r_last v) j \<or> (i \<le> j \<and> j < width)))"
  using assms
proof (induction i width v rule: widen.induct)
  case (1 i width v)
  show ?case
  proof (cases "i < width")
    case False
    with "1.prems" show ?thesis by (auto simp: widen.simps)
  next
    case True
    let ?v = "v\<lparr>r_first := (r_first v)[i div 8 := r_first v ! (i div 8) AND NOT (bit_mask i)],
             r_last := (r_last v)[i div 8 := r_last v ! (i div 8) OR bit_mask i]\<rparr>"
    have step: "net_bit (r_first ?v) j = (net_bit (r_first v) j \<and> j \<noteq> i)"
      "net_bit (r_last ?v) j = (net_bit (r_last v) j \<or> j = i)" if "j < 8 * n" for j
      using net_bit_clear_set [of i _ j] that True "1.prems" by auto
    have w: "widen i width v = widen (i + 1) width ?v" using True by (subst widen.simps) simp
    have range: "j = i \<or> Suc i \<le> j \<and> j < width \<longleftrightarrow> i \<le> j \<and> j < width" for j using True by auto
    show ?thesis
      unfolding w using "1.IH" [OF True] "1.prems" step range by auto
  qed
qed

lemma word8_less_bit:
  fixes u v :: "8 word"
  assumes "k < 8" and "\<And>j. k < j \<Longrightarrow> j < 8 \<Longrightarrow> bit u j = bit v j" and "\<not> bit u k" and "bit v k"
  shows "u < v"
proof -
  have "bit u j = bit v j" if "k < j" for j
    using assms(2) that by (cases "j < 8") (auto dest: bit_imp_le_length)
  then have "drop_bit (Suc k) u = drop_bit (Suc k) v"
    by (intro bit_word_eqI) (auto simp: bit_simps)
  then have "unat u div 2 ^ Suc k = unat v div 2 ^ Suc k"
    by (metis drop_bit_eq_div unat_drop_bit_eq)
  then have same: "unat u div 2 ^ k div 2 = unat v div 2 ^ k div 2"
    by (simp add: div_mult2_eq power_Suc2 del: power_Suc)
  have "even (unat u div 2 ^ k)" "odd (unat v div 2 ^ k)"
    using assms(3,4) bit_iff_odd [of "unat u" k] bit_iff_odd [of "unat v" k] by (auto simp: bit_unsigned_iff)
  with same have "unat u div 2 ^ k < unat v div 2 ^ k"
    by (metis dvd_mult_div_cancel odd_two_times_div_two_succ lessI Suc_eq_plus1)
  then have "unat u < unat v" by (metis div_le_mono not_less)
  then show ?thesis by (simp add: word_less_nat_alt)
qed

lemma net_bits_byte:
  assumes "k < length x" and "length y = length x" and "\<And>b. b < 8 \<Longrightarrow> net_bit x (8 * k + b) = net_bit y (8 * k + b)"
  shows "x ! k = y ! k"
proof (rule bit_word_eqI)
  fix n assume n: "n < LENGTH(8)"
  define b where "b = 7 - n"
  with n have "b < 8" "7 - b = n" by auto
  then show "bit (x ! k) n = bit (y ! k) n"
    using assms(3) [of b] by (simp add: net_bit_def)
qed

lemma first_net_bit:
  assumes "length x = n" and "length y = n" and "x \<noteq> y"
  obtains i where "i < 8 * n" "\<And>j. j < i \<Longrightarrow> net_bit x j = net_bit y j" "net_bit x i \<noteq> net_bit y i"
proof -
  obtain k where "k < n" "x ! k \<noteq> y ! k" using assms by (auto simp: list_eq_iff_nth_eq)
  then obtain b where b: "b < 8" "net_bit x (8 * k + b) \<noteq> net_bit y (8 * k + b)"
    using net_bits_byte [of k x y] assms(1,2) by auto
  let ?P = "\<lambda>i. net_bit x i \<noteq> net_bit y i"
  show thesis
  proof (rule that)
    show "(LEAST i. ?P i) < 8 * n" using Least_le [of ?P, OF b(2)] b(1) \<open>k < n\<close> by linarith
    show "?P (LEAST i. ?P i)" using b(2) by (rule LeastI)
  qed (use not_less_Least in blast)
qed

lemma less_by_net_bit:
  assumes "length x = n" and "length y = n" and "i < 8 * n"
    and same: "\<And>j. j < i \<Longrightarrow> net_bit x j = net_bit y j" and "\<not> net_bit x i" and "net_bit y i"
  shows "x < y"
proof -
  let ?k = "i div 8"
  have k: "?k < length x" "?k < length y" using assms(1-3) by auto
  have "x ! j = y ! j" if "j < ?k" for j
    using net_bits_byte [of j x y] that same k assms(1,2) by auto
  then have "take ?k x = take ?k y" by (intro nth_take_lemma) (use k in auto)
  moreover have "x ! ?k < y ! ?k"
  proof (rule word8_less_bit)
    fix j assume j: "7 - i mod 8 < j" "j < 8"
    define b where "b = 7 - j"
    with j have b: "b < i mod 8" "7 - b = j" by auto
    then have "b < 8" "8 * ?k + b < i" using mult_div_mod_eq [of 8 i] mod_less_divisor [of 8 i] by linarith+
    with same [of "8 * ?k + b"] b(2) show "bit (x ! ?k) j = bit (y ! ?k) j" by (simp add: net_bit_def)
  qed (use assms(5,6) in \<open>auto simp: net_bit_def\<close>)
  ultimately have "take ?k x @ x ! ?k # drop (Suc ?k) x < take ?k x @ y ! ?k # drop (Suc ?k) y"
    by (simp add: list_less_def lexord_append_leftI)
  with \<open>take ?k x = take ?k y\<close> k show ?thesis by (metis id_take_nth_drop)
qed

lemma le_by_net_bits:
  assumes "length x = n" and "length y = n"
    and "\<And>i. i < 8 * n \<Longrightarrow> (\<And>j. j < i \<Longrightarrow> net_bit x j = net_bit y j) \<Longrightarrow> net_bit x i \<Longrightarrow> net_bit y i"
  shows "x \<le> y"
proof (rule ccontr)
  assume "\<not> x \<le> y"
  then have "y < x" "x \<noteq> y" by auto
  from first_net_bit [OF assms(1,2) this(2)] obtain i where i: "i < 8 * n"
    "\<And>j. j < i \<Longrightarrow> net_bit x j = net_bit y j" "net_bit x i \<noteq> net_bit y i" by blast
  have "\<not> net_bit x i" "net_bit y i" using i(3) assms(3) [OF i(1,2)] by blast+
  from less_by_net_bit [OF assms(1,2) i(1,2) this] \<open>y < x\<close> show False by simp
qed

text \<open>The range of a network holds the addresses that share the network's first bits.\<close>

lemma network_range:
  assumes "length a = n" and "length v = n" and "width \<le> 8 * n"
    and r: "r = widen prefix width \<lparr>r_first = a, r_last = a, r_expires = e\<rparr>"
    and tail: "\<And>j. width \<le> j \<Longrightarrow> j < 8 * n \<Longrightarrow> net_bit v j = net_bit a j"
    and prefix: "prefix \<le> width"
  shows "r_first r \<le> v \<and> v \<le> r_last r \<longleftrightarrow> (\<forall>j < prefix. net_bit v j = net_bit a j)"
proof -
  note w = widen_shape [of "\<lparr>r_first = a, r_last = a, r_expires = e\<rparr>" n width prefix]
  have shape: "length (r_first r) = n" "length (r_last r) = n" unfolding r using w assms by auto
  have bits: "net_bit (r_first r) j = (net_bit a j \<and> \<not> (prefix \<le> j \<and> j < width))"
      "net_bit (r_last r) j = (net_bit a j \<or> (prefix \<le> j \<and> j < width))" if "j < 8 * n" for j
    unfolding r using w assms that by auto
  show ?thesis
  proof
    assume same: "\<forall>j < prefix. net_bit v j = net_bit a j"
    then have "net_bit v j = net_bit a j \<or> prefix \<le> j \<and> j < width" if "j < 8 * n" for j
      using tail that by (meson not_le)
    with bits have le: "net_bit (r_first r) j \<Longrightarrow> net_bit v j" "net_bit v j \<Longrightarrow> net_bit (r_last r) j"
      if "j < 8 * n" for j using that by blast+
    show "r_first r \<le> v \<and> v \<le> r_last r"
      by (intro conjI le_by_net_bits [OF shape(1) assms(2)] le_by_net_bits [OF assms(2) shape(2)])
        (erule (1) le)+
  next
    assume range: "r_first r \<le> v \<and> v \<le> r_last r"
    show "\<forall>j < prefix. net_bit v j = net_bit a j"
    proof (rule ccontr)
      assume "\<not> ?thesis"
      then obtain i where i: "i < prefix \<and> net_bit v i \<noteq> net_bit a i"
        and least: "\<forall>j < i. \<not> (j < prefix \<and> net_bit v j \<noteq> net_bit a j)"
        using exists_least_iff [of "\<lambda>j. j < prefix \<and> net_bit v j \<noteq> net_bit a j"] by blast
      with i have i: "i < prefix" "net_bit v i \<noteq> net_bit a i" "\<And>j. j < i \<Longrightarrow> net_bit v j = net_bit a j" by auto
      have n: "i < 8 * n" using i(1) prefix assms(3) by simp
      have agree: "net_bit v j = net_bit (r_first r) j" "net_bit v j = net_bit (r_last r) j" if "j < i" for j
        using that i bits n by auto
      show False
      proof (cases "net_bit v i")
        case True
        have "r_last r < v"
          by (rule less_by_net_bit [OF shape(2) assms(2) n]) (use agree True i bits n in auto)
        with range show False by (meson leD)
      next
        case False
        have "v < r_first r"
          by (rule less_by_net_bit [OF assms(2) shape(1) n]) (use agree False i bits n in auto)
        with range show False by (meson leD)
      qed
    qed
  qed
qed

subsection \<open>The list\<close>

text \<open>
  What the code relies on of asio: an IPv4 address has four bytes and an IPv6 address sixteen,
  also the one inside a mapped address.
\<close>

definition address_sizes :: "asio \<Rightarrow> bool" where
  "address_sizes A \<longleftrightarrow>
     (\<forall>text bs. make_address A text = Some (V4 bs) \<longrightarrow> length bs = 4) \<and>
     (\<forall>text bs scope. make_address A text = Some (V6 bs scope) \<longrightarrow> length bs = 16) \<and>
     (\<forall>bs. is_v4_mapped A bs \<longrightarrow> length (v4_from_mapped A bs) = 4)"

text \<open>The specification: an entry's network and the addresses that belong to it.\<close>

definition address_width :: "address \<Rightarrow> nat" where
  "address_width a = (if is_v4 a then 32 else 128)"

definition network_of :: "asio \<Rightarrow> string \<Rightarrow> (address \<times> nat) option" where
  "network_of A input =
     (case cut_at CHR ''/'' input of (text, suffix) \<Rightarrow>
      case make_address A text of
        None \<Rightarrow> None
      | Some a \<Rightarrow>
          if scoped a then None
          else map_option (\<lambda>p. if mapped A a \<and> 96 \<le> p then (unmap A a, p - 96) else (a, p))
            (parse_prefix (address_width a) suffix))"

definition in_network :: "address \<Rightarrow> address \<times> nat \<Rightarrow> bool" where
  "in_network a net \<longleftrightarrow> is_v4 a = is_v4 (fst net) \<and>
     (\<forall>j < snd net. net_bit (key a) j = net_bit (key (fst net)) j)"

definition entry_matches :: "asio \<Rightarrow> string \<Rightarrow> string \<Rightarrow> bool" where
  "entry_matches A item input =
     (case make_address A input of
        None \<Rightarrow> False
      | Some a \<Rightarrow> \<not> scoped a \<and>
          (case network_of A item of None \<Rightarrow> False | Some net \<Rightarrow> in_network (normalise A a) net))"

definition unexpired :: "nat \<Rightarrow> request_list_value \<Rightarrow> bool" where
  "unexpired clock e \<longleftrightarrow> v_expires_unix_ms e = 0 \<or> clock < v_expires_unix_ms e"

definition expires_at :: "request_list_value \<Rightarrow> nat" where
  "expires_at e = (if v_expires_unix_ms e \<noteq> 0 then v_expires_unix_ms e else u64_max)"

lemma parse_prefix_le: "parse_prefix width suffix = Some p \<Longrightarrow> p \<le> width"
  by (auto simp: parse_prefix_def split: option.splits if_splits)

lemma network_eq:
  "network A input e = Inr (a, r) \<longleftrightarrow>
    (\<exists>p. network_of A input = Some (a, p) \<and>
      r = widen p (address_width a) \<lparr>r_first = key a, r_last = key a, r_expires = e\<rparr>)"
  by (auto simp: network_def network_of_def address_width_def Let_def mapped_def unmap_def is_v4_def
      split: prod.splits option.splits if_splits address.splits)

text \<open>A key of 16 bytes, with zeros after the four bytes of an IPv4 address.\<close>

definition sized :: "address \<Rightarrow> bool" where
  "sized a \<longleftrightarrow> length (key a) = 16 \<and>
     (is_v4 a \<longrightarrow> (\<forall>j. 32 \<le> j \<longrightarrow> j < 128 \<longrightarrow> \<not> net_bit (key a) j))"

lemma sized_V4: "length bs = 4 \<Longrightarrow> sized (V4 bs)"
  by (auto simp: sized_def key_def net_bit_def nth_append)

lemma make_address_sized:
  assumes "address_sizes A" and "make_address A text = Some a"
  shows "sized a"
proof (cases a)
  case (V4 bs)
  with assms show ?thesis using sized_V4 by (auto simp: address_sizes_def)
next
  case (V6 bs scope)
  with assms have "length bs = 16" unfolding address_sizes_def by blast
  with V6 show ?thesis by (simp add: sized_def key_def is_v4_def)
qed

lemma unmap_sized: "address_sizes A \<Longrightarrow> mapped A a \<Longrightarrow> sized (unmap A a)"
  by (auto simp: mapped_def unmap_def sized_V4 address_sizes_def split: address.splits)

lemma normalise_sized: "address_sizes A \<Longrightarrow> make_address A text = Some a \<Longrightarrow> sized (normalise A a)"
  by (auto simp: normalise_def make_address_sized unmap_sized)

lemma network_of_sized:
  assumes lib: "address_sizes A" and "network_of A input = Some (a, p)"
  shows "sized a \<and> p \<le> address_width a"
proof -
  from assms(2) obtain t suffix b q where b: "make_address A t = Some b"
    "parse_prefix (address_width b) suffix = Some q"
    "(a, p) = (if mapped A b \<and> 96 \<le> q then (unmap A b, q - 96) else (b, q))"
    by (auto simp: network_of_def split: prod.splits option.splits if_splits)
  have "is_v4 (unmap A b)" by (auto simp: unmap_def is_v4_def split: address.splits)
  moreover have "\<not> is_v4 b" if "mapped A b" using that by (auto simp: mapped_def is_v4_def split: address.splits)
  ultimately show ?thesis
    using b make_address_sized [OF lib b(1)] unmap_sized [OF lib, of b] parse_prefix_le [OF b(2)]
    by (auto simp: address_width_def split: if_splits)
qed

lemma network_covers:
  assumes lib: "address_sizes A" and net: "network A input e = Inr (a, r)" and v: "sized v" and same: "is_v4 v = is_v4 a"
  shows "covers (key v) now r \<longleftrightarrow> now < e \<and> (case network_of A input of None \<Rightarrow> False | Some net \<Rightarrow> in_network v net)"
proof -
  from net obtain p where p: "network_of A input = Some (a, p)"
    "r = widen p (address_width a) \<lparr>r_first = key a, r_last = key a, r_expires = e\<rparr>"
    by (auto simp: network_eq)
  from network_of_sized [OF lib p(1)] have a: "sized a" "p \<le> address_width a" by auto
  have w: "address_width a \<le> 8 * 16" by (simp add: address_width_def)
  have "r_first r \<le> key v \<and> key v \<le> r_last r \<longleftrightarrow> (\<forall>j < p. net_bit (key v) j = net_bit (key a) j)"
    by (rule network_range [OF _ _ w p(2) _ a(2)]) (use a v same in \<open>auto simp: sized_def address_width_def split: if_splits\<close>)
  moreover have "r_expires r = e" unfolding p(2)
    using widen_shape [of "\<lparr>r_first = key a, r_last = key a, r_expires = e\<rparr>" 16 "address_width a" p] a w
    by (auto simp: sized_def)
  ultimately show ?thesis using p(1) same by (auto simp: covers_def in_network_def)
qed

definition entry_range :: "asio \<Rightarrow> bool \<Rightarrow> request_list_value \<Rightarrow> range \<Rightarrow> bool" where
  "entry_range A v4 e r \<longleftrightarrow> (\<exists>a. network A (v_value e) (expires_at e) = Inr (a, r) \<and> is_v4 a = v4)"

lemma add_entries_ip:
  assumes "add_entries A es l = Inr l'" and "l_type l = ''ip''"
  shows "l_type l' = ''ip'' \<and>
    l_has_expiration l' = (l_has_expiration l \<or> (\<exists>e \<in> set es. v_expires_unix_ms e \<noteq> 0)) \<and>
    set (l_ipv4 l') = set (l_ipv4 l) \<union> {r. \<exists>e \<in> set es. entry_range A True e r} \<and>
    set (l_ipv6 l') = set (l_ipv6 l) \<union> {r. \<exists>e \<in> set es. entry_range A False e r} \<and>
    (\<forall>e \<in> set es. \<exists>a r. network A (v_value e) (expires_at e) = Inr (a, r))"
  using assms
proof (induction es arbitrary: l)
  case (Cons e es)
  from Cons.prems obtain a r m where net: "network A (v_value e) (expires_at e) = Inr (a, r)"
    and m: "m = l\<lparr>l_has_expiration := l_has_expiration l \<or> v_expires_unix_ms e \<noteq> 0\<rparr>"
    and rest: "add_entries A es (if is_v4 a then m\<lparr>l_ipv4 := l_ipv4 m @ [r]\<rparr> else m\<lparr>l_ipv6 := l_ipv6 m @ [r]\<rparr>) = Inr l'"
    by (auto simp: add_entry_def Let_def add_network_def bind_result_Inr_iff expires_at_def)
  show ?case
    using Cons.IH [OF rest] Cons.prems(2) net m
    by (auto simp: entry_range_def split: if_splits)
qed simp

lemma make_list_ip:
  assumes "make_list A ''ip'' entries = Inr l"
  obtains v4 v6 where "l_type l = ''ip''" "l_ipv4_tree l = index_ranges v4" "l_ipv6_tree l = index_ranges v6"
    "set v4 = {r. \<exists>e \<in> set entries. entry_range A True e r}"
    "set v6 = {r. \<exists>e \<in> set entries. entry_range A False e r}"
    "l_has_expiration l \<longleftrightarrow> (\<exists>e \<in> set entries. v_expires_unix_ms e \<noteq> 0)"
    "\<forall>e \<in> set entries. \<exists>a r. network A (v_value e) (expires_at e) = Inr (a, r)"
proof -
  from assms obtain m where m: "add_entries A entries \<lparr>l_type = ''ip'', l_strings = Map.empty, l_ipv4 = [],
      l_ipv6 = [], l_ipv4_tree = [], l_ipv6_tree = [], l_has_expiration = False\<rparr> = Inr m"
    and l: "l = m\<lparr>l_ipv4_tree := index_ranges (l_ipv4 m), l_ipv6_tree := index_ranges (l_ipv6 m), l_ipv4 := [], l_ipv6 := []\<rparr>"
    by (auto simp: make_list_def bind_result_Inr_iff split: if_splits)
  show thesis
    by (rule that [of "l_ipv4 m" "l_ipv6 m"]) (use add_entries_ip [OF m] l in auto)
qed

text \<open>The clock is a signed 64-bit count in the source, so an entry without expiry stays.\<close>

lemma unexpired_iff:
  assumes "clock < u64_max" and "e \<in> set entries"
    and "now = (if \<exists>e \<in> set entries. v_expires_unix_ms e \<noteq> 0 then clock else 0)"
  shows "now < expires_at e \<longleftrightarrow> unexpired clock e"
  using assms by (auto simp: expires_at_def unexpired_def)

lemma search_entries:
  assumes lib: "address_sizes A" and ok: "\<forall>e \<in> set entries. \<exists>a r. network A (v_value e) (expires_at e) = Inr (a, r)"
    and v: "sized v" and ranges: "set ranges = {r. \<exists>e \<in> set entries. entry_range A (is_v4 v) e r}"
  shows "(\<exists>r \<in> set ranges. covers (key v) now r) \<longleftrightarrow>
    (\<exists>e \<in> set entries. now < expires_at e \<and>
       (case network_of A (v_value e) of None \<Rightarrow> False | Some net \<Rightarrow> in_network v net))"
    (is "?L \<longleftrightarrow> ?R")
proof
  assume ?L
  then obtain e a r where e: "e \<in> set entries" "network A (v_value e) (expires_at e) = Inr (a, r)"
    "is_v4 a = is_v4 v" "covers (key v) now r" by (auto simp: ranges entry_range_def)
  with network_covers [OF lib e(2) v] show ?R by auto
next
  assume ?R
  then obtain e net where e: "e \<in> set entries" "now < expires_at e" "network_of A (v_value e) = Some net"
    "in_network v net" by (auto split: option.splits)
  with ok obtain a r where net: "network A (v_value e) (expires_at e) = Inr (a, r)" by blast
  with e have same: "is_v4 v = is_v4 a" by (auto simp: network_eq in_network_def)
  with network_covers [OF lib net v same] e net ranges show ?L by (auto simp: entry_range_def)
qed

lemma address_list_contains:
  assumes lib: "address_sizes A" and list: "make_list A ''ip'' entries = Inr l" and clock: "clock < u64_max"
  shows "list_contains A l clock input =
    Some (\<exists>e \<in> set entries. unexpired clock e \<and> entry_matches A (v_value e) input)"
proof -
  from make_list_ip [OF list] obtain v4 v6 where l: "l_type l = ''ip''"
    "l_ipv4_tree l = index_ranges v4" "l_ipv6_tree l = index_ranges v6"
    "set v4 = {r. \<exists>e \<in> set entries. entry_range A True e r}"
    "set v6 = {r. \<exists>e \<in> set entries. entry_range A False e r}"
    "l_has_expiration l \<longleftrightarrow> (\<exists>e \<in> set entries. v_expires_unix_ms e \<noteq> 0)"
    "\<forall>e \<in> set entries. \<exists>a r. network A (v_value e) (expires_at e) = Inr (a, r)" by blast
  show ?thesis
  proof (cases "make_address A input")
    case None
    then show ?thesis by (simp add: list_contains_def l entry_matches_def)
  next
    case (Some a)
    define v where "v = normalise A a"
    define now where "now = (if l_has_expiration l then clock else 0)"
    let ?ranges = "if is_v4 v then v4 else v6"
    have v: "sized v" unfolding v_def by (rule normalise_sized [OF lib Some])
    have ranges: "set ?ranges = {r. \<exists>e \<in> set entries. entry_range A (is_v4 v) e r}" using l(4,5) by simp
    have search: "(\<exists>r \<in> set ?ranges. covers (key v) now r) \<longleftrightarrow>
        (\<exists>e \<in> set entries. unexpired clock e \<and>
           (case network_of A (v_value e) of None \<Rightarrow> False | Some net \<Rightarrow> in_network v net))"
      unfolding search_entries [OF lib l(7) v ranges]
      using unexpired_iff [OF clock _ now_def [unfolded l(6)]] by blast
    have "list_contains A l clock input =
        (if scoped a then Some False else
          (if index_ranges ?ranges = [] then Some False
           else in_tree (length (index_ranges ?ranges)) (index_ranges ?ranges) (Some 0) (key v) now))"
      using Some l(1-3) by (simp add: list_contains_def Let_def v_def now_def)
    moreover have "entry_matches A item input \<longleftrightarrow> \<not> scoped a \<and>
        (case network_of A item of None \<Rightarrow> False | Some net \<Rightarrow> in_network v net)" for item
      by (auto simp: entry_matches_def Some v_def split: option.splits)
    ultimately show ?thesis using index_ranges_search [of ?ranges "key v" now] search by simp
  qed
qed

lemma add_entries_strings:
  assumes "add_entries A es l = Inr l'" and "l_type l \<noteq> ''ip''"
  shows "l_type l' = l_type l \<and>
    l_has_expiration l' = (l_has_expiration l \<or> (\<exists>e \<in> set es. v_expires_unix_ms e \<noteq> 0)) \<and>
    ((\<exists>x. l_strings l' item = Some x \<and> now < x) \<longleftrightarrow>
      (\<exists>x. l_strings l item = Some x \<and> now < x) \<or> (\<exists>e \<in> set es. v_value e = item \<and> now < expires_at e))"
  using assms
proof (induction es arbitrary: l)
  case (Cons e es)
  from Cons.prems obtain m where m: "add_entry A e l = Inr m" and rest: "add_entries A es m = Inr l'"
    by (auto simp: bind_result_Inr_iff)
  from m Cons.prems(2) have "l_type m = l_type l"
    "l_has_expiration m = (l_has_expiration l \<or> v_expires_unix_ms e \<noteq> 0)"
    "l_strings m = (l_strings l)(v_value e \<mapsto>
        (case l_strings l (v_value e) of None \<Rightarrow> expires_at e | Some old \<Rightarrow> max old (expires_at e)))"
    unfolding add_entry_def expires_at_def [symmetric]
    by (auto simp: add_string_def Let_def split: if_splits)
  with Cons.IH [OF rest] Cons.prems(2) show ?case
    by (auto simp: less_max_iff_disj split: option.splits if_splits)
qed simp

text \<open>
  Claim C10.  An address list answers exactly what its entries say: an address (an IPv4-mapped one
  taken as IPv4) is in the list when some entry that has not expired is a network of the same
  family whose prefix bits it shares.  The search always returns: it neither runs out of fuel nor
  leaves the vector, for every clock value below the sentinel of entries without expiry.
\<close>

theorem ip_list_contains:
  assumes "address_sizes A" and "make_list A ''ip'' entries = Inr l" and "clock < u64_max"
  shows "list_contains A l clock input =
    Some (\<exists>e \<in> set entries. unexpired clock e \<and> entry_matches A (v_value e) input)"
  using assms by (rule address_list_contains)

text \<open>
  Claim C13.  A list of countries, AS numbers or user agents contains a text exactly when an entry
  that has not expired is that text; repeated entries count with their latest expiry.
\<close>

theorem text_list_contains:
  assumes "type \<noteq> ''ip''" and list: "make_list A type entries = Inr l" and clock: "clock < u64_max"
  shows "list_contains A l clock input =
    Some (\<exists>e \<in> set entries. unexpired clock e \<and> v_value e = input)"
proof -
  from list obtain m where m: "add_entries A entries \<lparr>l_type = type, l_strings = Map.empty, l_ipv4 = [],
      l_ipv6 = [], l_ipv4_tree = [], l_ipv6_tree = [], l_has_expiration = False\<rparr> = Inr m"
    and l: "l_type l = l_type m" "l_strings l = l_strings m" "l_has_expiration l = l_has_expiration m"
    by (auto simp: make_list_def bind_result_Inr_iff split: if_splits)
  define now where "now = (if \<exists>e \<in> set entries. v_expires_unix_ms e \<noteq> 0 then clock else 0)"
  note facts = add_entries_strings [OF m, of input now]
  have now: "(if l_has_expiration l then clock else 0) = now" using facts assms(1) by (simp add: l now_def)
  have "list_contains A l clock input = Some (\<exists>x. l_strings m input = Some x \<and> now < x)"
    unfolding list_contains_def Let_def now
    using facts assms(1) by (auto simp: l split: option.splits)
  also have "\<dots> = Some (\<exists>e \<in> set entries. unexpired clock e \<and> v_value e = input)"
    using facts assms(1) unexpired_iff [OF clock _ now_def] by auto
  finally show ?thesis .
qed

text \<open>A concrete address library for the witnesses: two spellings it knows.\<close>

definition sample_asio :: asio where
  "sample_asio = \<lparr>make_address = (\<lambda>text.
       if text = ''10.0.0.0'' then Some (V4 [10, 0, 0, 0])
       else if text = ''10.9.8.7'' then Some (V4 [10, 9, 8, 7]) else None),
     is_v4_mapped = (\<lambda>_. False), v4_from_mapped = (\<lambda>_. [])\<rparr>"

definition sample_entries :: "request_list_value list" where
  "sample_entries = [\<lparr>v_value = ''10.0.0.0/8'', v_expires_unix_ms = 5\<rparr>]"

definition sample_countries :: "request_list_value list" where
  "sample_countries = [\<lparr>v_value = ''DE'', v_expires_unix_ms = 0\<rparr>]"

lemma sample_lists_built:
  "\<not> isl (make_list sample_asio ''ip'' sample_entries)"
  "\<not> isl (make_list sample_asio ''country'' sample_countries)"
  by (simp_all add: make_list_def sample_entries_def sample_countries_def add_entry_def Let_def
      add_network_def network_def sample_asio_def cut_at_def scoped_def mapped_def parse_prefix_def is_v4_def
      from_chars_def digits_value_def byte_def is_digit_def is_upper_def add_string_def)

lemma not_isl_Inr: "\<not> isl m \<Longrightarrow> \<exists>x. m = Inr x"
  by (cases m) auto

theorem ip_list_contains_witness:
  "\<exists>l. make_list sample_asio ''ip'' sample_entries = Inr l \<and>
     list_contains sample_asio l 4 ''10.9.8.7'' =
       Some (\<exists>e \<in> set sample_entries. unexpired 4 e \<and> entry_matches sample_asio (v_value e) ''10.9.8.7'')"
proof -
  obtain l where l: "make_list sample_asio ''ip'' sample_entries = Inr l"
    using not_isl_Inr [OF sample_lists_built(1)] by blast
  have "address_sizes sample_asio" by (auto simp: address_sizes_def sample_asio_def split: if_splits)
  from ip_list_contains [OF this l, of 4] l show ?thesis by simp
qed

theorem text_list_contains_witness:
  "\<exists>l. make_list sample_asio ''country'' sample_countries = Inr l \<and>
     list_contains sample_asio l 4 ''DE'' =
       Some (\<exists>e \<in> set sample_countries. unexpired 4 e \<and> v_value e = ''DE'')"
proof -
  obtain l where l: "make_list sample_asio ''country'' sample_countries = Inr l"
    using not_isl_Inr [OF sample_lists_built(2)] by blast
  from text_list_contains [OF _ l, of 4] l show ?thesis by simp
qed

end
