(* ===== verification/Expression_Program.thy ===== *)
theory Expression_Program
  imports Request_Expression Match_List
begin

text \<open>
  \<open>src/node/data/request_expression.h\<close>: a worker compiles the postfix program of an expression
  (lists are resolved, patterns built) and runs it on a request with a stack of 256 booleans.
  Reading outside the stack, the front of an empty vector or a missing pattern is undefined in the
  source: the model returns \<open>None\<close> there, and the program of a parsed expression never does.
\<close>

record rule_match_request =
  q_target :: string
  q_method :: string
  q_host :: string
  q_secure :: bool
  q_headers :: "(string \<times> string) list"
  q_client_ip :: string
  q_country :: string
  q_asn :: string

record compiled_instruction =
  c_source :: expression_instruction
  c_pattern :: "(re2_options \<times> string) option"
  c_list :: "request_match_list option"

type_synonym list_map = "string \<rightharpoonup> request_match_list"

datatype compile_error =
    Parse_error expression_error nat | List_missing | List_type_mismatch | Unsupported_ip_comparison
  | List_error list_error | Pattern_error

subsection \<open>Compilation\<close>

definition list_type_mismatch :: "string \<Rightarrow> string \<Rightarrow> bool" where
  "list_type_mismatch name type \<longleftrightarrow>
     (name = ''ip.src'' \<and> type \<noteq> ''ip'') \<or>
     (name = ''ip.src.asnum'' \<and> type \<noteq> ''asn'') \<or>
     (name = ''ip.src.country'' \<and> type \<noteq> ''country'') \<or>
     (name = ''http.user_agent'' \<and> type \<noteq> ''user_agent'') \<or>
     (name \<noteq> ''ip.src'' \<and> name \<noteq> ''ip.src.asnum'' \<and> name \<noteq> ''ip.src.country'' \<and>
      name \<noteq> ''http.user_agent'')"

definition compile_list :: "asio \<Rightarrow> list_map \<Rightarrow> expression_instruction \<Rightarrow>
    compile_error + request_match_list option" where
  "compile_list A named i =
     (if i_list i \<noteq> [] then
        (case named (i_list i) of
           None \<Rightarrow> Inl List_missing
         | Some l \<Rightarrow> if list_type_mismatch (i_field i) (l_type l) then Inl List_type_mismatch else Inr (Some l))
      else if i_field i = ''ip.src'' then
        (if i_comparison i \<noteq> ''eq'' \<and> i_comparison i \<noteq> ''ne'' \<and> i_comparison i \<noteq> ''in''
         then Inl Unsupported_ip_comparison
         else (case make_list A ''ip'' (permanent_values (i_values i)) of
                 Inl e \<Rightarrow> Inl (List_error e) | Inr l \<Rightarrow> Inr (Some l)))
      else Inr None)"

definition regex_special :: "char \<Rightarrow> bool" where
  "regex_special c \<longleftrightarrow> c \<in> set (CHR 0x5C # ''.^$|()[]{}*+?'')"

fun wildcard_pattern :: "bool \<Rightarrow> string \<Rightarrow> string" where
  "wildcard_pattern escaped [] = []"
| "wildcard_pattern escaped (c # cs) =
     (if \<not> escaped \<and> c = CHR 0x5C then wildcard_pattern True cs
      else (if \<not> escaped \<and> c = CHR ''*'' then ''.*''
            else if regex_special c then [CHR 0x5C, c] else [c]) @ wildcard_pattern False cs)"

definition uses_pattern :: "expression_instruction \<Rightarrow> bool" where
  "uses_pattern i \<longleftrightarrow> i_comparison i = ''matches'' \<or> ends_with (i_comparison i) ''wildcard''"

definition compile_instruction :: "re2 \<Rightarrow> asio \<Rightarrow> list_map \<Rightarrow> expression_instruction \<Rightarrow>
    compile_error + compiled_instruction" where
  "compile_instruction R A named i =
     bind_result (compile_list A named i) (\<lambda>l.
     if uses_pattern i then
       (let options = \<lparr>case_sensitive = (i_comparison i \<noteq> ''wildcard''), dot_nl = True\<rparr>;
          pattern = (if i_comparison i = ''matches'' then hd (i_values i)
                     else wildcard_pattern False (hd (i_values i))) in
        if \<not> re2_ok R options pattern then Inl Pattern_error
        else Inr \<lparr>c_source = i, c_pattern = Some (options, pattern), c_list = l\<rparr>)
     else Inr \<lparr>c_source = i, c_pattern = None, c_list = l\<rparr>)"

primrec compile_program :: "re2 \<Rightarrow> asio \<Rightarrow> list_map \<Rightarrow> expression_instruction list \<Rightarrow>
    compile_error + compiled_instruction list" where
  "compile_program R A named [] = Inr []"
| "compile_program R A named (i # is) =
     bind_result (compile_instruction R A named i) (\<lambda>c.
     bind_result (compile_program R A named is) (\<lambda>cs. Inr (c # cs)))"

definition request_expression_program :: "re2 \<Rightarrow> asio \<Rightarrow> list_map \<Rightarrow> expression_context \<Rightarrow> string \<Rightarrow>
    compile_error + compiled_instruction list" where
  "request_expression_program R A named context text =
     (case parse R context text of
        Inl (e, unread) \<Rightarrow> Inl (Parse_error e unread)
      | Inr program \<Rightarrow> compile_program R A named program)"

subsection \<open>Comparisons\<close>

primrec first_header_in :: "(string \<times> string) list \<Rightarrow> string \<Rightarrow> string option" where
  "first_header_in [] name = None"
| "first_header_in (h # hs) name = (if ascii_equal (fst h) name then Some (snd h) else first_header_in hs name)"

definition first_header :: "rule_match_request \<Rightarrow> string \<Rightarrow> string option" where
  "first_header q name = first_header_in (q_headers q) name"

definition value_or :: "'a option \<Rightarrow> 'a \<Rightarrow> 'a" where
  "value_or x d = (case x of None \<Rightarrow> d | Some v \<Rightarrow> v)"

definition rfind_char :: "char \<Rightarrow> string \<Rightarrow> nat option" where
  "rfind_char c s = map_option (\<lambda>i. length s - 1 - i) (find_char c (rev s))"

definition path_extension :: "string \<Rightarrow> string" where
  "path_extension path =
     (case rfind_char CHR ''.'' path of
        None \<Rightarrow> []
      | Some dot \<Rightarrow>
          (case rfind_char CHR ''/'' path of
             None \<Rightarrow> drop (dot + 1) path
           | Some slash \<Rightarrow> if dot < slash then [] else drop (dot + 1) path))"

definition field_value :: "expression_instruction \<Rightarrow> rule_match_request \<Rightarrow> string option" where
  "field_value i q =
     (let path = before CHR ''?'' (q_target q); name = i_field i in
      if name = ''ip.src'' then Some (q_client_ip q)
      else if name = ''ip.src.country'' then Some (q_country q)
      else if name = ''ip.src.asnum'' then Some (q_asn q)
      else if name = ''http.host'' then Some (q_host q)
      else if name = ''http.request.method'' then Some (q_method q)
      else if name = ''http.request.uri.path'' \<or> name = ''raw.http.request.uri.path'' then Some path
      else if name = ''http.request.uri.query'' \<or> name = ''raw.http.request.uri.query'' then
        Some (value_or (snd (cut_at CHR ''?'' (q_target q))) [])
      else if name = ''http.request.uri.path.extension'' then Some (path_extension path)
      else if name = ''http.cookie'' then Some (value_or (first_header q ''Cookie'') [])
      else if name = ''http.user_agent'' then Some (value_or (first_header q ''User-Agent'') [])
      else if name = ''http.referer'' then Some (value_or (first_header q ''Referer'') [])
      else if name = ''http.request.headers'' then first_header q (i_header i)
      else if name = ''http.request.full_uri'' then
        Some ((if q_secure q then ''https://'' else ''http://'') @
          value_or (first_header q ''Host'') (q_host q) @ q_target q)
      else None)"

definition compare_value :: "re2 \<Rightarrow> compiled_instruction \<Rightarrow> string \<Rightarrow> bool option" where
  "compare_value R c v =
     (let i = c_source c; op = i_comparison i in
      if op = ''in'' then Some (v \<in> set (i_values i))
      else case i_values i of
        [] \<Rightarrow> None
      | expected # _ \<Rightarrow>
          if op = ''eq'' then Some (v = expected)
          else if op = ''ne'' then Some (v \<noteq> expected)
          else if op = ''contains'' then Some (contains v expected)
          else if op = ''starts_with'' then Some (starts_with v expected)
          else if op = ''ends_with'' then Some (ends_with v expected)
          else (case c_pattern c of
                  None \<Rightarrow> None
                | Some (options, pattern) \<Rightarrow>
                    Some (if op = ''matches'' then partial_match R options pattern v
                          else full_match R options pattern v)))"

definition compare :: "re2 \<Rightarrow> asio \<Rightarrow> nat \<Rightarrow> compiled_instruction \<Rightarrow> rule_match_request \<Rightarrow> bool option" where
  "compare R A clock c q =
     (case field_value (c_source c) q of
        None \<Rightarrow> Some False
      | Some v \<Rightarrow>
          let v = (if i_lower (c_source c) then map lower_ascii v else v) in
          (case c_list c of
             Some l \<Rightarrow>
               map_option (\<lambda>matched. if i_comparison (c_source c) = ''ne'' then \<not> matched else matched)
                 (list_contains A l clock v)
           | None \<Rightarrow> compare_value R c v))"

subsection \<open>The stack machine\<close>

definition stack_size :: nat where "stack_size = 256"

text \<open>The machine: the array and the number of slots in use.\<close>

record machine =
  stack :: "bool list"
  size_in_use :: nat

definition push :: "bool \<Rightarrow> machine \<Rightarrow> machine option" where
  "push b m = (if size_in_use m \<ge> length (stack m) then None
     else Some (m\<lparr>stack := (stack m)[size_in_use m := b], size_in_use := size_in_use m + 1\<rparr>))"

definition combine :: "(bool \<Rightarrow> bool \<Rightarrow> bool) \<Rightarrow> machine \<Rightarrow> machine option" where
  "combine f m =
     (if size_in_use m < 2 then None
      else let n = size_in_use m - 1 in
        Some (m\<lparr>stack := (stack m)[n - 1 := f (stack m ! (n - 1)) (stack m ! n)], size_in_use := n\<rparr>))"

definition machine_step :: "re2 \<Rightarrow> asio \<Rightarrow> nat \<Rightarrow> rule_match_request \<Rightarrow> compiled_instruction \<Rightarrow>
    machine \<Rightarrow> machine option" where
  "machine_step R A clock q c m =
     (case i_op (c_source c) of
        Constant \<Rightarrow> push (i_values (c_source c) \<noteq> []) m
      | Compare \<Rightarrow> (case compare R A clock c q of None \<Rightarrow> None | Some b \<Rightarrow> push b m)
      | Logical_not \<Rightarrow>
          if size_in_use m = 0 then None
          else Some (m\<lparr>stack := (stack m)[size_in_use m - 1 := \<not> stack m ! (size_in_use m - 1)]\<rparr>)
      | Logical_and \<Rightarrow> combine (\<and>) m
      | Logical_xor \<Rightarrow> combine (\<noteq>) m
      | Logical_or \<Rightarrow> combine (\<or>) m)"

primrec run :: "re2 \<Rightarrow> asio \<Rightarrow> nat \<Rightarrow> rule_match_request \<Rightarrow> compiled_instruction list \<Rightarrow>
    machine \<Rightarrow> machine option" where
  "run R A clock q [] m = Some m"
| "run R A clock q (c # cs) m = Option.bind (machine_step R A clock q c m) (run R A clock q cs)"

definition program_matches :: "re2 \<Rightarrow> asio \<Rightarrow> nat \<Rightarrow> compiled_instruction list \<Rightarrow> rule_match_request \<Rightarrow>
    bool option" where
  "program_matches R A clock program q =
     map_option (\<lambda>m. size_in_use m = 1 \<and> stack m ! 0)
       (run R A clock q program \<lparr>stack = replicate stack_size False, size_in_use = 0\<rparr>)"

subsection \<open>The machine computes the expression\<close>

primrec evaluate :: "(expression_instruction \<Rightarrow> bool) \<Rightarrow> expression \<Rightarrow> bool" where
  "evaluate holds (Condition i) = holds i"
| "evaluate holds (Literal b) = b"
| "evaluate holds (Negation e) = (\<not> evaluate holds e)"
| "evaluate holds (Binary op x y) =
     (case op of
        Logical_and \<Rightarrow> evaluate holds x \<and> evaluate holds y
      | Logical_xor \<Rightarrow> evaluate holds x \<noteq> evaluate holds y
      | _ \<Rightarrow> evaluate holds x \<or> evaluate holds y)"

definition condition_holds :: "re2 \<Rightarrow> asio \<Rightarrow> list_map \<Rightarrow> nat \<Rightarrow> rule_match_request \<Rightarrow> expression_instruction \<Rightarrow> bool" where
  "condition_holds R A named clock q i =
     (case compile_instruction R A named i of Inl _ \<Rightarrow> False | Inr c \<Rightarrow> compare R A clock c q = Some True)"

text \<open>The lists a worker holds were built by the list constructor.\<close>

definition lists_built :: "asio \<Rightarrow> list_map \<Rightarrow> bool" where
  "lists_built A named \<longleftrightarrow> (\<forall>l \<in> ran named. \<exists>type entries. make_list A type entries = Inr l)"

lemma list_contains_total:
  assumes "make_list A type entries = Inr l"
  shows "list_contains A l clock input \<noteq> None"
proof -
  from assms obtain v4 v6 where "l_ipv4_tree l = index_ranges v4" "l_ipv6_tree l = index_ranges v6"
    by (auto simp: make_list_def bind_result_Inr_iff split: if_splits)
  with index_ranges_search [of v4] index_ranges_search [of v6] show ?thesis
    by (auto simp: list_contains_def Let_def split: option.splits if_splits)
qed

lemma compile_instruction_source: "compile_instruction R A named i = Inr c \<Longrightarrow> c_source c = i"
  by (auto simp: compile_instruction_def bind_result_Inr_iff Let_def split: if_splits)

lemma compile_list_built:
  assumes "compile_list A named i = Inr (Some l)" and "lists_built A named"
  shows "\<exists>type entries. make_list A type entries = Inr l"
  using assms by (auto simp: compile_list_def lists_built_def ran_def split: if_splits option.splits sum.splits)

lemma compare_total:
  assumes c: "compile_instruction R A named i = Inr c" and built: "lists_built A named"
    and wf: "well_formed_condition R ctx i"
  shows "compare R A clock c q \<noteq> None"
proof -
  from c obtain l where l: "compile_list A named i = Inr l" "c_list c = l" "uses_pattern i \<longrightarrow> c_pattern c \<noteq> None"
    by (auto simp: compile_instruction_def bind_result_Inr_iff Let_def split: if_splits)
  have "compare_value R c v \<noteq> None" for v
  proof (cases "i_comparison i = ''in''")
    case False
    with wf obtain x where "i_values i = [x]" by (auto simp: well_formed_condition_def length_Suc_conv)
    moreover have "uses_pattern i \<or> i_comparison i \<in> {''eq'', ''ne'', ''contains'', ''starts_with'', ''ends_with''}"
      using wf False by (auto simp: well_formed_condition_def uses_pattern_def comparisons_def ends_with_def)
    ultimately show ?thesis
      using False l(3) compile_instruction_source [OF c] by (auto simp: compare_value_def Let_def)
  qed (simp add: compare_value_def compile_instruction_source [OF c])
  moreover have "list_contains A k clock v \<noteq> None" if "l = Some k" for k v
    using compile_list_built [OF l(1) [unfolded that] built] list_contains_total by blast
  ultimately show ?thesis
    using l(2) by (auto simp: compare_def Let_def split: option.splits)
qed

lemma compile_program_append:
  "compile_program R A named (xs @ ys) = Inr cs \<longleftrightarrow>
    (\<exists>as bs. compile_program R A named xs = Inr as \<and> compile_program R A named ys = Inr bs \<and> cs = as @ bs)"
  by (induction xs arbitrary: cs) (auto simp: bind_result_Inr_iff)

lemma run_append: "run R A clock q (xs @ ys) m = Option.bind (run R A clock q xs m) (run R A clock q ys)"
  by (induction xs arbitrary: m) (auto split: bind_splits)

text \<open>One value more on the stack, everything below it untouched.\<close>

definition pushed :: "bool \<Rightarrow> machine \<Rightarrow> machine \<Rightarrow> bool" where
  "pushed b m m' \<longleftrightarrow> length (stack m') = length (stack m) \<and> size_in_use m' = size_in_use m + 1 \<and>
     take (size_in_use m) (stack m') = take (size_in_use m) (stack m) \<and>
     size_in_use m < length (stack m) \<and> stack m' ! size_in_use m = b"

lemma push_pushed: "size_in_use m < length (stack m) \<Longrightarrow> \<exists>m'. push b m = Some m' \<and> pushed b m m'"
  by (simp add: push_def pushed_def)

lemma combine_pushed:
  assumes "pushed x m m\<^sub>1" and "pushed y m\<^sub>1 m\<^sub>2"
  shows "\<exists>m'. combine f m\<^sub>2 = Some m' \<and> pushed (f x y) m m'"
proof -
  let ?n = "size_in_use m"
  have "take (Suc ?n) (stack m\<^sub>2) = take (Suc ?n) (stack m\<^sub>1)" using assms by (simp add: pushed_def)
  then have "stack m\<^sub>2 ! ?n = x" "take ?n (stack m\<^sub>2) = take ?n (stack m)"
    using assms unfolding pushed_def by (metis lessI nth_take, metis lessI less_or_eq_imp_le min_def take_take)
  then show ?thesis using assms by (simp add: combine_def pushed_def Let_def)
qed

lemma negate_pushed:
  assumes "pushed x m m\<^sub>1"
  shows "\<exists>m'. Some (m\<^sub>1\<lparr>stack := (stack m\<^sub>1)[size_in_use m\<^sub>1 - 1 := \<not> stack m\<^sub>1 ! (size_in_use m\<^sub>1 - 1)]\<rparr>) = Some m' \<and>
    pushed (\<not> x) m m'"
  using assms by (simp add: pushed_def)

lemma length_postfix: "0 < length (postfix e)"
  by (cases e) auto

lemma run_condition:
  assumes "compile_program R A named (postfix (Condition i)) = Inr cs" and "lists_built A named"
    and wf: "well_formed_condition R ctx i" and "size_in_use m < length (stack m)"
  shows "\<exists>m'. run R A clock q cs m = Some m' \<and> pushed (condition_holds R A named clock q i) m m'"
proof -
  from assms(1) obtain c where c: "compile_instruction R A named i = Inr c" "cs = [c]"
    by (auto simp: bind_result_Inr_iff)
  from compare_total [OF c(1) assms(2) wf] obtain b where b: "compare R A clock c q = Some b" by fastforce
  have "i_op (c_source c) = Compare"
    using wf compile_instruction_source [OF c(1)] by (simp add: well_formed_condition_def)
  moreover have "condition_holds R A named clock q i = b" using b c(1) by (simp add: condition_holds_def)
  ultimately show ?thesis
    using b c(2) push_pushed [OF assms(4), of b] by (auto simp: machine_step_def)
qed

lemma run_postfix:
  assumes "compile_program R A named (postfix e) = Inr cs" and "lists_built A named"
    and "well_formed R ctx e" and "size_in_use m + length (postfix e) \<le> length (stack m)"
  shows "\<exists>m'. run R A clock q cs m = Some m' \<and> pushed (evaluate (condition_holds R A named clock q) e) m m'"
  using assms
proof (induction e arbitrary: cs m)
  case (Condition i)
  then show ?case using run_condition [OF Condition(1) Condition(2)] by simp
next
  case (Literal b)
  then obtain c where "cs = [c]" "c_source c = constant_instruction b"
    by (auto simp: bind_result_Inr_iff dest: compile_instruction_source)
  with Literal(4) push_pushed [of m b] show ?case
    by (auto simp: machine_step_def constant_instruction_def)
next
  case (Negation e)
  from Negation.prems(1) obtain as c where cs: "compile_program R A named (postfix e) = Inr as" "cs = as @ [c]"
    "c_source c = operator_instruction Logical_not"
    by (auto simp: compile_program_append bind_result_Inr_iff dest: compile_instruction_source)
  from Negation.IH [OF cs(1), of m] Negation.prems obtain m\<^sub>1 where m: "run R A clock q as m = Some m\<^sub>1"
    "pushed (evaluate (condition_holds R A named clock q) e) m m\<^sub>1" by auto
  with cs negate_pushed [OF m(2)] show ?case
    by (auto simp: run_append machine_step_def operator_instruction_def pushed_def)
next
  case (Binary op x y)
  from Binary.prems(1) obtain as bs c where cs: "compile_program R A named (postfix x) = Inr as"
    "compile_program R A named (postfix y) = Inr bs" "cs = as @ bs @ [c]" "c_source c = operator_instruction op"
    by (auto simp: compile_program_append bind_result_Inr_iff dest: compile_instruction_source)
  from Binary.IH(1) [OF cs(1), of m] Binary.prems obtain m\<^sub>1 where m1: "run R A clock q as m = Some m\<^sub>1"
    "pushed (evaluate (condition_holds R A named clock q) x) m m\<^sub>1" by auto
  from m1(2) Binary.prems(4) length_postfix [of x] have "size_in_use m\<^sub>1 + length (postfix y) \<le> length (stack m\<^sub>1)"
    by (auto simp: pushed_def)
  with Binary.IH(2) [OF cs(2), of m\<^sub>1] Binary.prems obtain m\<^sub>2 where m2: "run R A clock q bs m\<^sub>1 = Some m\<^sub>2"
    "pushed (evaluate (condition_holds R A named clock q) y) m\<^sub>1 m\<^sub>2" by auto
  note step = combine_pushed [OF m1(2) m2(2)]
  from Binary.prems(3) have "op \<in> {Logical_and, Logical_xor, Logical_or}" by simp
  then show ?case
    using m1 m2 cs step [of "(\<and>)"] step [of "(\<noteq>)"] step [of "(\<or>)"]
    by (auto simp: run_append machine_step_def operator_instruction_def)
qed

lemma compiled_program_meaning:
  assumes "request_expression_program R A named ctx text = Inr program" and "lists_built A named"
  shows "\<exists>e. well_formed R ctx e \<and> parse R ctx text = Inr (postfix e) \<and>
    program_matches R A clock program q = Some (evaluate (condition_holds R A named clock q) e)"
proof -
  from assms(1) obtain source where source: "parse R ctx text = Inr source"
    "compile_program R A named source = Inr program"
    by (auto simp: request_expression_program_def split: sum.splits)
  from parsed_program [OF source(1)] obtain e where e: "well_formed R ctx e" "source = postfix e"
    "length source \<le> 256" by blast
  let ?m = "\<lparr>stack = replicate stack_size False, size_in_use = 0\<rparr>"
  from run_postfix [OF source(2) [unfolded e(2)] assms(2) e(1), of ?m] e obtain m' where
    "run R A clock q program ?m = Some m'" "pushed (evaluate (condition_holds R A named clock q) e) ?m m'"
    by (auto simp: stack_size_def)
  then have "program_matches R A clock program q = Some (evaluate (condition_holds R A named clock q) e)"
    by (simp add: program_matches_def pushed_def)
  with e source(1) show ?thesis by blast
qed

text \<open>
  Claim C9.  A worker's program for an expression text never leaves its 256-slot stack, never reads
  an empty vector or a missing pattern, and decides the request as the expression means: the text
  parses to a well-formed expression, and the answer is that expression's value with each
  comparison evaluated on the request.
\<close>

theorem program_matches_expression:
  assumes "request_expression_program R A named ctx text = Inr program" and "lists_built A named"
  shows "\<exists>e. well_formed R ctx e \<and> parse R ctx text = Inr (postfix e) \<and>
    program_matches R A clock program q = Some (evaluate (condition_holds R A named clock q) e)"
  using assms by (rule compiled_program_meaning)

lemma sample_program:
  "request_expression_program R A Map.empty Cache_context ''not http.host eq r\"a\"'' =
    Inr [\<lparr>c_source = empty_instruction\<lparr>i_field := ''http.host'', i_comparison := ''eq'', i_values := [''a'']\<rparr>,
           c_pattern = None, c_list = None\<rparr>,
         \<lparr>c_source = operator_instruction Logical_not, c_pattern = None, c_list = None\<rparr>]"
  by (simp add: request_expression_program_def parse_example compile_instruction_def compile_list_def
      uses_pattern_def ends_with_def operator_instruction_def empty_instruction_def)

definition sample_request :: rule_match_request where
  "sample_request = \<lparr>q_target = ''/'', q_method = ''GET'', q_host = ''a'', q_secure = True, q_headers = [],
     q_client_ip = ''10.9.8.7'', q_country = ''DE'', q_asn = ''1''\<rparr>"

theorem program_matches_expression_witness:
  "\<exists>R A program. request_expression_program R A Map.empty Cache_context ''not http.host eq r\"a\"'' = Inr program \<and>
    (\<exists>e. well_formed R Cache_context e \<and> parse R Cache_context ''not http.host eq r\"a\"'' = Inr (postfix e) \<and>
      program_matches R A 0 program sample_request =
        Some (evaluate (condition_holds R A Map.empty 0 sample_request) e))"
proof -
  have "lists_built A Map.empty" for A by (simp add: lists_built_def)
  from program_matches_expression [OF sample_program this] sample_program show ?thesis by blast
qed

end
