(* ===== verification/Security_Validation.thy ===== *)
theory Security_Validation
  imports Website_Proto Expression_Program
begin

text \<open>
  \<open>src/node/proto/security_validation.cpp\<close>: the checks on a security policy, made by the control
  plane before it publishes and by the node before it serves.  A throw is the value
  \<open>Some error\<close>; the text of the error names the message.  The size of a serialised message and the
  JSON parser belong to protobuf: the record \<open>protobuf\<close>.
\<close>

record protobuf =
  byte_size_long :: "SecurityPolicy \<Rightarrow> nat"
  json_string_ok :: "string \<Rightarrow> bool"

datatype security_error =
    Invalid_security_policy | Security_policy_exceeds_limits | Invalid_ip_or_cidr | Invalid_cidr_prefix
  | Invalid_security_list | Too_many_security_list_entries | Invalid_security_list_value
  | Invalid_security_country_code | Invalid_list_asn | Expression_rejected expression_error nat
  | Asn_matching_unavailable | Security_list_mismatch | Invalid_ip_comparison | Invalid_rule_name
  | Invalid_skip_stage | Invalid_custom_json | Invalid_custom_rule | Invalid_cc_rule_name
  | Invalid_cc_response | Invalid_cc_json | Invalid_cc_rule | Invalid_managed_settings
  | Invalid_managed_exclusion

subsection \<open>Lists\<close>

definition validate_ip :: "asio \<Rightarrow> string \<Rightarrow> security_error option" where
  "validate_ip A item =
     (case cut_at CHR ''/'' item of (text, suffix) \<Rightarrow>
      case make_address A text of
        None \<Rightarrow> Some Invalid_ip_or_cidr
      | Some ip \<Rightarrow>
          if scoped ip then Some Invalid_ip_or_cidr
          else (case suffix of
              None \<Rightarrow> None
            | Some digits \<Rightarrow>
                (case from_chars u32_max digits of
                   None \<Rightarrow> Some Invalid_cidr_prefix
                 | Some (prefix, rest) \<Rightarrow>
                     check (rest \<noteq> [] \<or> prefix > (if is_v4 ip then 32 else 128)) Invalid_cidr_prefix)))"

definition validate_item :: "asio \<Rightarrow> string \<Rightarrow> string \<Rightarrow> security_error option" where
  "validate_item A type item =
     first_error
      [check (item = [] \<or> length item > 2048 \<or> \<not> clean_text item 2048) Invalid_security_list_value,
       if type = ''ip'' then validate_ip A item else None,
       check (type = ''country'' \<and>
         (length item \<noteq> 2 \<or> \<not> is_upper (item ! 0) \<or> \<not> is_upper (item ! 1))) Invalid_security_country_code,
       check (type = ''asn'' \<and> \<not> (case from_chars u32_max item of
           None \<Rightarrow> False | Some (asn, rest) \<Rightarrow> rest = [] \<and> asn \<noteq> 0 \<and> to_string asn = item)) Invalid_list_asn]"

definition list_name_char :: "char \<Rightarrow> bool" where
  "list_name_char c \<longleftrightarrow> is_lower c \<or> is_digit c \<or> c = CHR ''_''"

definition list_types :: "string list" where
  "list_types = [''ip'', ''asn'', ''country'', ''user_agent'']"

definition bad_list :: "(string \<rightharpoonup> string) \<Rightarrow> SecurityList \<Rightarrow> bool" where
  "bad_list named l \<longleftrightarrow> sl_name l = [] \<or> length (sl_name l) > 100 \<or> \<not> list_all list_name_char (sl_name l) \<or>
     sl_name l \<in> dom named \<or> sl_type l \<notin> set list_types"

definition list_items :: "SecurityList \<Rightarrow> string list" where
  "list_items l = sl_entries l @ map sle_value (sl_members l)"

fun validate_lists :: "asio \<Rightarrow> (string \<rightharpoonup> string) \<Rightarrow> nat \<Rightarrow> SecurityList list \<Rightarrow>
    security_error + (string \<rightharpoonup> string)" where
  "validate_lists A named entries [] = Inr named"
| "validate_lists A named entries (l # ls) =
     (let entries' = entries + (length (sl_entries l) + length (sl_members l)) in
      case first_error ([check (bad_list named l) Invalid_security_list,
          check (entries' > 100000) Too_many_security_list_entries] @
          map (validate_item A (sl_type l)) (list_items l)) of
        Some e \<Rightarrow> Inl e
      | None \<Rightarrow> validate_lists A (named(sl_name l \<mapsto> sl_type l)) entries' ls)"

subsection \<open>Expressions\<close>

definition field_list_type :: "string \<Rightarrow> string" where
  "field_list_type name =
     (if name = ''ip.src'' then ''ip'' else if name = ''ip.src.asnum'' then ''asn''
      else if name = ''ip.src.country'' then ''country''
      else if name = ''http.user_agent'' then ''user_agent'' else [])"

definition instruction_error :: "asio \<Rightarrow> (string \<rightharpoonup> string) \<Rightarrow> expression_instruction \<Rightarrow> security_error option" where
  "instruction_error A named i =
     first_error
      ([check (i_field i = ''ip.src.asnum'') Asn_matching_unavailable,
        check (i_list i \<noteq> [] \<and> named (i_list i) \<noteq> Some (field_list_type (i_field i))) Security_list_mismatch] @
       (if i_field i = ''ip.src'' then
          check (i_lower i \<or> (i_comparison i \<noteq> ''eq'' \<and> i_comparison i \<noteq> ''ne'' \<and> i_comparison i \<noteq> ''in''))
            Invalid_ip_comparison # map (validate_ip A) (i_values i)
        else []))"

definition expression_checks :: "re2 \<Rightarrow> asio \<Rightarrow> (string \<rightharpoonup> string) \<Rightarrow> string \<Rightarrow> security_error option" where
  "expression_checks R A named text =
     (case parse R Security_context text of
        Inl (e, unread) \<Rightarrow> Some (Expression_rejected e unread)
      | Inr program \<Rightarrow> first_error (map (instruction_error A named) program))"

subsection \<open>Rules\<close>

definition skip_stages :: "string list" where
  "skip_stages = [''custom'', ''rate'', ''managed'']"

definition response_types :: "string list" where
  "response_types = [''text/plain'', ''text/html'', ''application/json'', ''application/xml'']"

definition bad_response :: "nat \<Rightarrow> string \<Rightarrow> string \<Rightarrow> bool" where
  "bad_response status content_type body \<longleftrightarrow> length body > 2048 \<or> \<not> valid_utf8 body \<or>
     (status \<noteq> 0 \<and> (status < 400 \<or> status > 499)) \<or>
     (content_type \<noteq> [] \<and> content_type \<notin> set response_types)"

definition bad_json :: "protobuf \<Rightarrow> string \<Rightarrow> string \<Rightarrow> bool" where
  "bad_json P content_type body \<longleftrightarrow> content_type = ''application/json'' \<and> body \<noteq> [] \<and> \<not> json_string_ok P body"

definition bad_id :: "string set \<Rightarrow> string \<Rightarrow> bool" where
  "bad_id ids i \<longleftrightarrow> i = [] \<or> length i > 100 \<or> i \<in> ids"

definition custom_rule_error :: "re2 \<Rightarrow> asio \<Rightarrow> protobuf \<Rightarrow> (string \<rightharpoonup> string) \<Rightarrow> string set \<Rightarrow> SecurityRule \<Rightarrow>
    security_error option" where
  "custom_rule_error R A P named ids r =
     first_error
      [check (\<not> clean_text (sr_name r) 256) Invalid_rule_name,
       check (\<not> unique_names (\<lambda>stage. stage \<in> set skip_stages) {} (sr_skip_stages r)) Invalid_skip_stage,
       expression_checks R A named (sr_expression r),
       check (bad_json P (sr_response_content_type r) (sr_response_body r)) Invalid_custom_json,
       check (bad_id ids (sr_id r) \<or> sr_action r \<notin> {''block'', ''log'', ''skip''} \<or>
         bad_response (sr_response_status r) (sr_response_content_type r) (sr_response_body r)) Invalid_custom_rule]"

definition cc_rule_error :: "re2 \<Rightarrow> asio \<Rightarrow> protobuf \<Rightarrow> (string \<rightharpoonup> string) \<Rightarrow> string set \<Rightarrow> CcRule \<Rightarrow>
    security_error option" where
  "cc_rule_error R A P named ids r =
     first_error
      [check (\<not> clean_text (cr_name r) 256) Invalid_cc_rule_name,
       expression_checks R A named (cr_expression r),
       check (bad_response (cr_response_status r) (cr_response_content_type r) (cr_response_body r)) Invalid_cc_response,
       check (bad_json P (cr_response_content_type r) (cr_response_body r)) Invalid_cc_json,
       check (bad_id ids (cr_id r) \<or> cr_action r \<notin> {''block'', ''log''} \<or>
         cr_requests r = 0 \<or> cr_requests r > 1000000000 \<or> cr_window_seconds r = 0 \<or>
         cr_window_seconds r > 3600 \<or> cr_mitigation_seconds r = 0 \<or> cr_mitigation_seconds r > 86400)
         Invalid_cc_rule]"

text \<open>The loop over rules that collects their identifiers.\<close>

fun rules_errors :: "(string set \<Rightarrow> 'r \<Rightarrow> security_error option) \<Rightarrow> ('r \<Rightarrow> string) \<Rightarrow> string set \<Rightarrow> 'r list \<Rightarrow>
    security_error + string set" where
  "rules_errors rule_check rule_id ids [] = Inr ids"
| "rules_errors rule_check rule_id ids (r # rs) =
     (case rule_check ids r of
        Some e \<Rightarrow> Inl e
      | None \<Rightarrow> rules_errors rule_check rule_id (insert (rule_id r) ids) rs)"

definition managed_error :: "ManagedSecurity \<Rightarrow> security_error option" where
  "managed_error m =
     first_error
      [check (ms_paranoia_level m < 1 \<or> ms_paranoia_level m > 4 \<or>
         ms_inbound_threshold m < 1 \<or> ms_inbound_threshold m > 1000 \<or>
         ms_body_limit_bytes m < 1024 \<or> ms_body_limit_bytes m > 8 * 1024 * 1024 \<or>
         length (ms_excluded_rules m) > 512) Invalid_managed_settings,
       check (\<not> unique_names (\<lambda>i. 910000 \<le> i \<and> i \<le> 949999) {} (ms_excluded_rules m)) Invalid_managed_exclusion]"

definition policy_limits_error :: "protobuf \<Rightarrow> SecurityPolicy \<Rightarrow> security_error option" where
  "policy_limits_error P p =
     first_error
      [check (sp_id p = [] \<or> length (sp_id p) > 100 \<or> sp_revision p < 1 \<or> length (sp_name p) > 256 \<or>
         length (sp_custom_rules p) > 100 \<or> length (sp_cc_rules p) > 100) Invalid_security_policy,
       check (length (sp_lists p) > 100 \<or> byte_size_long P p > 4 * 1024 * 1024) Security_policy_exceeds_limits]"

definition validate_security :: "re2 \<Rightarrow> asio \<Rightarrow> protobuf \<Rightarrow> SecurityPolicy \<Rightarrow> security_error option" where
  "validate_security R A P p =
     (case policy_limits_error P p of Some e \<Rightarrow> Some e | None \<Rightarrow>
      case validate_lists A Map.empty 0 (sp_lists p) of Inl e \<Rightarrow> Some e | Inr named \<Rightarrow>
      case rules_errors (custom_rule_error R A P named) sr_id {} (sp_custom_rules p) of Inl e \<Rightarrow> Some e | Inr ids \<Rightarrow>
      case rules_errors (cc_rule_error R A P named) cr_id ids (sp_cc_rules p) of Inl e \<Rightarrow> Some e | Inr ids \<Rightarrow>
      case sp_managed p of None \<Rightarrow> None | Some m \<Rightarrow> managed_error m)"

subsection \<open>Concrete instances of the parameters\<close>

definition sample_re2 :: re2 where
  "sample_re2 = \<lparr>re2_ok = (\<lambda>_ _. True), number_of_capturing_groups = (\<lambda>_ _. 0), partial_match = (\<lambda>_ _ _. False),
     full_match = (\<lambda>_ _ _. False), match_groups = (\<lambda>_ _ _. None)\<rparr>"

definition sample_protobuf :: protobuf where
  "sample_protobuf = \<lparr>byte_size_long = (\<lambda>_. 100), json_string_ok = (\<lambda>_. True)\<rparr>"

end
