(* ===== verification/CC_Protection.thy ===== *)
theory CC_Protection
  imports Prelude
begin

text \<open>
  \<open>src/node/data/cc_protection.h\<close>: request counting against challenge-collapsar floods.  A worker
  counts requests of one key in 65 buckets of a sliding window; the control loop adds the counts of
  all workers up and publishes who is blocked.  Times are milliseconds; 64-bit sums that the source
  lets wrap are taken modulo $2^{64}$, saturating sums are not.  An unordered map is an association
  list whose order is the iteration order.
\<close>

subsection \<open>Limits and buckets\<close>

record cc_key =
  k_website :: string
  k_policy :: string
  k_rule :: string
  k_address :: string

record cc_limits =
  lim_requests :: nat
  lim_window_ms :: nat
  lim_mitigation_ms :: nat

datatype cc_error = Invalid_limits | Identity_reused | Conflicting_limits

definition validate_limits :: "cc_limits \<Rightarrow> cc_error option" where
  "validate_limits l = check (lim_requests l = 0 \<or> lim_requests l > 1000000000 \<or> lim_window_ms l < 1000 \<or>
     lim_window_ms l > 3600000 \<or> lim_mitigation_ms l < 1000 \<or> lim_mitigation_ms l > 86400000) Invalid_limits"

record cc_count =
  n_key :: cc_key
  n_limits :: cc_limits
  n_bucket :: nat
  n_count :: nat

record cc_batch =
  ba_instance :: nat
  ba_sequence :: nat
  ba_observed_ms :: nat
  ba_counts :: "cc_count list"

record cc_dispositions =
  di_sequence :: nat
  di_saturated_until :: nat
  di_blocked_until :: "cc_key \<rightharpoonup> nat"

datatype cc_decision = Allow | Block | Overloaded

definition u64 :: "nat \<Rightarrow> nat" where
  "u64 n = n mod 2 ^ 64"

definition bucket_count :: nat where
  "bucket_count = 64"

definition width :: "cc_limits \<Rightarrow> nat" where
  "width limits = (lim_window_ms limits + bucket_count - 1) div bucket_count"

definition sat_add :: "nat \<Rightarrow> nat \<Rightarrow> nat" where
  "sat_add left right = (if left > u64_max - right then u64_max else left + right)"

record bucket =
  b_slot :: nat
  b_count :: nat

definition live :: "nat \<Rightarrow> nat \<Rightarrow> cc_limits \<Rightarrow> bool" where
  "live slot now limits \<longleftrightarrow> u64 (u64 (u64 (slot + 1) * width limits) + lim_window_ms limits) > now"

subsection \<open>A worker\<close>

record cc_entry =
  ce_limits :: cc_limits
  ce_buckets :: "bucket list"
  ce_last_seen :: nat
  ce_blocked_until :: nat
  ce_dirty :: bool

record cc_worker =
  cw_instance :: nat
  cw_sequence :: nat
  cw_capacity :: nat
  cw_entries :: "(cc_key \<times> cc_entry) list"
  cw_dispositions :: "cc_dispositions option"

definition new_worker :: "nat \<Rightarrow> nat \<Rightarrow> cc_worker" where
  "new_worker inst capacity = \<lparr>cw_instance = inst, cw_sequence = 0, cw_capacity = capacity,
     cw_entries = [], cw_dispositions = None\<rparr>"

definition new_cc_entry :: "cc_limits \<Rightarrow> cc_entry" where
  "new_cc_entry limits = \<lparr>ce_limits = limits, ce_buckets = replicate (bucket_count + 1) \<lparr>b_slot = 0, b_count = 0\<rparr>,
     ce_last_seen = 0, ce_blocked_until = 0, ce_dirty = False\<rparr>"

text \<open>The entry of a key is replaced in place, a new one added.\<close>

fun put :: "'k \<Rightarrow> 'v \<Rightarrow> ('k \<times> 'v) list \<Rightarrow> ('k \<times> 'v) list" where
  "put k v [] = [(k, v)]"
| "put k v ((k', v') # rest) = (if k' = k then (k, v) # rest else (k', v') # put k v rest)"

lemma map_of_put [simp]: "map_of (put k v m) = (map_of m)(k \<mapsto> v)"
  by (induction k v m rule: put.induct) auto

lemma keys_put [simp]: "fst ` set (put k v m) = insert k (fst ` set m)"
  by (induction k v m rule: put.induct) auto

lemma distinct_put: "distinct (map fst m) \<Longrightarrow> distinct (map fst (put k v m))"
  by (induction k v m rule: put.induct) (auto simp: image_iff dest: arg_cong [of _ _ set])

text \<open>The sum of the live buckets, saturating.\<close>

definition live_sum :: "bucket list \<Rightarrow> nat \<Rightarrow> cc_limits \<Rightarrow> nat" where
  "live_sum buckets now limits =
     foldl (\<lambda>sum item. if live (b_slot item) now limits then sat_add sum (b_count item) else sum) 0 buckets"

text \<open>The counting part of \<open>check\<close>: one more request in the bucket of the current slot.\<close>

definition count_request :: "cc_limits \<Rightarrow> nat \<Rightarrow> cc_entry \<Rightarrow> cc_entry" where
  "count_request limits now e =
     (let slot = now div width limits; index = slot mod length (ce_buckets e);
        b = ce_buckets e ! index;
        b = (if b_slot b \<noteq> slot then \<lparr>b_slot = slot, b_count = 0\<rparr> else b);
        b = b\<lparr>b_count := sat_add (b_count b) 1\<rparr> in
      e\<lparr>ce_buckets := (ce_buckets e)[index := b], ce_dirty := True, ce_last_seen := now\<rparr>)"

definition check_entry :: "cc_limits \<Rightarrow> nat \<Rightarrow> cc_entry \<Rightarrow> cc_decision \<times> cc_entry" where
  "check_entry limits now e =
     (if ce_blocked_until e > now then (Block, e)
      else
        let e = count_request limits now e in
        if live_sum (ce_buckets e) now limits > lim_requests limits
        then (Block, e\<lparr>ce_blocked_until := u64 (now + lim_mitigation_ms limits)\<rparr>)
        else (Allow, e))"

definition published_decision :: "cc_dispositions option \<Rightarrow> cc_key \<Rightarrow> nat \<Rightarrow> cc_decision option" where
  "published_decision dispositions k now =
     (case dispositions of
        None \<Rightarrow> None
      | Some d \<Rightarrow>
          if di_saturated_until d > now then Some Overloaded
          else case di_blocked_until d k of
              None \<Rightarrow> None
            | Some until \<Rightarrow> if until > now then Some Block else None)"

definition worker_check :: "cc_key \<Rightarrow> cc_limits \<Rightarrow> nat \<Rightarrow> cc_worker \<Rightarrow> cc_error + cc_decision \<times> cc_worker" where
  "worker_check k limits now w =
     (case published_decision (cw_dispositions w) k now of
        Some d \<Rightarrow> Inr (d, w)
      | None \<Rightarrow>
          (case map_of (cw_entries w) k of
             None \<Rightarrow>
               if length (cw_entries w) \<ge> cw_capacity w then Inr (Overloaded, w)
               else (case validate_limits limits of
                   Some e \<Rightarrow> Inl e
                 | None \<Rightarrow>
                     (case check_entry limits now (new_cc_entry limits) of (d, e) \<Rightarrow>
                       Inr (d, w\<lparr>cw_entries := put k e (cw_entries w)\<rparr>)))
           | Some e \<Rightarrow>
               if ce_limits e \<noteq> limits then Inl Identity_reused
               else (case check_entry limits now e of (d, e) \<Rightarrow>
                 Inr (d, w\<lparr>cw_entries := put k e (cw_entries w)\<rparr>))))"

definition expired :: "nat \<Rightarrow> cc_entry \<Rightarrow> bool" where
  "expired now e \<longleftrightarrow> \<not> ce_dirty e \<and> ce_blocked_until e \<le> now \<and>
     now \<ge> u64 (u64 (ce_last_seen e + lim_window_ms (ce_limits e)) + width (ce_limits e))"

definition entry_counts :: "nat \<Rightarrow> cc_key \<times> cc_entry \<Rightarrow> cc_count list" where
  "entry_counts now ke =
     (case ke of (k, e) \<Rightarrow>
      if \<not> ce_dirty e then []
      else map (\<lambda>b. \<lparr>n_key = k, n_limits = ce_limits e, n_bucket = b_slot b, n_count = b_count b\<rparr>)
        (filter (\<lambda>b. b_count b \<noteq> 0 \<and> live (b_slot b) now (ce_limits e)) (ce_buckets e)))"

definition worker_report :: "nat \<Rightarrow> cc_worker \<Rightarrow> cc_batch \<times> cc_worker" where
  "worker_report now w =
     (let seq = u64 (cw_sequence w + 1);
        entries = filter (\<lambda>(k, e). \<not> expired now e) (cw_entries w) in
      (\<lparr>ba_instance = cw_instance w, ba_sequence = seq, ba_observed_ms = now,
        ba_counts = concat (map (entry_counts now) entries)\<rparr>,
       w\<lparr>cw_sequence := seq, cw_entries := entries\<rparr>))"

definition acknowledge :: "cc_worker \<Rightarrow> cc_worker" where
  "acknowledge w = w\<lparr>cw_entries := map (\<lambda>(k, e). (k, e\<lparr>ce_dirty := False\<rparr>)) (cw_entries w)\<rparr>"

definition worker_publish :: "cc_dispositions option \<Rightarrow> cc_worker \<Rightarrow> cc_worker" where
  "worker_publish v w =
     (case v of
        None \<Rightarrow> w
      | Some d \<Rightarrow>
          if (case cw_dispositions w of None \<Rightarrow> True | Some old \<Rightarrow> di_sequence d > di_sequence old)
          then w\<lparr>cw_dispositions := Some d\<rparr> else w)"

subsection \<open>The aggregator\<close>

text \<open>The counts a source reported for a bucket, in a \<open>std::map\<close> that reads a missing source as zero.\<close>

record agg_bucket =
  ab_slot :: nat
  ab_total :: nat
  ab_sources :: "(nat \<times> nat) list"

record agg_entry =
  ae_limits :: cc_limits
  ae_buckets :: "agg_bucket list"
  ae_blocked_until :: nat
  ae_changed :: bool

record cc_aggregator =
  ag_worker_count :: nat
  ag_capacity :: nat
  ag_sequence :: nat
  ag_saturated_until :: nat
  ag_sequences :: "nat \<Rightarrow> nat"
  ag_entries :: "(cc_key \<times> agg_entry) list"

definition empty_agg_bucket :: agg_bucket where
  "empty_agg_bucket = \<lparr>ab_slot = 0, ab_total = 0, ab_sources = []\<rparr>"

definition new_agg_entry :: "cc_limits \<Rightarrow> agg_entry" where
  "new_agg_entry limits = \<lparr>ae_limits = limits, ae_buckets = replicate (bucket_count + 1) empty_agg_bucket,
     ae_blocked_until = 0, ae_changed = False\<rparr>"

definition new_aggregator :: "nat \<Rightarrow> nat \<Rightarrow> cc_aggregator" where
  "new_aggregator worker_count capacity = \<lparr>ag_worker_count = worker_count, ag_capacity = capacity,
     ag_sequence = 0, ag_saturated_until = 0, ag_sequences = (\<lambda>_. 0), ag_entries = []\<rparr>"

definition source_count :: "agg_bucket \<Rightarrow> nat \<Rightarrow> nat" where
  "source_count b inst = (case map_of (ab_sources b) inst of None \<Rightarrow> 0 | Some n \<Rightarrow> n)"

definition merge_bucket :: "nat \<Rightarrow> cc_count \<Rightarrow> agg_bucket \<Rightarrow> bool \<times> agg_bucket" where
  "merge_bucket inst c b =
     (let b = (if ab_slot b \<noteq> n_bucket c then \<lparr>ab_slot = n_bucket c, ab_total = 0, ab_sources = []\<rparr> else b);
        previous = source_count b inst in
      if n_count c > previous
      then (True, b\<lparr>ab_total := sat_add (ab_total b) (n_count c - previous),
                    ab_sources := put inst (n_count c) (ab_sources b)\<rparr>)
      else (False, b\<lparr>ab_sources := put inst previous (ab_sources b)\<rparr>))"

definition merge_agg_entry :: "nat \<Rightarrow> cc_count \<Rightarrow> agg_entry \<Rightarrow> agg_entry" where
  "merge_agg_entry inst c e =
     (let index = n_bucket c mod length (ae_buckets e) in
      case merge_bucket inst c (ae_buckets e ! index) of (changed, b) \<Rightarrow>
        e\<lparr>ae_buckets := (ae_buckets e)[index := b], ae_changed := ae_changed e \<or> changed\<rparr>)"

definition merge_count :: "cc_batch \<Rightarrow> nat \<Rightarrow> cc_count \<Rightarrow> cc_aggregator \<Rightarrow> cc_error + cc_aggregator" where
  "merge_count batch now c a =
     (case validate_limits (n_limits c) of
        Some e \<Rightarrow> Inl e
      | None \<Rightarrow>
          if \<not> live (n_bucket c) now (n_limits c) \<or> n_bucket c > ba_observed_ms batch div width (n_limits c)
          then Inr a
          else (case map_of (ag_entries a) (n_key c) of
              None \<Rightarrow>
                if length (ag_entries a) \<ge> ag_capacity a
                then Inr (a\<lparr>ag_saturated_until := u64 (now + lim_window_ms (n_limits c))\<rparr>)
                else Inr (a\<lparr>ag_entries := put (n_key c)
                  (merge_agg_entry (ba_instance batch) c (new_agg_entry (n_limits c))) (ag_entries a)\<rparr>)
            | Some e \<Rightarrow>
                if ae_limits e \<noteq> n_limits c then Inl Conflicting_limits
                else Inr (a\<lparr>ag_entries := put (n_key c)
                  (merge_agg_entry (ba_instance batch) c e) (ag_entries a)\<rparr>)))"

text \<open>A throw leaves the counts merged so far in place; the loop stops there.\<close>

fun merge_counts :: "cc_batch \<Rightarrow> nat \<Rightarrow> cc_count list \<Rightarrow> cc_aggregator \<Rightarrow> cc_error option \<times> cc_aggregator" where
  "merge_counts batch now [] a = (None, a)"
| "merge_counts batch now (c # cs) a =
     (case merge_count batch now c a of
        Inl e \<Rightarrow> (Some e, a)
      | Inr a' \<Rightarrow> merge_counts batch now cs a')"

definition merge_batch :: "cc_batch \<Rightarrow> nat \<Rightarrow> cc_aggregator \<Rightarrow> cc_error option \<times> cc_aggregator" where
  "merge_batch batch now a =
     (if ba_instance batch \<ge> ag_worker_count a \<or> ba_observed_ms batch > now \<or>
         ba_sequence batch \<le> ag_sequences a (ba_instance batch) then (None, a)
      else merge_counts batch now (ba_counts batch)
        (a\<lparr>ag_sequences := (ag_sequences a)(ba_instance batch := ba_sequence batch)\<rparr>))"

definition live_buckets :: "nat \<Rightarrow> agg_entry \<Rightarrow> agg_bucket list" where
  "live_buckets now e =
     map (\<lambda>b. if live (ab_slot b) now (ae_limits e) then b else empty_agg_bucket) (ae_buckets e)"

definition agg_sum :: "nat \<Rightarrow> agg_entry \<Rightarrow> nat" where
  "agg_sum now e = foldl (\<lambda>sum b. if live (ab_slot b) now (ae_limits e) then sat_add sum (ab_total b) else sum)
     0 (ae_buckets e)"

definition snapshot_entry :: "nat \<Rightarrow> agg_entry \<Rightarrow> nat \<times> agg_entry" where
  "snapshot_entry now e =
     (let sum = agg_sum now e;
        until = (if ae_changed e \<and> sum > lim_requests (ae_limits e) \<and> ae_blocked_until e \<le> now
          then u64 (now + lim_mitigation_ms (ae_limits e)) else ae_blocked_until e) in
      (sum, e\<lparr>ae_buckets := live_buckets now e, ae_blocked_until := until, ae_changed := False\<rparr>))"

fun snapshot_loop :: "nat \<Rightarrow> (cc_key \<times> agg_entry) list \<Rightarrow> (cc_key \<rightharpoonup> nat) \<Rightarrow>
    (cc_key \<rightharpoonup> nat) \<times> (cc_key \<times> agg_entry) list" where
  "snapshot_loop now [] blocked = (blocked, [])"
| "snapshot_loop now ((k, e) # es) blocked =
     (case snapshot_entry now e of (hits, e') \<Rightarrow>
      let blocked' = (if ae_blocked_until e' > now then blocked(k \<mapsto> ae_blocked_until e') else blocked) in
      case snapshot_loop now es blocked' of (result, rest) \<Rightarrow>
      (result, if hits = 0 \<and> ae_blocked_until e' \<le> now then rest else (k, e') # rest))"

definition aggregator_snapshot :: "nat \<Rightarrow> cc_aggregator \<Rightarrow> cc_dispositions \<times> cc_aggregator" where
  "aggregator_snapshot now a =
     (case snapshot_loop now (ag_entries a) Map.empty of (blocked, entries) \<Rightarrow>
      let seq = u64 (ag_sequence a + 1) in
      (\<lparr>di_sequence = seq, di_saturated_until = (if ag_saturated_until a > now then ag_saturated_until a else 0),
        di_blocked_until = blocked\<rparr>,
       a\<lparr>ag_sequence := seq, ag_entries := entries\<rparr>))"

subsection \<open>Counting is exact up to saturation\<close>

definition sat :: "nat \<Rightarrow> nat" where
  "sat n = min n u64_max"

lemma sat_add_sat: "b \<le> u64_max \<Longrightarrow> sat_add (sat a) b = sat (a + b)"
  by (auto simp: sat_add_def sat_def)

lemma sat_0 [simp]: "sat 0 = 0"
  by (simp add: sat_def)

lemma sat_le [simp]: "sat n \<le> u64_max"
  by (simp add: sat_def)

lemma foldl_sat:
  assumes "\<And>x. x \<in> set xs \<Longrightarrow> g x \<le> u64_max"
  shows "foldl (\<lambda>acc x. if P x then sat_add acc (g x) else acc) (sat n) xs =
    sat (n + sum_list (map (\<lambda>x. if P x then g x else 0) xs))"
  using assms
proof (induction xs arbitrary: n)
  case (Cons x xs)
  then show ?case by (simp add: sat_add_sat add.assoc)
qed simp

lemma length_filter_le_sum:
  fixes n :: nat
  assumes "\<And>h. h \<in> set H \<Longrightarrow> P h \<Longrightarrow> f h < n \<and> Q (f h) h"
  shows "length (filter P H) \<le> (\<Sum>i < n. length (filter (Q i) H))"
  using assms
proof (induction H)
  case (Cons h H)
  have IH: "length (filter P H) \<le> (\<Sum>i < n. length (filter (Q i) H))" using Cons by simp
  have mono: "(\<Sum>i < n. length (filter (Q i) H)) \<le> (\<Sum>i < n. length (filter (Q i) (h # H)))"
    by (rule sum_mono) simp
  show ?case
  proof (cases "P h")
    case True
    with Cons.prems have f: "f h < n" "Q (f h) h" by auto
    have "(\<Sum>i < n. length (filter (Q i) H)) < (\<Sum>i < n. length (filter (Q i) (h # H)))"
      by (rule sum_strict_mono_ex1) (use f in auto)
    with True IH show ?thesis by simp
  qed (use IH mono in simp)
qed simp

lemma sum_length_filter_le:
  fixes n :: nat
  assumes "\<And>i h. h \<in> set H \<Longrightarrow> Q i h \<Longrightarrow> P h \<and> f h = i"
  shows "(\<Sum>i < n. length (filter (Q i) H)) \<le> length (filter P H)"
  using assms
proof (induction H)
  case (Cons h H)
  have IH: "(\<Sum>i < n. length (filter (Q i) H)) \<le> length (filter P H)" using Cons by simp
  have "(\<Sum>i < n. length (filter (Q i) (h # H))) =
      (\<Sum>i < n. length (filter (Q i) H)) + (\<Sum>i < n. if Q i h then 1 else 0)"
    unfolding sum.distrib [symmetric] by (rule sum.cong) auto
  also have "(\<Sum>i < n. if Q i h then 1 else 0 :: nat) \<le> (if P h then 1 else 0)"
  proof (cases "\<exists>i < n. Q i h")
    case True
    then obtain i where i: "i < n" "Q i h" by blast
    with Cons.prems [of h] have "P h" "\<And>j. Q j h \<longleftrightarrow> j = i" by auto
    then show ?thesis using i by simp
  next
    case False
    then have "(\<Sum>i < n. if Q i h then 1 else 0 :: nat) = 0" by simp
    then show ?thesis by simp
  qed
  finally show ?case using IH by (cases "P h") simp_all
qed simp

text \<open>
  What the buckets of an entry know after requests at the times \<open>H\<close>, none after \<open>clock\<close>.
\<close>

definition in_bucket :: "cc_limits \<Rightarrow> bucket list \<Rightarrow> nat \<Rightarrow> nat \<Rightarrow> bool" where
  "in_bucket l bs i h \<longleftrightarrow> h div width l = b_slot (bs ! i) \<and> b_slot (bs ! i) mod 65 = i"

definition buckets_ok :: "cc_limits \<Rightarrow> nat list \<Rightarrow> nat \<Rightarrow> bucket list \<Rightarrow> bool" where
  "buckets_ok l H clock bs \<longleftrightarrow> length bs = 65 \<and> (\<forall>h \<in> set H. h \<le> clock) \<and>
     (\<forall>i < 65. b_count (bs ! i) = sat (length (filter (in_bucket l bs i) H)) \<and>
        (b_slot (bs ! i) mod 65 = i \<or> b_slot (bs ! i) = 0) \<and> b_slot (bs ! i) \<le> clock div width l \<and>
        (\<forall>h \<in> set H. (h div width l) mod 65 = i \<longrightarrow> h div width l \<le> b_slot (bs ! i)))"

lemma buckets_okD:
  assumes "buckets_ok l H clock bs" "i < 65"
  shows "b_count (bs ! i) = sat (length (filter (in_bucket l bs i) H))"
    "b_slot (bs ! i) mod 65 = i \<or> b_slot (bs ! i) = 0" "b_slot (bs ! i) \<le> clock div width l"
    "h \<in> set H \<Longrightarrow> (h div width l) mod 65 = i \<Longrightarrow> h div width l \<le> b_slot (bs ! i)"
  using assms by (auto simp: buckets_ok_def)

lemma buckets_ok_new: "buckets_ok l [] clock (ce_buckets (new_cc_entry l))"
  by (simp add: buckets_ok_def new_cc_entry_def bucket_count_def del: replicate_Suc)

lemma buckets_ok_later: "buckets_ok l H clock bs \<Longrightarrow> clock \<le> now \<Longrightarrow> buckets_ok l H now bs"
  unfolding buckets_ok_def by (meson div_le_mono le_trans)

lemma count_request_ok:
  assumes ok: "buckets_ok l H clock (ce_buckets e)" and now: "clock \<le> now"
  shows "buckets_ok l (H @ [now]) now (ce_buckets (count_request l now e))"
proof -
  define bs where "bs = ce_buckets e"
  define s where "s = now div width l"
  define i where "i = s mod 65"
  define b where "b = (if b_slot (bs ! i) \<noteq> s then \<lparr>b_slot = s, b_count = 0\<rparr> else bs ! i)"
  define b' where "b' = b\<lparr>b_count := sat_add (b_count b) 1\<rparr>"
  define bs' where "bs' = bs[i := b']"
  have len: "length bs = 65" and i: "i < 65" and past: "\<And>h. h \<in> set H \<Longrightarrow> h \<le> clock"
    using ok by (auto simp: buckets_ok_def bs_def i_def)
  have eq: "ce_buckets (count_request l now e) = bs'"
    using len by (simp add: count_request_def Let_def bs'_def b'_def b_def bs_def [symmetric] s_def [symmetric] i_def)
  note D = buckets_okD [OF ok, folded bs_def]
  have slot: "b_slot b' = s" by (simp add: b'_def b_def)
  have len': "length bs' = 65" by (simp add: bs'_def len)
  have at: "bs' ! j = (if j = i then b' else bs ! j)" if "j < 65" for j using that len by (simp add: bs'_def)
  have old: "h div width l \<le> s" if "h \<in> set H" for h
    unfolding s_def using past [OF that] now by (simp add: div_le_mono)
  have cnt: "b_count b' = sat (length (filter (in_bucket l bs' i) (H @ [now])))"
  proof -
    have "in_bucket l bs' i = (\<lambda>h. h div width l = s)"
      using at [OF i] slot by (auto simp: in_bucket_def i_def fun_eq_iff)
    then have "length (filter (in_bucket l bs' i) (H @ [now])) = Suc (length (filter (\<lambda>h. h div width l = s) H))"
      by (simp add: s_def)
    moreover have "b_count b = sat (length (filter (\<lambda>h. h div width l = s) H))"
    proof (cases "b_slot (bs ! i) = s")
      case True
      then have "in_bucket l bs i = (\<lambda>h. h div width l = s)" by (auto simp: in_bucket_def i_def fun_eq_iff)
      with True show ?thesis using D(1) [OF i] by (simp add: b_def)
    next
      case False
      have "filter (\<lambda>h. h div width l = s) H = []"
      proof (rule ccontr)
        assume "filter (\<lambda>h. h div width l = s) H \<noteq> []"
        then obtain h where "h \<in> set H" "h div width l = s" by (auto simp: filter_empty_conv)
        with D(3,4) [OF i] False now div_le_mono [OF now, of "width l"] show False
          unfolding i_def s_def by fastforce
      qed
      with False show ?thesis by (simp add: b_def)
    qed
    ultimately show ?thesis by (simp add: b'_def sat_add_sat)
  qed
  show ?thesis
    unfolding eq buckets_ok_def
  proof (intro conjI allI impI)
    show "length bs' = 65" by (rule len')
    show "\<forall>h \<in> set (H @ [now]). h \<le> now" using past now by fastforce
  next
    fix j :: nat assume j: "j < 65"
    show "b_count (bs' ! j) = sat (length (filter (in_bucket l bs' j) (H @ [now])))"
    proof (cases "j = i")
      case False
      then have "in_bucket l bs' j = in_bucket l bs j" "\<not> in_bucket l bs j now"
        using at [OF j] by (auto simp: in_bucket_def fun_eq_iff i_def s_def)
      with False at [OF j] D(1) [OF j] show ?thesis by simp
    qed (use cnt at [OF i] in simp)
    show "b_slot (bs' ! j) mod 65 = j \<or> b_slot (bs' ! j) = 0"
      using at [OF j] D(2) [OF j] slot by (simp add: i_def)
    show "b_slot (bs' ! j) \<le> now div width l"
      using at [OF j] D(3) [OF j] slot div_le_mono [OF now, of "width l"] by (simp add: s_def)
    show "\<forall>h \<in> set (H @ [now]). h div width l mod 65 = j \<longrightarrow> h div width l \<le> b_slot (bs' ! j)"
      using at [OF j] D(4) [OF j] slot old by (auto simp: i_def s_def)
  qed
qed

subsection \<open>The sliding window\<close>

lemma valid_width:
  assumes "validate_limits l = None"
  shows "0 < width l" "lim_window_ms l \<le> 64 * width l" "width l \<le> 56251" "lim_window_ms l \<le> 3600000"
    "lim_requests l \<le> 1000000000" "lim_mitigation_ms l \<le> 86400000"
  using assms by (auto simp: validate_limits_def width_def bucket_count_def)

lemma live_iff:
  assumes "validate_limits l = None" "slot \<le> now div width l" "now < 2 ^ 62"
  shows "live slot now l \<longleftrightarrow> now < (slot + 1) * width l + lim_window_ms l"
proof -
  note w = valid_width [OF assms(1)]
  have sw: "slot * width l \<le> now"
    using assms(2) by (meson div_times_less_eq_dividend le_trans mult_le_mono1)
  then have "slot \<le> now" using w(1) by (metis le_trans mult.commute mult_le_mono1 mult.left_neutral Suc_leI One_nat_def)
  then have "u64 (slot + 1) = slot + 1" using assms(3) by (simp add: u64_def)
  moreover have "(slot + 1) * width l \<le> now + 56251" using sw w(3) by (simp add: algebra_simps)
  ultimately show ?thesis
    using assms(3) w(4) by (simp add: live_def u64_def)
qed

text \<open>The requests a window has seen; the second count is a little more generous.\<close>

definition in_window :: "cc_limits \<Rightarrow> nat \<Rightarrow> nat \<Rightarrow> bool" where
  "in_window l now h \<longleftrightarrow> now < h + lim_window_ms l"

definition near_window :: "cc_limits \<Rightarrow> nat \<Rightarrow> nat \<Rightarrow> bool" where
  "near_window l now h \<longleftrightarrow> now < h + lim_window_ms l + width l"

lemma live_sum_eq:
  assumes "buckets_ok l H now bs"
  shows "live_sum bs now l =
    sat (\<Sum>i < 65. if live (b_slot (bs ! i)) now l then b_count (bs ! i) else 0)"
proof -
  have len: "length bs = 65" and small: "\<And>b. b \<in> set bs \<Longrightarrow> b_count b \<le> u64_max"
    using assms by (auto simp: buckets_ok_def in_set_conv_nth)
  have "live_sum bs now l = sat (sum_list (map (\<lambda>b. if live (b_slot b) now l then b_count b else 0) bs))"
    unfolding live_sum_def using foldl_sat [of bs b_count _ 0] small by simp
  then show ?thesis by (simp add: sum_list_sum_nth len atLeast0LessThan)
qed

lemma div_bounds: "0 < w \<Longrightarrow> h div w * w \<le> h \<and> h < (h div w + 1) * w" for h w :: nat
  by (metis Suc_eq_plus1 div_times_less_eq_dividend dividend_less_div_times mult_Suc)

text \<open>A request inside the window is in a live bucket that still has its slot.\<close>

lemma in_window_live:
  assumes l: "validate_limits l = None" and ok: "buckets_ok l H now bs" and now: "now < 2 ^ 62"
    and h: "h \<in> set H" "in_window l now h"
  defines "i \<equiv> (h div width l) mod 65"
  shows "live (b_slot (bs ! i)) now l \<and> in_bucket l bs i h"
proof -
  note w = valid_width [OF l]
  have i: "i < 65" by (simp add: i_def)
  note D = buckets_okD [OF ok i]
  let ?s = "h div width l" and ?b = "b_slot (bs ! i)"
  have hb: "?s * width l \<le> h" "h < (?s + 1) * width l" using div_bounds [OF w(1)] by auto
  have le: "?s \<le> ?b" using D(4) [OF h(1)] i_def by simp
  have "?b = ?s"
  proof (rule ccontr)
    assume "?b \<noteq> ?s"
    with le have less: "?s < ?b" by simp
    with D(2) have "?b mod 65 = ?s mod 65" by (auto simp: i_def)
    with less have "?s + 65 \<le> ?b"
      by (metis add_le_cancel_left le_add_diff_inverse less_imp_le mod_eq_dvd_iff_nat nat_dvd_not_less not_le zero_less_diff)
    then have "(?s + 65) * width l \<le> ?b * width l" by (rule mult_le_mono1)
    also have "\<dots> \<le> now" using D(3) by (meson div_times_less_eq_dividend le_trans mult_le_mono1)
    finally have "h + 64 * width l < now" using hb(2) by (simp add: algebra_simps)
    with h(2) w(2) show False by (simp add: in_window_def)
  qed
  moreover have "now < (?s + 1) * width l + lim_window_ms l"
    using hb(2) h(2) by (simp add: in_window_def)
  ultimately show ?thesis
    using live_iff [OF l D(3) now] by (simp add: in_bucket_def i_def)
qed

lemma window_bounds:
  assumes l: "validate_limits l = None" and ok: "buckets_ok l H now bs" and now: "now < 2 ^ 62"
  shows "live_sum bs now l \<le> lim_requests l \<Longrightarrow> length (filter (in_window l now) H) \<le> lim_requests l"
    and "lim_requests l < live_sum bs now l \<Longrightarrow> lim_requests l < length (filter (near_window l now) H)"
proof -
  note w = valid_width [OF l]
  let ?Q = "\<lambda>i h. live (b_slot (bs ! i)) now l \<and> in_bucket l bs i h"
  let ?S = "\<Sum>i < 65. if live (b_slot (bs ! i)) now l then b_count (bs ! i) else 0"
  have count: "(if live (b_slot (bs ! i)) now l then b_count (bs ! i) else 0) = sat (length (filter (?Q i) H))"
    if "i < 65" for i using buckets_okD(1) [OF ok that] by simp
  have sum: "?S = (\<Sum>i < 65. sat (length (filter (?Q i) H)))" by (rule sum.cong) (use count in auto)
  have upper: "(\<Sum>i < 65. length (filter (?Q i) H)) \<le> length (filter (near_window l now) H)"
  proof (rule sum_length_filter_le [where f = "\<lambda>h. (h div width l) mod 65"])
    fix i h assume h: "h \<in> set H" "?Q i h"
    then have s: "h div width l = b_slot (bs ! i)" "i = (h div width l) mod 65" by (auto simp: in_bucket_def)
    then have i: "i < 65" by simp
    have "now < (h div width l + 1) * width l + lim_window_ms l"
      using h(2) live_iff [OF l buckets_okD(3) [OF ok i] now] unfolding s(1) by blast
    then have "now < h div width l * width l + width l + lim_window_ms l" by (simp add: algebra_simps)
    moreover have "h div width l * width l \<le> h" by (rule div_times_less_eq_dividend)
    ultimately have "now < h + lim_window_ms l + width l" by linarith
    then show "near_window l now h \<and> (h div width l) mod 65 = i"
      using s(2) by (simp add: near_window_def)
  qed
  have lower: "length (filter (in_window l now) H) \<le> (\<Sum>i < 65. length (filter (?Q i) H))"
    by (rule length_filter_le_sum [where f = "\<lambda>h. (h div width l) mod 65"])
      (intro conjI mod_less_divisor in_window_live [OF l ok now, THEN conjunct1]
        in_window_live [OF l ok now, THEN conjunct2], simp_all)
  show "lim_requests l < length (filter (near_window l now) H)" if "lim_requests l < live_sum bs now l"
  proof -
    have "live_sum bs now l \<le> ?S" unfolding live_sum_eq [OF ok] by (simp add: sat_def)
    also have "\<dots> \<le> (\<Sum>i < 65. length (filter (?Q i) H))"
      unfolding sum by (rule sum_mono) (simp add: sat_def)
    finally show ?thesis using upper that by simp
  qed
  show "length (filter (in_window l now) H) \<le> lim_requests l" if "live_sum bs now l \<le> lim_requests l"
  proof -
    have "?S \<le> lim_requests l" using that w(5) unfolding live_sum_eq [OF ok] by (simp add: sat_def min_def split: if_splits)
    moreover have "length (filter (?Q i) H) = sat (length (filter (?Q i) H))" if "i < 65" for i
    proof -
      have "sat (length (filter (?Q i) H)) \<le> ?S"
        unfolding sum by (rule member_le_sum) (use that in auto)
      with \<open>?S \<le> lim_requests l\<close> w(5) show ?thesis by (simp add: sat_def min_def split: if_splits)
    qed
    then have "(\<Sum>i < 65. length (filter (?Q i) H)) = ?S"
      unfolding sum by (intro sum.cong refl) (simp only: lessThan_iff)
    ultimately show ?thesis using lower by simp
  qed
qed

subsection \<open>A worker over time\<close>

text \<open>
  A worker with the clock of its last call and, for one key, the times of the requests it counted.
  A step is one call at the same or a later time.
\<close>

record cc_world =
  cc_state :: cc_worker
  cc_clock :: nat
  cc_counted :: "nat list"

definition counts_now :: "cc_key \<Rightarrow> nat \<Rightarrow> cc_worker \<Rightarrow> bool" where
  "counts_now k now w \<longleftrightarrow> published_decision (cw_dispositions w) k now = None \<and>
     (case map_of (cw_entries w) k of
        None \<Rightarrow> length (cw_entries w) < cw_capacity w
      | Some e \<Rightarrow> ce_blocked_until e \<le> now)"

inductive cc_step :: "cc_key \<Rightarrow> cc_limits \<Rightarrow> cc_world \<Rightarrow> cc_world \<Rightarrow> bool" for k l where
  check_key: "cc_clock W \<le> now \<Longrightarrow> now < 2 ^ 62 \<Longrightarrow> worker_check k l now (cc_state W) = Inr (d, w) \<Longrightarrow>
     cc_step k l W \<lparr>cc_state = w, cc_clock = now,
       cc_counted = (if counts_now k now (cc_state W) then cc_counted W @ [now] else cc_counted W)\<rparr>"
| check_other: "k' \<noteq> k \<Longrightarrow> cc_clock W \<le> now \<Longrightarrow> now < 2 ^ 62 \<Longrightarrow>
     worker_check k' l' now (cc_state W) = Inr (d, w) \<Longrightarrow> cc_step k l W (W\<lparr>cc_state := w, cc_clock := now\<rparr>)"
| report: "cc_clock W \<le> now \<Longrightarrow> now < 2 ^ 62 \<Longrightarrow> worker_report now (cc_state W) = (batch, w) \<Longrightarrow>
     cc_step k l W (W\<lparr>cc_state := w, cc_clock := now\<rparr>)"
| acknowledge: "cc_step k l W (W\<lparr>cc_state := acknowledge (cc_state W)\<rparr>)"
| publish: "cc_step k l W (W\<lparr>cc_state := worker_publish v (cc_state W)\<rparr>)"

definition cc_start :: "cc_world \<Rightarrow> bool" where
  "cc_start W \<longleftrightarrow> (\<exists>inst capacity. W = \<lparr>cc_state = new_worker inst capacity, cc_clock = 0, cc_counted = []\<rparr>)"

text \<open>Requests so old that no bucket need remember them.\<close>

definition forgotten :: "cc_limits \<Rightarrow> nat \<Rightarrow> nat list \<Rightarrow> bool" where
  "forgotten l clock H \<longleftrightarrow> (\<forall>h \<in> set H. h + lim_window_ms l + width l \<le> clock)"

definition entry_ok :: "cc_limits \<Rightarrow> nat \<Rightarrow> nat list \<Rightarrow> cc_entry \<Rightarrow> bool" where
  "entry_ok l clock H e \<longleftrightarrow> ce_limits e = l \<and> validate_limits l = None \<and> ce_last_seen e \<le> clock \<and>
     (\<exists>old recent. H = old @ recent \<and> forgotten l clock old \<and> buckets_ok l recent clock (ce_buckets e) \<and>
        (\<forall>h \<in> set recent. h \<le> ce_last_seen e))"

definition remembered :: "cc_limits \<Rightarrow> nat \<Rightarrow> nat list \<Rightarrow> cc_entry option \<Rightarrow> bool" where
  "remembered l clock H found = (case found of None \<Rightarrow> forgotten l clock H | Some e \<Rightarrow> entry_ok l clock H e)"

definition cc_ok :: "cc_key \<Rightarrow> cc_limits \<Rightarrow> cc_world \<Rightarrow> bool" where
  "cc_ok k l W \<longleftrightarrow> cc_clock W < 2 ^ 62 \<and> distinct (map fst (cw_entries (cc_state W))) \<and>
     remembered l (cc_clock W) (cc_counted W) (map_of (cw_entries (cc_state W)) k)"

lemma remembered_simps [simp]:
  "remembered l clock H None = forgotten l clock H" "remembered l clock H (Some e) = entry_ok l clock H e"
  by (simp_all add: remembered_def)

lemma forgotten_later: "forgotten l clock H \<Longrightarrow> clock \<le> now \<Longrightarrow> forgotten l now H"
  by (auto simp: forgotten_def)

lemma entry_ok_later: "entry_ok l clock H e \<Longrightarrow> clock \<le> now \<Longrightarrow> entry_ok l now H e"
  unfolding entry_ok_def using forgotten_later buckets_ok_later le_trans by metis

lemma remembered_later: "remembered l clock H found \<Longrightarrow> clock \<le> now \<Longrightarrow> remembered l now H found"
  by (cases found) (auto intro: forgotten_later entry_ok_later)

lemma entry_ok_new:
  "validate_limits l = None \<Longrightarrow> forgotten l clock H \<Longrightarrow> entry_ok l clock H (new_cc_entry l)"
  unfolding entry_ok_def
  by (intro conjI exI [where x = H] exI [where x = "[]"] buckets_ok_new)
    (simp_all add: new_cc_entry_def)

lemma count_request_entry:
  assumes "entry_ok l clock H e" "clock \<le> now"
  shows "entry_ok l now (H @ [now]) (count_request l now e)"
proof -
  from assms(1) obtain old recent where H: "H = old @ recent" "forgotten l clock old"
    "buckets_ok l recent clock (ce_buckets e)" "ce_limits e = l" "validate_limits l = None" by (auto simp: entry_ok_def)
  have "\<forall>h \<in> set (recent @ [now]). h \<le> now" using H(3) assms(2) by (auto simp: buckets_ok_def)
  moreover have "ce_limits (count_request l now e) = l" "ce_last_seen (count_request l now e) = now"
    using H(4) by (simp_all add: count_request_def Let_def)
  ultimately show ?thesis
    using count_request_ok [OF H(3) assms(2)] forgotten_later [OF H(2) assms(2)] H(1,5)
    unfolding entry_ok_def by (intro conjI exI [of _ old] exI [of _ "recent @ [now]"]) simp_all
qed

lemma entry_ok_fields [simp]:
  "entry_ok l clock H (e\<lparr>ce_blocked_until := u\<rparr>) = entry_ok l clock H e"
  "entry_ok l clock H (e\<lparr>ce_dirty := b\<rparr>) = entry_ok l clock H e"
  by (simp_all add: entry_ok_def)

lemma check_entry_ok:
  assumes "entry_ok l clock H e" "clock \<le> now" "check_entry l now e = (d, e')"
  shows "entry_ok l now (if ce_blocked_until e \<le> now then H @ [now] else H) e'"
proof (cases "ce_blocked_until e \<le> now")
  case True
  then have "e' = count_request l now e \<or> (\<exists>u. e' = (count_request l now e)\<lparr>ce_blocked_until := u\<rparr>)"
    using assms(3) by (auto simp: check_entry_def Let_def split: if_splits)
  with True count_request_entry [OF assms(1,2)] show ?thesis
    by auto
next
  case False
  with assms(3) have "e' = e" by (simp add: check_entry_def)
  with False entry_ok_later [OF assms(1,2)] show ?thesis by simp
qed

lemma worker_check_other:
  assumes "worker_check k' l' now w = Inr (d, w')" "k' \<noteq> k"
  shows "map_of (cw_entries w') k = map_of (cw_entries w) k"
  using assms by (auto simp: worker_check_def split: option.splits if_splits prod.splits)

lemma worker_check_distinct:
  assumes "worker_check k' l' now w = Inr (d, w')" "distinct (map fst (cw_entries w))"
  shows "distinct (map fst (cw_entries w'))"
  using assms by (auto simp: worker_check_def distinct_put split: option.splits if_splits prod.splits)

lemma worker_check_key:
  assumes ok: "cc_ok k l W" and now: "cc_clock W \<le> now" "now < 2 ^ 62"
    and run: "worker_check k l now (cc_state W) = Inr (d, w)"
  shows "cc_ok k l \<lparr>cc_state = w, cc_clock = now,
      cc_counted = (if counts_now k now (cc_state W) then cc_counted W @ [now] else cc_counted W)\<rparr>"
proof -
  let ?H = "cc_counted W" and ?E = "cw_entries (cc_state W)"
  have dist: "distinct (map fst (cw_entries w))"
    using worker_check_distinct [OF run] ok by (simp add: cc_ok_def)
  show ?thesis
  proof (cases "published_decision (cw_dispositions (cc_state W)) k now")
    case (Some x)
    with run have "w = cc_state W" by (simp add: worker_check_def)
    with Some ok now dist show ?thesis
      by (auto simp: cc_ok_def counts_now_def intro: remembered_later)
  next
    case free: None
    show ?thesis
    proof (cases "map_of ?E k")
      case None
      then have old: "forgotten l (cc_clock W) ?H" using ok by (simp add: cc_ok_def)
      show ?thesis
      proof (cases "length ?E < cw_capacity (cc_state W)")
        case False
        with run free None have "w = cc_state W" by (simp add: worker_check_def)
        with False free None old now dist show ?thesis
          by (auto simp: cc_ok_def counts_now_def intro: forgotten_later)
      next
        case True
        with run free None have valid: "validate_limits l = None"
          by (auto simp: worker_check_def split: option.splits)
        obtain d1 e where e: "check_entry l now (new_cc_entry l) = (d1, e)" by (rule prod.exhaust)
        have "w = (cc_state W)\<lparr>cw_entries := put k e ?E\<rparr>"
          using run free None True valid e by (auto simp: worker_check_def)
        moreover have "entry_ok l now (?H @ [now]) e"
          using check_entry_ok [OF entry_ok_new [OF valid old] now(1) e] by (simp add: new_cc_entry_def)
        ultimately show ?thesis
          using True free None now dist by (simp add: cc_ok_def counts_now_def)
      qed
    next
      case (Some e0)
      then have e0: "entry_ok l (cc_clock W) ?H e0" using ok by (simp add: cc_ok_def)
      then have lim: "ce_limits e0 = l" by (simp add: entry_ok_def)
      obtain d1 e where e: "check_entry l now e0 = (d1, e)" by (rule prod.exhaust)
      have "w = (cc_state W)\<lparr>cw_entries := put k e ?E\<rparr>"
        using run free Some lim e by (simp add: worker_check_def)
      with check_entry_ok [OF e0 now(1) e] free Some now dist show ?thesis
        by (simp add: cc_ok_def counts_now_def)
    qed
  qed
qed

lemma expired_forgotten:
  assumes "entry_ok l clock H e" "clock \<le> now" "now < 2 ^ 62" "expired now e"
  shows "forgotten l now H"
proof -
  from assms(1) obtain old recent where H: "H = old @ recent" "forgotten l clock old"
    "\<forall>h \<in> set recent. h \<le> ce_last_seen e" and l: "validate_limits l = None" "ce_limits e = l" "ce_last_seen e \<le> clock"
    by (auto simp: entry_ok_def)
  note w = valid_width [OF l(1)]
  have "ce_last_seen e + lim_window_ms l + width l \<le> now"
    using assms(2-4) w l(2,3) by (simp add: expired_def u64_def)
  with H forgotten_later [OF H(2) assms(2)] show ?thesis by (fastforce simp: forgotten_def)
qed

lemma map_of_filter_distinct:
  "distinct (map fst m) \<Longrightarrow> map_of (filter (\<lambda>(k, v). P v) m) k =
    (case map_of m k of None \<Rightarrow> None | Some v \<Rightarrow> if P v then Some v else None)"
  by (induction m) (auto simp: map_of_eq_None_iff image_iff split: option.splits dest: map_of_SomeD)

lemma map_of_undirty:
  "map_of (map (\<lambda>(k, e). (k, e\<lparr>ce_dirty := False\<rparr>)) m) k = map_option (\<lambda>e. e\<lparr>ce_dirty := False\<rparr>) (map_of m k)"
  by (induction m) auto

lemma keys_undirty: "map (fst \<circ> (\<lambda>(k, e). (k, e\<lparr>ce_dirty := False\<rparr>))) m = map fst m"
  by (induction m) auto

lemma cc_step_ok: "cc_step k l W W' \<Longrightarrow> cc_ok k l W \<Longrightarrow> cc_ok k l W'"
proof (induction rule: cc_step.induct)
  case (check_key W now d w)
  then show ?case by (intro worker_check_key)
next
  case (check_other k' W now l' d w)
  then show ?case
    using worker_check_other [OF check_other.hyps(4,1)] worker_check_distinct [OF check_other.hyps(4)]
    by (auto simp: cc_ok_def intro: remembered_later)
next
  case (report W now batch w)
  then have w: "cw_entries w = filter (\<lambda>(k, e). \<not> expired now e) (cw_entries (cc_state W))"
    by (auto simp: worker_report_def Let_def)
  have dist: "distinct (map fst (cw_entries (cc_state W)))" using report.prems by (simp add: cc_ok_def)
  note find = map_of_filter_distinct [OF dist, of "\<lambda>e. \<not> expired now e" k]
  show ?case
    using report.prems report.hyps(1,2) dist
    by (cases "map_of (cw_entries (cc_state W)) k")
      (auto simp: cc_ok_def w find distinct_map_filter intro: forgotten_later entry_ok_later expired_forgotten)
next
  case (acknowledge W)
  then show ?case
    by (cases "map_of (cw_entries (cc_state W)) k") (simp_all add: cc_ok_def acknowledge_def map_of_undirty keys_undirty)
next
  case (publish W v)
  then show ?case by (auto simp: cc_ok_def worker_publish_def split: option.splits)
qed

interpretation cc_machine: state_machine cc_start "cc_step k l" "cc_ok k l"
proof unfold_locales
  show "cc_ok k l W" if "cc_start W" for W
    using that by (auto simp: cc_start_def cc_ok_def new_worker_def forgotten_def)
qed (rule cc_step_ok)

lemma checked_window:
  assumes "cc_start W0" "(cc_step k l)\<^sup>*\<^sup>* W0 W" "cc_clock W \<le> now" "now < 2 ^ 62"
    and "worker_check k l now (cc_state W) = Inr (d, w)" "counts_now k now (cc_state W)"
  obtains e :: cc_entry and old recent where "cc_counted W @ [now] = old @ recent" "forgotten l now old"
    "validate_limits l = None" "buckets_ok l recent now (ce_buckets e)"
    "d = (if live_sum (ce_buckets e) now l > lim_requests l then Block else Allow)"
proof -
  have ok: "cc_ok k l W" by (rule cc_machine.reachable_invariant [OF assms(1,2)])
  obtain e0 where e0: "entry_ok l (cc_clock W) (cc_counted W) e0" "ce_blocked_until e0 \<le> now"
    and d: "d = fst (check_entry l now e0)"
  proof (cases "map_of (cw_entries (cc_state W)) k")
    case None
    with assms(5,6) have valid: "validate_limits l = None" and d: "d = fst (check_entry l now (new_cc_entry l))"
      by (auto simp: worker_check_def counts_now_def split: option.splits prod.splits)
    have "forgotten l (cc_clock W) (cc_counted W)" using ok None by (simp add: cc_ok_def)
    from that [OF entry_ok_new [OF valid this] _ d] show ?thesis by (simp add: new_cc_entry_def)
  next
    case (Some e0)
    with ok have e0: "entry_ok l (cc_clock W) (cc_counted W) e0" by (simp add: cc_ok_def)
    with Some assms(5,6) have "d = fst (check_entry l now e0)" "ce_blocked_until e0 \<le> now"
      by (auto simp: worker_check_def counts_now_def entry_ok_def split: prod.splits if_splits)
    with that e0 show ?thesis by blast
  qed
  define e where "e = count_request l now e0"
  from count_request_entry [OF e0(1) assms(3)] obtain old recent where
    "cc_counted W @ [now] = old @ recent" "forgotten l now old" "validate_limits l = None"
    "buckets_ok l recent now (ce_buckets e)" by (auto simp: entry_ok_def e_def)
  then show ?thesis
    by (rule that) (use d e0(2) in \<open>simp add: check_entry_def Let_def e_def\<close>)
qed

text \<open>
  Claim C29.  The rate limit is enforced: whenever a worker allows a request, it has counted at most
  the permitted number of requests of that key, this one included, within the window before it.
  Calls for other keys, reports, acknowledgements and publications in between do not matter.
\<close>

theorem allowed_within_limit:
  assumes "cc_start W0" "(cc_step k l)\<^sup>*\<^sup>* W0 W" "cc_clock W \<le> now" "now < 2 ^ 62"
    and "worker_check k l now (cc_state W) = Inr (Allow, w)"
  shows "length (filter (in_window l now) (cc_counted W @ [now])) \<le> lim_requests l"
proof -
  have "counts_now k now (cc_state W)"
    using assms(5) by (auto simp: worker_check_def counts_now_def published_decision_def check_entry_def Let_def
        split: option.splits if_splits prod.splits)
  from checked_window [OF assms this] obtain e :: cc_entry and old recent where
    H: "cc_counted W @ [now] = old @ recent" "forgotten l now old"
    "validate_limits l = None" "buckets_ok l recent now (ce_buckets e)"
    "Allow = (if live_sum (ce_buckets e) now l > lim_requests l then Block else Allow)" .
  have "filter (in_window l now) old = []"
    using H(2) by (fastforce simp: filter_empty_conv forgotten_def in_window_def)
  moreover have "length (filter (in_window l now) recent) \<le> lim_requests l"
    using window_bounds(1) [OF H(3,4) assms(4)] H(5) by (simp split: if_splits)
  ultimately show ?thesis by (simp only: H(1) filter_append append_Nil)
qed

text \<open>
  Claim C30.  A key is not blocked without cause: when a worker newly blocks a key, it has counted
  more than the permitted number of its requests within the window plus one bucket.
\<close>

theorem blocked_with_cause:
  assumes "cc_start W0" "(cc_step k l)\<^sup>*\<^sup>* W0 W" "cc_clock W \<le> now" "now < 2 ^ 62"
    and "worker_check k l now (cc_state W) = Inr (Block, w)" "counts_now k now (cc_state W)"
  shows "lim_requests l < length (filter (near_window l now) (cc_counted W @ [now]))"
proof -
  from checked_window [OF assms] obtain e :: cc_entry and old recent where
    H: "cc_counted W @ [now] = old @ recent" "forgotten l now old"
    "validate_limits l = None" "buckets_ok l recent now (ce_buckets e)"
    "Block = (if live_sum (ce_buckets e) now l > lim_requests l then Block else Allow)" .
  have "lim_requests l < length (filter (near_window l now) recent)"
    using window_bounds(2) [OF H(3,4) assms(4)] H(5) by (simp split: if_splits)
  then show ?thesis by (simp only: H(1) filter_append length_append)
qed

subsection \<open>An example\<close>

definition sample_key :: cc_key where
  "sample_key = \<lparr>k_website = ''w'', k_policy = ''p'', k_rule = ''r'', k_address = ''10.0.0.1''\<rparr>"

definition sample_limits :: cc_limits where
  "sample_limits = \<lparr>lim_requests = 1, lim_window_ms = 1000, lim_mitigation_ms = 1000\<rparr>"

definition sample_world :: cc_world where
  "sample_world = \<lparr>cc_state = new_worker 0 4, cc_clock = 0, cc_counted = []\<rparr>"

lemma sample_start: "cc_start sample_world"
  by (auto simp: cc_start_def sample_world_def)

lemma sample_defs: "width sample_limits = 16" "validate_limits sample_limits = None"
  "lim_requests sample_limits = 1" "lim_window_ms sample_limits = 1000" "lim_mitigation_ms sample_limits = 1000"
  by (simp_all add: sample_limits_def width_def bucket_count_def validate_limits_def)

lemma sample_count:
  "live_sum (ce_buckets (count_request sample_limits 100 (new_cc_entry sample_limits))) 100 sample_limits = 1"
proof -
  have alive: "live 0 100 sample_limits" "live 6 100 sample_limits" by (simp_all add: live_def sample_defs u64_def)
  have keep: "foldl (\<lambda>acc item. if live (b_slot item) 100 sample_limits then sat_add acc (b_count item) else acc)
      a (replicate n \<lparr>b_slot = 0, b_count = 0\<rparr>) = a" if "a \<le> u64_max" for a n
    using that by (induction n) (simp_all add: sat_add_def)
  have upd: "(replicate 65 x)[6 := y] = replicate 6 x @ y # replicate 58 x" for x y :: bucket
    by (simp add: eval_nat_numeral)
  have "ce_buckets (count_request sample_limits 100 (new_cc_entry sample_limits)) =
      replicate 6 \<lparr>b_slot = 0, b_count = 0\<rparr> @ \<lparr>b_slot = 6, b_count = 1\<rparr> # replicate 58 \<lparr>b_slot = 0, b_count = 0\<rparr>"
    by (simp add: count_request_def new_cc_entry_def Let_def sample_defs bucket_count_def upd sat_add_def
        del: replicate_Suc)
  then show ?thesis by (simp add: live_sum_def keep alive sat_add_def del: replicate_Suc)
qed

lemma sample_allowed: "\<exists>w. worker_check sample_key sample_limits 100 (cc_state sample_world) = Inr (Allow, w)"
  using sample_count
  by (simp add: worker_check_def sample_world_def new_worker_def published_decision_def sample_defs check_entry_def
      Let_def) (simp add: new_cc_entry_def)

theorem allowed_within_limit_witness:
  "\<exists>w. worker_check sample_key sample_limits 100 (cc_state sample_world) = Inr (Allow, w) \<and>
     length (filter (in_window sample_limits 100) ([] @ [100])) \<le> lim_requests sample_limits"
proof -
  from sample_allowed obtain w where w: "worker_check sample_key sample_limits 100 (cc_state sample_world) = Inr (Allow, w)"
    by blast
  from allowed_within_limit [OF sample_start rtranclp.rtrancl_refl _ _ w] w show ?thesis
    by (simp add: sample_world_def)
qed

text \<open>A second request of the same key at the same time is one too many.\<close>

definition sample_next :: cc_world where
  "sample_next = \<lparr>cc_state = (new_worker 0 4)\<lparr>cw_entries :=
      [(sample_key, count_request sample_limits 100 (new_cc_entry sample_limits))]\<rparr>, cc_clock = 100, cc_counted = [100]\<rparr>"

lemma sample_step: "(cc_step sample_key sample_limits)\<^sup>*\<^sup>* sample_world sample_next"
proof -
  have run: "worker_check sample_key sample_limits 100 (cc_state sample_world) = Inr (Allow, cc_state sample_next)"
    using sample_count
    by (simp add: worker_check_def sample_world_def sample_next_def new_worker_def published_decision_def sample_defs
        check_entry_def Let_def) (simp add: new_cc_entry_def)
  have "counts_now sample_key 100 (cc_state sample_world)"
    by (simp add: counts_now_def sample_world_def new_worker_def published_decision_def)
  with cc_step.check_key [OF _ _ run] have "cc_step sample_key sample_limits sample_world sample_next"
    by (simp add: sample_world_def sample_next_def)
  then show ?thesis by (rule r_into_rtranclp)
qed

lemma sample_blocked:
  "counts_now sample_key 100 (cc_state sample_next) \<and>
   (\<exists>w. worker_check sample_key sample_limits 100 (cc_state sample_next) = Inr (Block, w))"
proof -
  define e where "e = count_request sample_limits 100 (new_cc_entry sample_limits)"
  have fields: "ce_blocked_until e = 0" "ce_limits e = sample_limits"
    by (simp_all add: e_def count_request_def new_cc_entry_def Let_def)
  have "buckets_ok sample_limits ([] @ [100]) 100 (ce_buckets e)"
    unfolding e_def by (rule count_request_ok [OF buckets_ok_new order_refl])
  from count_request_ok [OF this order_refl]
  have "buckets_ok sample_limits [100, 100] 100 (ce_buckets (count_request sample_limits 100 e))" by simp
  from window_bounds(1) [OF sample_defs(2) this]
  have "\<not> live_sum (ce_buckets (count_request sample_limits 100 e)) 100 sample_limits \<le> 1"
    by (auto simp: sample_defs in_window_def)
  then have "live_sum (ce_buckets (count_request sample_limits 100 e)) 100 sample_limits > 1" by simp
  then show ?thesis
    by (simp add: counts_now_def worker_check_def sample_next_def new_worker_def published_decision_def
        e_def [symmetric] fields check_entry_def Let_def sample_defs)
qed

theorem blocked_with_cause_witness:
  "\<exists>w. worker_check sample_key sample_limits 100 (cc_state sample_next) = Inr (Block, w) \<and>
     lim_requests sample_limits < length (filter (near_window sample_limits 100) ([100] @ [100]))"
proof -
  from sample_blocked obtain w where counts: "counts_now sample_key 100 (cc_state sample_next)"
    and w: "worker_check sample_key sample_limits 100 (cc_state sample_next) = Inr (Block, w)" by blast
  from blocked_with_cause [OF sample_start sample_step _ _ w counts] w show ?thesis
    by (simp add: sample_next_def)
qed

subsection \<open>Totals of the aggregator\<close>

text \<open>The counts a worker reported for a key and a slot in some batches.\<close>

definition reported :: "cc_batch list \<Rightarrow> nat \<Rightarrow> cc_key \<Rightarrow> nat \<Rightarrow> nat set" where
  "reported batches inst k s = {n. \<exists>batch \<in> set batches. \<exists>c \<in> set (ba_counts batch).
     ba_instance batch = inst \<and> n_key c = k \<and> n_bucket c = s \<and> n_count c = n}"

text \<open>
  Every bucket total is the saturated sum of one count per worker, and each is a count that worker reported
  for this key and this slot.
\<close>

definition agg_bucket_ok :: "cc_batch list \<Rightarrow> nat \<Rightarrow> cc_key \<Rightarrow> agg_bucket \<Rightarrow> bool" where
  "agg_bucket_ok batches workers k b \<longleftrightarrow> distinct (map fst (ab_sources b)) \<and> ab_total b = sat (sum_list (map snd (ab_sources b))) \<and>
     list_all (\<lambda>(inst, n). inst < workers \<and> n \<in> reported batches inst k (ab_slot b)) (ab_sources b)"

definition agg_entry_ok :: "cc_batch list \<Rightarrow> nat \<Rightarrow> cc_key \<Rightarrow> agg_entry \<Rightarrow> bool" where
  "agg_entry_ok batches workers k e \<longleftrightarrow> length (ae_buckets e) = 65 \<and> list_all (agg_bucket_ok batches workers k) (ae_buckets e)"

definition entries_ok :: "cc_batch list \<Rightarrow> nat \<Rightarrow> (cc_key \<times> agg_entry) list \<Rightarrow> bool" where
  "entries_ok batches workers es \<longleftrightarrow> distinct (map fst es) \<and> list_all (\<lambda>(k, e). agg_entry_ok batches workers k e) es"

lemma sum_put:
  "distinct (map fst m) \<Longrightarrow> sum_list (map snd (put k v m)) + (case map_of m k of None \<Rightarrow> 0 | Some n \<Rightarrow> n) =
    sum_list (map snd m) + (v :: nat)"
  by (induction k v m rule: put.induct) (auto split: option.splits simp: map_of_eq_None_iff image_iff dest: map_of_SomeD)

lemma put_ok: "list_all P m \<Longrightarrow> P (k, v) \<Longrightarrow> list_all P (put k v m)"
  by (induction k v m rule: put.induct) auto

lemma map_of_ok: "list_all P m \<Longrightarrow> map_of m k = Some v \<Longrightarrow> P (k, v)"
  by (auto simp: list_all_iff dest!: map_of_SomeD)

lemma length_put: "length (put k v m) = (if map_of m k = None then Suc (length m) else length m)"
  by (induction k v m rule: put.induct) auto

lemma empty_agg_bucket_ok: "agg_bucket_ok batches workers k empty_agg_bucket"
  "agg_bucket_ok batches workers k \<lparr>ab_slot = s, ab_total = 0, ab_sources = []\<rparr>"
  by (simp_all add: agg_bucket_ok_def empty_agg_bucket_def)

lemma merge_bucket_ok:
  assumes "agg_bucket_ok batches workers k b" "n_count c \<le> u64_max" "inst < workers"
    "n_count c \<in> reported batches inst k (n_bucket c)"
  shows "agg_bucket_ok batches workers k (snd (merge_bucket inst c b))"
proof -
  define b1 where "b1 = (if ab_slot b \<noteq> n_bucket c then \<lparr>ab_slot = n_bucket c, ab_total = 0, ab_sources = []\<rparr> else b)"
  define n where "n = max (n_count c) (source_count b1 inst)"
  have b1: "agg_bucket_ok batches workers k b1" and slot: "ab_slot b1 = n_bucket c"
    using assms(1) by (auto simp: b1_def empty_agg_bucket_ok)
  have result: "snd (merge_bucket inst c b) = b1\<lparr>ab_total := sat_add (ab_total b1) (n - source_count b1 inst),
      ab_sources := put inst n (ab_sources b1)\<rparr>"
  proof -
    have "ab_total b1 \<le> u64_max" using b1 by (simp add: agg_bucket_ok_def)
    then show ?thesis by (auto simp: merge_bucket_def Let_def b1_def [symmetric] n_def max_def sat_add_def)
  qed
  have sum: "sum_list (map snd (put inst n (ab_sources b1))) = sum_list (map snd (ab_sources b1)) + (n - source_count b1 inst)"
    using sum_put [of "ab_sources b1" inst n] b1 by (simp add: agg_bucket_ok_def source_count_def n_def)
  have "n \<in> reported batches inst k (n_bucket c)"
  proof (cases "map_of (ab_sources b1) inst")
    case None
    with assms(4) show ?thesis by (simp add: n_def source_count_def)
  next
    case (Some m)
    then have "m \<in> reported batches inst k (n_bucket c)"
      using b1 slot map_of_ok [of _ "ab_sources b1" inst m] by (fastforce simp: agg_bucket_ok_def)
    with assms(4) Some show ?thesis by (simp add: n_def source_count_def max_def)
  qed
  moreover have "n - source_count b1 inst \<le> u64_max" using assms(2) by (auto simp: n_def max_def)
  ultimately show ?thesis
    unfolding result using b1 slot assms(3) sum by (simp add: agg_bucket_ok_def sat_add_sat distinct_put put_ok)
qed

lemma new_agg_entry_ok: "agg_entry_ok batches workers k (new_agg_entry l)"
  by (simp add: agg_entry_ok_def new_agg_entry_def bucket_count_def empty_agg_bucket_ok list_all_iff del: replicate_Suc)

lemma merge_agg_entry_ok:
  assumes "agg_entry_ok batches workers k e" "n_count c \<le> u64_max" "inst < workers"
    "n_count c \<in> reported batches inst k (n_bucket c)"
  shows "agg_entry_ok batches workers k (merge_agg_entry inst c e)"
proof -
  have "agg_bucket_ok batches workers k (ae_buckets e ! (n_bucket c mod 65))"
    using assms(1) by (simp add: agg_entry_ok_def list_all_length)
  from merge_bucket_ok [OF this assms(2-4)] show ?thesis
    using assms(1) set_update_subset_insert [of "ae_buckets e" "n_bucket c mod 65"]
    by (auto simp: agg_entry_ok_def merge_agg_entry_def Let_def list_all_iff split: prod.splits
        dest!: set_update_subset_insert [THEN subsetD])
qed

lemma merge_count_ok:
  assumes "entries_ok batches workers (ag_entries a)" "n_count c \<le> u64_max" "merge_count batch now c a = Inr a'"
    "batch \<in> set batches" "c \<in> set (ba_counts batch)" "ba_instance batch < workers"
  shows "entries_ok batches workers (ag_entries a')"
proof -
  have "n_count c \<in> reported batches (ba_instance batch) (n_key c) (n_bucket c)"
    using assms(4,5) by (auto simp: reported_def)
  note merged = merge_agg_entry_ok [OF _ assms(2,6) this]
  have "agg_entry_ok batches workers (n_key c) e" if "map_of (ag_entries a) (n_key c) = Some e" for e
    using assms(1) that map_of_ok [of _ "ag_entries a"] by (fastforce simp: entries_ok_def)
  then show ?thesis
    using assms(1,3) merged new_agg_entry_ok
    by (auto simp: merge_count_def entries_ok_def distinct_put intro!: put_ok split: option.splits if_splits)
qed

lemma merge_counts_ok:
  "entries_ok batches workers (ag_entries a) \<Longrightarrow> list_all (\<lambda>c. n_count c \<le> u64_max) cs \<Longrightarrow> batch \<in> set batches \<Longrightarrow>
    set cs \<subseteq> set (ba_counts batch) \<Longrightarrow> ba_instance batch < workers \<Longrightarrow>
    entries_ok batches workers (ag_entries (snd (merge_counts batch now cs a)))"
proof (induction cs arbitrary: a)
  case (Cons c cs)
  then show ?case using merge_count_ok [OF Cons.prems(1), of c batch now] by (cases "merge_count batch now c a") auto
qed simp

lemma snapshot_loop_ok:
  assumes "entries_ok batches workers es"
  shows "entries_ok batches workers (snd (snapshot_loop now es blocked)) \<and>
    fst ` set (snd (snapshot_loop now es blocked)) \<subseteq> fst ` set es"
  using assms
proof (induction es arbitrary: blocked)
  case (Cons ke es)
  obtain k e where ke: "ke = (k, e)" by (rule prod.exhaust)
  obtain hits e' where e': "snapshot_entry now e = (hits, e')" by (rule prod.exhaust)
  have "agg_entry_ok batches workers k e" using Cons.prems ke by (simp add: entries_ok_def)
  then have "agg_entry_ok batches workers k e'"
    using e' empty_agg_bucket_ok(1)
    by (auto simp: agg_entry_ok_def snapshot_entry_def Let_def live_buckets_def list_all_iff)
  with Cons.IH Cons.prems show ?case
    by (auto simp: ke e' Let_def case_prod_beta image_iff entries_ok_def)
qed (simp add: entries_ok_def)

subsection \<open>Batches that come late, again or out of order\<close>

text \<open>
  A run of the aggregator with the batches it was handed that come from a worker and are not ahead of its clock,
  whether it merges them or finds them superseded.
\<close>

record agg_world =
  aw_state :: cc_aggregator
  aw_batches :: "cc_batch list"

definition timely :: "nat \<Rightarrow> nat \<Rightarrow> cc_batch \<Rightarrow> bool" where
  "timely workers now batch \<longleftrightarrow> ba_instance batch < workers \<and> ba_observed_ms batch \<le> now"

inductive agg_step :: "nat \<Rightarrow> agg_world \<Rightarrow> agg_world \<Rightarrow> bool" for workers where
  merge: "list_all (\<lambda>c. n_count c \<le> u64_max) (ba_counts batch) \<Longrightarrow>
    agg_step workers w \<lparr>aw_state = snd (merge_batch batch now (aw_state w)),
      aw_batches = aw_batches w @ (if timely workers now batch then [batch] else [])\<rparr>"
| snapshot: "agg_step workers w (w\<lparr>aw_state := snd (aggregator_snapshot now (aw_state w))\<rparr>)"

definition newest :: "cc_batch list \<Rightarrow> nat \<Rightarrow> nat" where
  "newest batches inst = foldr max (map ba_sequence (filter (\<lambda>b. ba_instance b = inst) batches)) 0"

lemma newest_append [simp]: "newest (bs @ [b]) inst = (if ba_instance b = inst then max (newest bs inst) (ba_sequence b) else newest bs inst)"
proof -
  have step: "foldr max (xs @ [x]) 0 = max (foldr max xs 0) (x :: nat)" for xs x by (induction xs) auto
  show ?thesis by (cases "ba_instance b = inst") (simp_all add: newest_def step del: foldr_append)
qed

definition agg_world_ok :: "nat \<Rightarrow> agg_world \<Rightarrow> bool" where
  "agg_world_ok workers w \<longleftrightarrow> ag_worker_count (aw_state w) = workers \<and>
     entries_ok (aw_batches w) workers (ag_entries (aw_state w)) \<and>
     (\<forall>inst < workers. ag_sequences (aw_state w) inst = newest (aw_batches w) inst)"

lemma merge_counts_fields:
  "ag_worker_count (snd (merge_counts batch now cs a)) = ag_worker_count a \<and>
   ag_sequences (snd (merge_counts batch now cs a)) = ag_sequences a \<and>
   ag_capacity (snd (merge_counts batch now cs a)) = ag_capacity a"
proof (induction cs arbitrary: a)
  case (Cons c cs)
  show ?case
  proof (cases "merge_count batch now c a")
    case (Inr a')
    then have "ag_worker_count a' = ag_worker_count a \<and> ag_sequences a' = ag_sequences a \<and> ag_capacity a' = ag_capacity a"
      by (auto simp: merge_count_def split: option.splits if_splits)
    with Inr Cons [of a'] show ?thesis by simp
  qed simp
qed simp

lemma reported_mono: "set bs \<subseteq> set bs' \<Longrightarrow> reported bs inst k s \<subseteq> reported bs' inst k s"
  by (auto simp: reported_def)

lemma entries_ok_mono: "entries_ok bs workers es \<Longrightarrow> set bs \<subseteq> set bs' \<Longrightarrow> entries_ok bs' workers es"
  using reported_mono [of bs bs'] by (fastforce simp: entries_ok_def agg_entry_ok_def agg_bucket_ok_def list_all_iff)

lemma agg_step_ok: "agg_step workers w w' \<Longrightarrow> agg_world_ok workers w \<Longrightarrow> agg_world_ok workers w'"
proof (induction rule: agg_step.induct)
  case (merge batch w now)
  let ?a = "aw_state w"
  have ok: "ag_worker_count ?a = workers" "\<And>inst. inst < workers \<Longrightarrow> ag_sequences ?a inst = newest (aw_batches w) inst"
    using merge.prems by (auto simp: agg_world_ok_def)
  show ?case
  proof (cases "timely workers now batch \<and> ag_sequences ?a (ba_instance batch) < ba_sequence batch")
    case True
    let ?b = "?a\<lparr>ag_sequences := (ag_sequences ?a)(ba_instance batch := ba_sequence batch)\<rparr>"
    have "entries_ok (aw_batches w @ [batch]) workers (ag_entries ?b)"
      using merge.prems entries_ok_mono [of "aw_batches w" workers "ag_entries ?a" "aw_batches w @ [batch]"]
      by (simp add: agg_world_ok_def subset_insertI)
    from merge_counts_ok [OF this merge.hyps, of batch now] True
    have "entries_ok (aw_batches w @ [batch]) workers (ag_entries (snd (merge_counts batch now (ba_counts batch) ?b)))"
      by (simp add: timely_def)
    moreover have "merge_batch batch now ?a = merge_counts batch now (ba_counts batch) ?b"
      using True ok(1) by (simp add: merge_batch_def timely_def)
    ultimately show ?thesis
      using True ok merge_counts_fields [of batch now "ba_counts batch" ?b] by (auto simp: agg_world_ok_def)
  next
    case False
    then have "merge_batch batch now ?a = (None, ?a)" using ok(1) by (auto simp: merge_batch_def timely_def)
    with False merge.prems show ?thesis
      using entries_ok_mono [of "aw_batches w" workers "ag_entries ?a" "aw_batches w @ [batch]"]
      by (auto simp: agg_world_ok_def max_def timely_def)
  qed
next
  case (snapshot w now)
  then show ?case
    using snapshot_loop_ok [of "aw_batches w" workers "ag_entries (aw_state w)" now Map.empty]
    by (auto simp: aggregator_snapshot_def agg_world_ok_def Let_def split: prod.splits)
qed

definition agg_start :: "nat \<Rightarrow> agg_world \<Rightarrow> bool" where
  "agg_start workers w \<longleftrightarrow> (\<exists>capacity. aw_state w = new_aggregator workers capacity) \<and> aw_batches w = []"

interpretation aggregator_machine: state_machine "agg_start workers" "agg_step workers" "agg_world_ok workers" for workers
proof unfold_locales
  show "agg_world_ok workers w" if "agg_start workers w" for w
    using that by (auto simp: agg_world_ok_def entries_ok_def new_aggregator_def agg_start_def newest_def)
qed (rule agg_step_ok)

subsection \<open>No report is lost\<close>

text \<open>A count the aggregator takes into account: its slot is still in the window and not ahead of the batch.\<close>

definition countable :: "cc_batch \<Rightarrow> nat \<Rightarrow> cc_count \<Rightarrow> bool" where
  "countable batch now c \<longleftrightarrow> live (n_bucket c) now (n_limits c) \<and> n_bucket c \<le> ba_observed_ms batch div width (n_limits c)"

text \<open>The bucket of the slot holds at least that count of the worker.\<close>

definition holds_count :: "cc_key \<Rightarrow> cc_limits \<Rightarrow> nat \<Rightarrow> nat \<Rightarrow> nat \<Rightarrow> cc_aggregator \<Rightarrow> bool" where
  "holds_count k limits s inst n a \<longleftrightarrow> (\<exists>e. map_of (ag_entries a) k = Some e \<and> ae_limits e = limits \<and> length (ae_buckets e) = 65 \<and>
     ab_slot (ae_buckets e ! (s mod 65)) = s \<and> n \<le> source_count (ae_buckets e ! (s mod 65)) inst)"

lemma live_slots_close:
  assumes "live s now limits" "s' \<le> observed div width limits" "observed \<le> now"
  shows "s' \<le> s + 64"
proof (rule ccontr)
  let ?w = "width limits"
  assume "\<not> s' \<le> s + 64"
  then have "s + 65 \<le> s'" by simp
  then have "(s + 65) * ?w \<le> s' * ?w" by (rule mult_right_mono) simp
  also have "s' * ?w \<le> observed div ?w * ?w" using assms(2) by (rule mult_right_mono) simp
  also have "\<dots> \<le> now" using assms(3) div_times_less_eq_dividend [of observed ?w] by linarith
  finally have "(s + 1) * ?w + 64 * ?w \<le> now" by (simp add: algebra_simps)
  moreover have "lim_window_ms limits \<le> 64 * ?w" by (simp add: width_def bucket_count_def)
  moreover have "u64 (u64 (u64 (s + 1) * ?w) + lim_window_ms limits) \<le> (s + 1) * ?w + lim_window_ms limits"
  proof -
    have "u64 (s + 1) * ?w \<le> (s + 1) * ?w" by (rule mult_right_mono) (simp_all add: u64_def)
    then have "u64 (u64 (s + 1) * ?w) \<le> (s + 1) * ?w" using mod_less_eq_dividend le_trans unfolding u64_def by blast
    then show ?thesis using mod_less_eq_dividend [of "u64 (u64 (s + 1) * ?w) + lim_window_ms limits" "2 ^ 64"]
      unfolding u64_def by linarith
  qed
  ultimately show False using assms(1) unfolding live_def by linarith
qed

lemma countable_same_index:
  assumes "countable batch now c" "countable batch now c'" "ba_observed_ms batch \<le> now" "n_limits c' = n_limits c"
    "n_bucket c' mod 65 = n_bucket c mod 65"
  shows "n_bucket c' = n_bucket c"
proof -
  have above: "n_bucket c' \<le> n_bucket c + 64"
    by (rule live_slots_close [where limits = "n_limits c", OF _ _ assms(3)]) (use assms in \<open>auto simp: countable_def\<close>)
  have below: "n_bucket c \<le> n_bucket c' + 64"
    by (rule live_slots_close [where limits = "n_limits c", OF _ _ assms(3)]) (use assms in \<open>auto simp: countable_def\<close>)
  obtain k where "n_bucket c' = n_bucket c + 65 * k \<or> n_bucket c = n_bucket c' + 65 * k"
    using mod_eq_nat1E [OF assms(5)] mod_eq_nat1E [OF assms(5) [symmetric]] nat_le_linear by metis
  with above below show ?thesis by auto
qed

lemma merge_bucket_holds:
  "ab_slot (snd (merge_bucket inst c b)) = n_bucket c" "n_count c \<le> source_count (snd (merge_bucket inst c b)) inst"
  "ab_slot b = n_bucket c \<Longrightarrow> source_count b i \<le> source_count (snd (merge_bucket inst c b)) i"
  by (auto simp: merge_bucket_def Let_def source_count_def split: option.splits)

lemma merge_agg_entry_bucket:
  assumes "length (ae_buckets e) = 65"
  shows "ae_limits (merge_agg_entry inst c e) = ae_limits e" "length (ae_buckets (merge_agg_entry inst c e)) = 65"
    "ae_buckets (merge_agg_entry inst c e) ! (s mod 65) = (if s mod 65 = n_bucket c mod 65
       then snd (merge_bucket inst c (ae_buckets e ! (s mod 65))) else ae_buckets e ! (s mod 65))"
  using assms by (auto simp: merge_agg_entry_def Let_def split: prod.splits)

lemma merge_count_holds:
  assumes "merge_count batch now c a = Inr a'" "countable batch now c" "ba_observed_ms batch \<le> now"
    "countable batch now c0" "holds_count (n_key c0) (n_limits c0) (n_bucket c0) inst n a"
  shows "holds_count (n_key c0) (n_limits c0) (n_bucket c0) inst n a'"
proof (cases "n_key c = n_key c0")
  case False
  with assms(1,5) show ?thesis
    by (auto simp: merge_count_def holds_count_def split: option.splits if_splits)
next
  case True
  from assms(5) obtain e where e: "map_of (ag_entries a) (n_key c0) = Some e" "ae_limits e = n_limits c0" "length (ae_buckets e) = 65"
    "ab_slot (ae_buckets e ! (n_bucket c0 mod 65)) = n_bucket c0" "n \<le> source_count (ae_buckets e ! (n_bucket c0 mod 65)) inst"
    by (auto simp: holds_count_def)
  with assms(1,2) True have limits: "n_limits c = n_limits c0" and
    a': "map_of (ag_entries a') (n_key c0) = Some (merge_agg_entry (ba_instance batch) c e)"
    by (auto simp: merge_count_def countable_def split: option.splits if_splits)
  let ?b = "ae_buckets e ! (n_bucket c0 mod 65)"
  show ?thesis
  proof (cases "n_bucket c0 mod 65 = n_bucket c mod 65")
    case same: True
    from countable_same_index [OF assms(4,2,3) limits same [symmetric]] have slot: "n_bucket c = n_bucket c0" .
    let ?e = "merge_agg_entry (ba_instance batch) c e"
    have bucket: "ae_buckets ?e ! (n_bucket c0 mod 65) = snd (merge_bucket (ba_instance batch) c ?b)"
      using merge_agg_entry_bucket(3) [OF e(3), of "ba_instance batch" c "n_bucket c0"] same by simp
    have "n \<le> source_count (snd (merge_bucket (ba_instance batch) c ?b)) inst"
      using e(4,5) slot merge_bucket_holds(3) [where inst = "ba_instance batch" and c = c and b = ?b and i = inst] by linarith
    moreover have "ab_slot (snd (merge_bucket (ba_instance batch) c ?b)) = n_bucket c0"
      using merge_bucket_holds(1) slot by metis
    ultimately show ?thesis
      using a' e(2) merge_agg_entry_bucket(1,2) [OF e(3), of "ba_instance batch" c] bucket
      by (simp add: holds_count_def)
  next
    case False
    with e a' show ?thesis unfolding holds_count_def
      by (intro exI [of _ "merge_agg_entry (ba_instance batch) c e"]) (simp add: merge_agg_entry_bucket)
  qed
qed

lemma merge_count_skips: "merge_count batch now c a = Inr a' \<Longrightarrow> \<not> countable batch now c \<Longrightarrow> a' = a"
  by (auto simp: merge_count_def countable_def split: option.splits if_splits)

lemma merge_counts_holds:
  "merge_counts batch now cs a = (None, a') \<Longrightarrow> ba_observed_ms batch \<le> now \<Longrightarrow> countable batch now c0 \<Longrightarrow>
    holds_count (n_key c0) (n_limits c0) (n_bucket c0) inst n a \<Longrightarrow> holds_count (n_key c0) (n_limits c0) (n_bucket c0) inst n a'"
proof (induction cs arbitrary: a)
  case (Cons c cs)
  then obtain a1 where a1: "merge_count batch now c a = Inr a1" "merge_counts batch now cs a1 = (None, a')"
    by (cases "merge_count batch now c a") auto
  have "holds_count (n_key c0) (n_limits c0) (n_bucket c0) inst n a1"
    using merge_count_holds [OF a1(1)] merge_count_skips [OF a1(1)] Cons.prems(2-4) by (cases "countable batch now c") auto
  with Cons a1(2) show ?case by blast
qed simp

text \<open>A key that finds the table full stays out of it.\<close>

lemma merge_counts_full:
  "merge_counts batch now cs a = (None, a') \<Longrightarrow> map_of (ag_entries a) k = None \<Longrightarrow> ag_capacity a \<le> length (ag_entries a) \<Longrightarrow>
    map_of (ag_entries a') k = None"
proof (induction cs arbitrary: a)
  case (Cons c cs)
  then obtain a1 where a1: "merge_count batch now c a = Inr a1" "merge_counts batch now cs a1 = (None, a')"
    by (cases "merge_count batch now c a") auto
  then have "map_of (ag_entries a1) k = None \<and> ag_capacity a1 \<le> length (ag_entries a1)"
    using Cons.prems(2,3) by (auto simp: merge_count_def length_put split: option.splits if_splits)
  with Cons a1(2) show ?case by blast
qed simp

lemma merge_counts_taken:
  assumes "merge_counts batch now cs a = (None, a')" "c \<in> set cs" "countable batch now c" "ba_observed_ms batch \<le> now"
    "list_all (\<lambda>(k, e). length (ae_buckets e) = 65) (ag_entries a)" "map_of (ag_entries a') (n_key c) \<noteq> None"
  shows "holds_count (n_key c) (n_limits c) (n_bucket c) (ba_instance batch) (n_count c) a'"
  using assms
proof (induction cs arbitrary: a)
  case (Cons x cs)
  then obtain a1 where a1: "merge_count batch now x a = Inr a1" "merge_counts batch now cs a1 = (None, a')"
    by (cases "merge_count batch now x a") auto
  have sizes: "length (ae_buckets e) = 65" if "map_of (ag_entries a) k = Some e" for k e
    using map_of_ok [OF Cons.prems(5) that] by simp
  have new: "length (ae_buckets (new_agg_entry l)) = 65" "ae_limits (new_agg_entry l) = l" for l
    by (simp_all add: new_agg_entry_def bucket_count_def del: replicate_Suc)
  have sizes': "list_all (\<lambda>(k, e). length (ae_buckets e) = 65) (ag_entries a1)"
    using a1(1) Cons.prems(5) sizes new(1)
    by (auto simp: merge_count_def merge_agg_entry_bucket intro!: put_ok split: option.splits if_splits)
  show ?case
  proof (cases "x = c")
    case True
    have "holds_count (n_key c) (n_limits c) (n_bucket c) (ba_instance batch) (n_count c) a1 \<or>
        (map_of (ag_entries a1) (n_key c) = None \<and> ag_capacity a1 \<le> length (ag_entries a1))"
    proof (cases "map_of (ag_entries a) (n_key c)")
      case None
      with a1(1) True Cons.prems(3) new merge_bucket_holds show ?thesis
        by (auto simp: merge_count_def countable_def holds_count_def merge_agg_entry_bucket split: option.splits if_splits)
    next
      case (Some e)
      with a1(1) True Cons.prems(3) sizes [OF Some] merge_bucket_holds show ?thesis
        by (auto simp: merge_count_def countable_def holds_count_def merge_agg_entry_bucket split: option.splits if_splits)
    qed
    then show ?thesis
    proof
      assume "holds_count (n_key c) (n_limits c) (n_bucket c) (ba_instance batch) (n_count c) a1"
      then show ?thesis by (rule merge_counts_holds [OF a1(2) Cons.prems(4,3)])
    next
      assume "map_of (ag_entries a1) (n_key c) = None \<and> ag_capacity a1 \<le> length (ag_entries a1)"
      with merge_counts_full [OF a1(2), of "n_key c"] Cons.prems(6) show ?thesis by simp
    qed
  next
    case False
    with Cons.IH [OF a1(2) _ Cons.prems(3,4) sizes' Cons.prems(6)] Cons.prems(2) show ?thesis by simp
  qed
qed simp


definition sample_batch :: cc_batch where
  "sample_batch = \<lparr>ba_instance = 1, ba_sequence = 1, ba_observed_ms = 100, ba_counts =
     [\<lparr>n_key = sample_key, n_limits = sample_limits, n_bucket = 6, n_count = 3\<rparr>]\<rparr>"

definition sample_aggregated :: agg_world where
  "sample_aggregated = \<lparr>aw_state = snd (merge_batch sample_batch 100 (new_aggregator 2 4)), aw_batches = [sample_batch]\<rparr>"


end
