(* ===== verification/Security_Program.thy ===== *)
theory Security_Program
  imports Security_Validation CC_Protection
begin

text \<open>
  \<open>src/node/data/security_program.h\<close>: the security policies of a configuration compiled for one
  worker, and their evaluation for a request.  The digest of a serialised policy belongs to
  protobuf and OpenSSL and is the argument \<open>digest\<close>; \<open>clock\<close> is the system time the lists look at,
  \<open>now\<close> the steady time of the counters.
\<close>

subsection \<open>Compilation\<close>

record compiled_policy =
  pol_fingerprint :: string
  pol_lists :: list_map
  pol_custom :: "(SecurityRule \<times> compiled_instruction list) list"
  pol_cc :: "(CcRule \<times> compiled_instruction list) list"

datatype program_error = Invalid_program_list | Program_list_error list_error | Program_error compile_error

definition list_values :: "SecurityList \<Rightarrow> request_list_value list" where
  "list_values l = map (\<lambda>item. \<lparr>v_value = item, v_expires_unix_ms = 0\<rparr>) (sl_entries l) @
     map (\<lambda>m. \<lparr>v_value = sle_value m, v_expires_unix_ms = sle_expires_unix_ms m\<rparr>) (sl_members l)"

fun compile_lists :: "asio \<Rightarrow> list_map \<Rightarrow> SecurityList list \<Rightarrow> program_error + list_map" where
  "compile_lists A named [] = Inr named"
| "compile_lists A named (l # ls) =
     (if length (sl_entries l) > 100000 \<or> sl_name l = [] \<or> length (sl_name l) > 100 then Inl Invalid_program_list
      else case make_list A (sl_type l) (list_values l) of
          Inl e \<Rightarrow> Inl (Program_list_error e)
        | Inr v \<Rightarrow>
            if sl_name l \<in> dom named then Inl Invalid_program_list
            else compile_lists A (named(sl_name l \<mapsto> v)) ls)"

definition compile_rule :: "re2 \<Rightarrow> asio \<Rightarrow> list_map \<Rightarrow> ('r \<Rightarrow> string) \<Rightarrow> 'r \<Rightarrow>
    program_error + 'r \<times> compiled_instruction list" where
  "compile_rule R A named expression r =
     (case request_expression_program R A named Security_context (expression r) of
        Inl e \<Rightarrow> Inl (Program_error e)
      | Inr program \<Rightarrow> Inr (r, program))"

fun compile_rules :: "re2 \<Rightarrow> asio \<Rightarrow> list_map \<Rightarrow> ('r \<Rightarrow> string) \<Rightarrow> 'r list \<Rightarrow>
    program_error + ('r \<times> compiled_instruction list) list" where
  "compile_rules R A named expression [] = Inr []"
| "compile_rules R A named expression (r # rs) =
     bind_result (compile_rule R A named expression r) (\<lambda>c.
     bind_result (compile_rules R A named expression rs) (\<lambda>cs. Inr (c # cs)))"

definition counter_source :: "SecurityPolicy \<Rightarrow> SecurityPolicy" where
  "counter_source p = p\<lparr>sp_lists := map (\<lambda>l. l\<lparr>sl_entries := [], sl_members := []\<rparr>) (sp_lists p)\<rparr>"

definition compile_policy :: "re2 \<Rightarrow> asio \<Rightarrow> (SecurityPolicy \<Rightarrow> string) \<Rightarrow> SecurityPolicy \<Rightarrow>
    program_error + compiled_policy" where
  "compile_policy R A digest p =
     bind_result (compile_lists A Map.empty (sp_lists p)) (\<lambda>named.
     bind_result (compile_rules R A named sr_expression (sp_custom_rules p)) (\<lambda>custom.
     bind_result (compile_rules R A named cr_expression (sp_cc_rules p)) (\<lambda>cc.
       Inr \<lparr>pol_fingerprint = digest (counter_source p), pol_lists = named, pol_custom = custom, pol_cc = cc\<rparr>)))"

text \<open>\<open>std::to_string\<close> of a signed number.\<close>

definition int_to_string :: "int \<Rightarrow> string" where
  "int_to_string i = (if i < 0 then CHR ''-'' # to_string (nat (- i)) else to_string (nat i))"

definition policy_identity :: "SecurityPolicy \<Rightarrow> string" where
  "policy_identity p = sp_id p @ '':'' @ int_to_string (sp_revision p)"

text \<open>The program: compiled policies by identity, and the identity each website uses.\<close>

record security_program =
  prog_policies :: "string \<rightharpoonup> compiled_policy"
  prog_websites :: "string \<rightharpoonup> string"

fun program_loop :: "re2 \<Rightarrow> asio \<Rightarrow> (SecurityPolicy \<Rightarrow> string) \<Rightarrow> Website list \<Rightarrow> security_program \<Rightarrow>
    program_error + security_program" where
  "program_loop R A digest [] prog = Inr prog"
| "program_loop R A digest (w # ws) prog =
     (case w_security w of
        None \<Rightarrow> program_loop R A digest ws prog
      | Some source \<Rightarrow>
          let identity = policy_identity source in
          bind_result (case prog_policies prog identity of
                Some _ \<Rightarrow> Inr (prog_policies prog)
              | None \<Rightarrow> bind_result (compile_policy R A digest source) (\<lambda>v.
                  Inr ((prog_policies prog)(identity \<mapsto> v)))) (\<lambda>policies.
          program_loop R A digest ws
            (prog\<lparr>prog_policies := policies,
              prog_websites := (case prog_websites prog (w_id w) of
                  None \<Rightarrow> (prog_websites prog)(w_id w \<mapsto> identity)
                | Some _ \<Rightarrow> prog_websites prog)\<rparr>)))"

definition make_security_program :: "re2 \<Rightarrow> asio \<Rightarrow> (SecurityPolicy \<Rightarrow> string) \<Rightarrow> Website list \<Rightarrow>
    program_error + security_program" where
  "make_security_program R A digest websites =
     program_loop R A digest websites \<lparr>prog_policies = Map.empty, prog_websites = Map.empty\<rparr>"

subsection \<open>Evaluation\<close>

record security_decision =
  dec_status :: nat
  dec_content_type :: string
  dec_body :: string
  dec_rule :: string
  dec_skip_cc :: bool
  dec_skip_managed :: bool
  dec_logged_rules :: "string list"

definition no_decision :: security_decision where
  "no_decision = \<lparr>dec_status = 0, dec_content_type = [], dec_body = [], dec_rule = [], dec_skip_cc = False,
     dec_skip_managed = False, dec_logged_rules = []\<rparr>"

definition log_rule :: "string \<Rightarrow> security_decision \<Rightarrow> security_decision" where
  "log_rule i d = d\<lparr>dec_logged_rules := dec_logged_rules d @ [i]\<rparr>"

text \<open>A matching \<open>skip\<close> rule; the flag says whether the remaining custom rules are skipped.\<close>

definition skip_rule :: "SecurityRule \<Rightarrow> security_decision \<Rightarrow> bool \<times> security_decision" where
  "skip_rule r d =
     (let none = (sr_skip_stages r = []);
        d = d\<lparr>dec_rule := sr_id r,
              dec_skip_cc := dec_skip_cc d \<or> none \<or> ''rate'' \<in> set (sr_skip_stages r),
              dec_skip_managed := dec_skip_managed d \<or> none \<or> ''managed'' \<in> set (sr_skip_stages r)\<rparr> in
      (none \<or> ''custom'' \<in> set (sr_skip_stages r), log_rule (sr_id r) d))"

definition block_custom :: "SecurityRule \<Rightarrow> security_decision \<Rightarrow> security_decision" where
  "block_custom r d = d\<lparr>dec_status := (if sr_response_status r \<noteq> 0 then sr_response_status r mod 65536 else 403),
     dec_content_type := sr_response_content_type r, dec_body := sr_response_body r, dec_rule := sr_id r\<rparr>"

text \<open>The loop over custom rules: a final decision (\<open>Inl\<close>) or one that goes on to the rate rules.\<close>

fun custom_loop :: "('r \<Rightarrow> bool option) \<Rightarrow> ('r \<Rightarrow> SecurityRule) \<Rightarrow> 'r list \<Rightarrow> security_decision \<Rightarrow>
    (security_decision + security_decision) option" where
  "custom_loop matches source [] d = Some (Inr d)"
| "custom_loop matches source (c # cs) d =
     (let r = source c in
      if \<not> sr_enabled r then custom_loop matches source cs d
      else case matches c of
          None \<Rightarrow> None
        | Some False \<Rightarrow> custom_loop matches source cs d
        | Some True \<Rightarrow>
            if sr_action r = ''skip'' then
              (case skip_rule r d of (stop, d') \<Rightarrow>
                if stop then Some (Inr d') else custom_loop matches source cs d')
            else if sr_action r = ''block'' then Some (Inl (block_custom r d))
            else custom_loop matches source cs (log_rule (sr_id r) d))"

definition rule_key :: "Website \<Rightarrow> compiled_policy \<Rightarrow> CcRule \<Rightarrow> rule_match_request \<Rightarrow> cc_key" where
  "rule_key site pol r q = \<lparr>k_website = w_id site, k_policy = pol_fingerprint pol, k_rule = cr_id r,
     k_address = q_client_ip q\<rparr>"

text \<open>Products of 32-bit numbers wrap.\<close>

definition rule_limits :: "CcRule \<Rightarrow> cc_limits" where
  "rule_limits r = \<lparr>lim_requests = cr_requests r, lim_window_ms = cr_window_seconds r * 1000 mod 2 ^ 32,
     lim_mitigation_ms = cr_mitigation_seconds r * 1000 mod 2 ^ 32\<rparr>"

definition block_cc :: "CcRule \<Rightarrow> security_decision \<Rightarrow> security_decision" where
  "block_cc r d = d\<lparr>dec_status := (if cr_response_status r \<noteq> 0 then cr_response_status r mod 65536 else 429),
     dec_content_type := cr_response_content_type r, dec_body := cr_response_body r, dec_rule := cr_id r\<rparr>"

fun cc_loop :: "('r \<Rightarrow> bool option) \<Rightarrow> ('r \<Rightarrow> CcRule) \<Rightarrow> (CcRule \<Rightarrow> cc_key) \<Rightarrow> nat \<Rightarrow> 'r list \<Rightarrow>
    security_decision \<Rightarrow> cc_worker \<Rightarrow> (cc_error + security_decision \<times> cc_worker) option" where
  "cc_loop matches source key_of now [] d w = Some (Inr (d, w))"
| "cc_loop matches source key_of now (c # cs) d w =
     (let r = source c in
      if dec_skip_cc d then Some (Inr (d, w))
      else if \<not> cr_enabled r then cc_loop matches source key_of now cs d w
      else case matches c of
          None \<Rightarrow> None
        | Some False \<Rightarrow> cc_loop matches source key_of now cs d w
        | Some True \<Rightarrow>
            (case worker_check (key_of r) (rule_limits r) now w of
               Inl e \<Rightarrow> Some (Inl e)
             | Inr (outcome, w') \<Rightarrow>
                 if outcome = Overloaded \<and> cr_action r = ''block''
                 then Some (Inr (d\<lparr>dec_status := 503, dec_rule := cr_id r\<rparr>, w'))
                 else if outcome = Block \<and> cr_action r = ''block'' then Some (Inr (block_cc r d, w'))
                 else cc_loop matches source key_of now cs
                   (if outcome \<noteq> Allow then log_rule (cr_id r) d else d) w'))"

definition evaluate_policy :: "re2 \<Rightarrow> asio \<Rightarrow> nat \<Rightarrow> compiled_policy \<Rightarrow> Website \<Rightarrow> rule_match_request \<Rightarrow> cc_worker \<Rightarrow> nat \<Rightarrow>
    (cc_error + security_decision \<times> cc_worker) option" where
  "evaluate_policy R A clock pol site q counters now =
     (case custom_loop (\<lambda>(r, program). program_matches R A clock program q) fst (pol_custom pol) no_decision of
        None \<Rightarrow> None
      | Some (Inl d) \<Rightarrow> Some (Inr (d, counters))
      | Some (Inr d) \<Rightarrow>
          cc_loop (\<lambda>(r, program). program_matches R A clock program q) fst (\<lambda>r. rule_key site pol r q) now
            (pol_cc pol) d counters)"

definition security_evaluate :: "re2 \<Rightarrow> asio \<Rightarrow> nat \<Rightarrow> security_program \<Rightarrow> Website \<Rightarrow> rule_match_request \<Rightarrow> cc_worker \<Rightarrow>
    nat \<Rightarrow> (cc_error + security_decision \<times> cc_worker) option" where
  "security_evaluate R A clock prog site q counters now =
     (case Option.bind (prog_websites prog (w_id site)) (prog_policies prog) of
        None \<Rightarrow> Some (Inr (no_decision, counters))
      | Some pol \<Rightarrow> evaluate_policy R A clock pol site q counters now)"

subsection \<open>A validated policy compiles\<close>

lemma network_validated:
  assumes "validate_ip A item = None"
  shows "\<exists>v. network A item expires = Inr v"
proof -
  obtain addr suffix where cut: "cut_at CHR ''/'' item = (addr, suffix)" by (rule prod.exhaust)
  with assms obtain ip where ip: "make_address A addr = Some ip" "\<not> scoped ip"
    by (auto simp: validate_ip_def split: option.splits if_splits)
  have "parse_prefix (if is_v4 ip then 32 else 128) suffix \<noteq> None"
    using assms cut ip by (auto simp: validate_ip_def parse_prefix_def split: option.splits if_splits)
  then obtain prefix where "parse_prefix (if is_v4 ip then 32 else 128) suffix = Some prefix" by blast
  with cut ip show ?thesis by (cases "is_v4 ip") (simp_all add: network_def Let_def case_prod_beta)
qed

lemma add_entry_validated:
  assumes "if l_type l = ''ip'' then validate_ip A (v_value e) = None else validate_item A (l_type l) (v_value e) = None"
  shows "\<exists>l'. add_entry A e l = Inr l' \<and> l_type l' = l_type l"
proof (cases "l_type l = ''ip''")
  case True
  define expires where "expires = (if v_expires_unix_ms e \<noteq> 0 then v_expires_unix_ms e else u64_max)"
  from True assms network_validated [of A "v_value e" expires] obtain a v where
    "network A (v_value e) expires = Inr (a, v)" by auto
  with True show ?thesis unfolding add_entry_def Let_def expires_def [symmetric] by (simp add: add_network_def)
next
  case False
  with assms show ?thesis
    by (auto simp: add_entry_def Let_def add_string_def validate_item_def valid_asn_def)
qed

lemma add_entries_validated:
  assumes "list_all (\<lambda>e. if t = ''ip'' then validate_ip A (v_value e) = None else validate_item A t (v_value e) = None) es"
    and "l_type l = t"
  shows "\<exists>l'. add_entries A es l = Inr l' \<and> l_type l' = t"
  using assms
proof (induction es arbitrary: l)
  case (Cons e es)
  then obtain l1 where "add_entry A e l = Inr l1" "l_type l1 = t"
    using add_entry_validated [of l A e] by auto
  with Cons show ?case by auto
qed simp

lemma make_list_validated:
  assumes "list_all (\<lambda>e. if t = ''ip'' then validate_ip A (v_value e) = None else validate_item A t (v_value e) = None) es"
    and "t \<in> set list_types"
  shows "\<exists>l. make_list A t es = Inr l \<and> l_type l = t"
proof -
  let ?l = "\<lparr>l_type = t, l_strings = Map.empty, l_ipv4 = [], l_ipv6 = [], l_ipv4_tree = [],
        l_ipv6_tree = [], l_has_expiration = False\<rparr>"
  from add_entries_validated [OF assms(1), of ?l] obtain l where "add_entries A es ?l = Inr l" "l_type l = t" by auto
  with assms(2) show ?thesis by (auto simp: make_list_def list_types_def)
qed

text \<open>The names the validator collects, and the lists the worker builds under them.\<close>

definition lists_agree :: "asio \<Rightarrow> (string \<rightharpoonup> string) \<Rightarrow> list_map \<Rightarrow> bool" where
  "lists_agree A types named \<longleftrightarrow> (\<forall>k. map_option l_type (named k) = types k) \<and>
     (\<forall>k t. types k = Some t \<longrightarrow> t \<in> set list_types) \<and> lists_built A named"

lemma lists_agree_upd:
  assumes "lists_agree A types named" "make_list A t es = Inr l" "l_type l = t" "t \<in> set list_types"
  shows "lists_agree A (types(k \<mapsto> t)) (named(k \<mapsto> l))"
  using assms unfolding lists_agree_def lists_built_def by (auto simp: ran_def)

lemma validate_item_ip: "validate_item A ''ip'' item = None \<Longrightarrow> validate_ip A item = None"
  by (simp add: validate_item_def)

lemma compile_lists_validated:
  assumes "validate_lists A types n ls = Inr types'" "lists_agree A types named"
  shows "\<exists>named'. compile_lists A named ls = Inr named' \<and> lists_agree A types' named'"
  using assms
proof (induction A types n ls arbitrary: named rule: validate_lists.induct)
  case (2 A types n l ls)
  let ?n = "n + (length (sl_entries l) + length (sl_members l))"
  from "2.prems"(1) have none: "first_error ([check (bad_list types l) Invalid_security_list,
          check (?n > 100000) Too_many_security_list_entries] @
          map (validate_item A (sl_type l)) (list_items l)) = None"
    and rest: "validate_lists A (types(sl_name l \<mapsto> sl_type l)) ?n ls = Inr types'"
    by (auto simp: Let_def split: option.splits)
  from none have l: "\<not> bad_list types l" "?n \<le> 100000" "\<forall>item \<in> set (list_items l). validate_item A (sl_type l) item = None"
    by (auto simp: first_error_None)
  have t: "sl_type l \<in> set list_types" using l(1) by (simp add: bad_list_def)
  have "list_all (\<lambda>e. if sl_type l = ''ip'' then validate_ip A (v_value e) = None
      else validate_item A (sl_type l) (v_value e) = None) (list_values l)"
    using l(3) by (auto simp: list_all_iff list_values_def list_items_def validate_item_ip)
  from make_list_validated [OF this t] obtain v where v: "make_list A (sl_type l) (list_values l) = Inr v" "l_type v = sl_type l"
    by blast
  have agree: "lists_agree A (types(sl_name l \<mapsto> sl_type l)) (named(sl_name l \<mapsto> v))"
    by (rule lists_agree_upd [OF "2.prems"(2) v t])
  have "sl_name l \<notin> dom named"
  proof
    assume "sl_name l \<in> dom named"
    moreover have "map_option l_type (named (sl_name l)) = types (sl_name l)"
      using "2.prems"(2) by (simp add: lists_agree_def)
    ultimately show False using l(1) by (auto simp: bad_list_def domIff)
  qed
  then have step: "compile_lists A named (l # ls) = compile_lists A (named(sl_name l \<mapsto> v)) ls"
    using l v by (auto simp: bad_list_def)
  show ?case unfolding step by (rule "2.IH" [OF refl none rest agree])
qed auto

lemma postfix_instructions:
  "well_formed R ctx e \<Longrightarrow> i \<in> set (postfix e) \<Longrightarrow>
    well_formed_condition R ctx i \<or> (\<exists>op. i = operator_instruction op) \<or> (\<exists>b. i = constant_instruction b)"
  by (induction e) auto

text \<open>
  What is relied on of RE2, whose syntax document gives it: the options of the worker do not make a pattern invalid that
  validation accepted; and a pattern that only strings together literal characters, characters with a
  meaning behind a backslash and \<open>.*\<close> is valid, as long as it is not too large for the memory the code
  allows (up to 512 such pieces are far below it).
\<close>

definition re2_options_agree :: "re2 \<Rightarrow> bool" where
  "re2_options_agree R \<longleftrightarrow> (\<forall>p. re2_ok R default_options p \<longrightarrow> re2_ok R \<lparr>case_sensitive = True, dot_nl = True\<rparr> p)"

definition re2_metacharacters :: string where
  "re2_metacharacters = [CHR 0x5C, CHR ''.'', CHR ''^'', CHR ''$'', CHR ''|'', CHR ''('', CHR '')'', CHR ''['', CHR '']'',
     CHR ''{'', CHR ''}'', CHR ''*'', CHR ''+'', CHR ''?'']"

definition re2_piece :: "string \<Rightarrow> bool" where
  "re2_piece a \<longleftrightarrow> a = ''.*'' \<or> (\<exists>c \<in> set re2_metacharacters. a = [CHR 0x5C, c]) \<or>
     (\<exists>cp. scalar cp \<and> (\<forall>c \<in> set re2_metacharacters. cp \<noteq> byte c) \<and> a = utf8_encode cp)"

definition re2_accepts_pieces :: "re2 \<Rightarrow> bool" where
  "re2_accepts_pieces R \<longleftrightarrow> (\<forall>case_sensitive pieces. length pieces \<le> 512 \<and> list_all re2_piece pieces \<longrightarrow>
     re2_ok R \<lparr>case_sensitive = case_sensitive, dot_nl = True\<rparr> (concat pieces))"

lemma wildcard_pattern_high:
  "list_all (\<lambda>c. 128 \<le> byte c) u \<Longrightarrow> u \<noteq> [] \<Longrightarrow> wildcard_pattern escaped (u @ r) = u @ wildcard_pattern False r"
proof (induction u arbitrary: escaped)
  case (Cons c u)
  then have "c \<noteq> CHR 0x5C" "c \<noteq> CHR ''*''" "\<not> regex_special c"
    by (auto simp: regex_special_def byte_def)
  with Cons show ?case by (cases "u = []") auto
qed simp

lemma utf8_encode_high: "128 \<le> cp \<Longrightarrow> scalar cp \<Longrightarrow> list_all (\<lambda>c. 128 \<le> byte c) (utf8_encode cp) \<and> utf8_encode cp \<noteq> []"
  by (auto simp: utf8_encode_def scalar_def)

lemma wildcard_pattern_low:
  assumes "byte f < 128" "escaped \<or> f \<noteq> CHR 0x5C"
  shows "\<exists>a. re2_piece a \<and> wildcard_pattern escaped (f # rest) = a @ wildcard_pattern False rest"
proof -
  let ?a = "if \<not> escaped \<and> f = CHR ''*'' then ''.*'' else if regex_special f then [CHR 0x5C, f] else [f]"
  have "f \<in> set re2_metacharacters" if "regex_special f"
    using that by (auto simp: regex_special_def re2_metacharacters_def)
  moreover have "\<exists>cp. scalar cp \<and> (\<forall>c \<in> set re2_metacharacters. cp \<noteq> byte c) \<and> [f] = utf8_encode cp" if "\<not> regex_special f"
  proof (intro exI [of _ "byte f"] conjI ballI)
    show "scalar (byte f)" "[f] = utf8_encode (byte f)" using assms(1) by (simp_all add: scalar_def utf8_encode_def)
    show "byte f \<noteq> byte c" if "c \<in> set re2_metacharacters" for c
      using that \<open>\<not> regex_special f\<close> by (auto simp: regex_special_def re2_metacharacters_def byte_def)
  qed
  ultimately have "re2_piece ?a" by (auto simp: re2_piece_def)
  with assms(2) show ?thesis by (intro exI [of _ ?a]) auto
qed

text \<open>The escaping makes every wildcard a sequence of such pieces, no more of them than it has bytes.\<close>

lemma wildcard_pattern_pieces:
  "valid_utf8 v \<Longrightarrow> \<exists>pieces. wildcard_pattern escaped v = concat pieces \<and> list_all re2_piece pieces \<and> length pieces \<le> length v"
proof (induction v arbitrary: escaped rule: valid_utf8.induct)
  case 1
  show ?case by (intro exI [of _ "[]"]) simp
next
  case (2 f rest)
  show ?case
  proof (cases "byte f < 128")
    case True
    with 2 have IH: "\<exists>pieces. wildcard_pattern e rest = concat pieces \<and> list_all re2_piece pieces \<and> length pieces \<le> length rest" for e
      by simp
    show ?thesis
    proof (cases "escaped \<or> f \<noteq> CHR 0x5C")
      case piece: True
      from wildcard_pattern_low [OF True piece, of rest] obtain a where
        a: "re2_piece a" "wildcard_pattern escaped (f # rest) = a @ wildcard_pattern False rest" by blast
      from IH [of False] obtain pieces where
        "wildcard_pattern False rest = concat pieces" "list_all re2_piece pieces" "length pieces \<le> length rest" by blast
      with a show ?thesis by (intro exI [of _ "a # pieces"]) simp
    next
      case False
      then show ?thesis using IH [of True] by (auto intro: le_SucI)
    qed
  next
    case False
    with "2.prems" obtain code n minimum where lead: "utf8_lead (byte f) = Some (code, n, minimum)"
      by (cases "utf8_lead (byte f)") auto
    with "2.prems" False obtain cp r where tail: "utf8_tail n code rest = Some (cp, r)" "\<not> length rest < n"
      by (cases "utf8_tail n code rest") (auto split: if_splits)
    with "2.prems" False lead have cp: "minimum \<le> cp" "scalar cp" "valid_utf8 r"
      by (auto simp: scalar_def split: if_splits)
    from utf8_lead_Some [OF lead] cp(1) have big: "128 \<le> cp" by auto
    have f: "f # rest = utf8_encode cp @ r" by (rule utf8_sequence [OF lead tail(1) cp(1)])
    from "2.IH"(2) [OF False lead refl refl tail(2) tail(1) refl _ cp(3)] cp(1,2)
    obtain pieces where pieces: "wildcard_pattern False r = concat pieces" "list_all re2_piece pieces" "length pieces \<le> length r"
      by (auto simp: scalar_def [of cp])
    have "re2_piece (utf8_encode cp)"
      using cp(2) big by (auto simp: re2_piece_def re2_metacharacters_def byte_def)
    moreover have "wildcard_pattern escaped (f # rest) = utf8_encode cp @ concat pieces"
      unfolding f using wildcard_pattern_high utf8_encode_high [OF big cp(2)] pieces(1) by simp
    moreover have "Suc (length pieces) \<le> length (f # rest)"
      unfolding f using utf8_encode_high [OF big cp(2)] pieces(3) by (cases "utf8_encode cp") auto
    ultimately show ?thesis using pieces(2) by (intro exI [of _ "utf8_encode cp # pieces"]) simp
  qed
qed

text \<open>
  A wildcard of a validated expression is a quoted string of at most 512 bytes: validation refuses wildcards on
  addresses and any comparison of network numbers.
\<close>

lemma wildcard_accepted:
  assumes "well_formed_condition R Security_context i \<or> (\<exists>op. i = operator_instruction op) \<or> (\<exists>b. i = constant_instruction b)"
    and "instruction_error A types i = None" "re2_accepts_pieces R" "ends_with (i_comparison i) ''wildcard''"
  shows "re2_ok R \<lparr>case_sensitive = (i_comparison i \<noteq> ''wildcard''), dot_nl = True\<rparr> (wildcard_pattern False (hd (i_values i)))"
proof -
  have "i_comparison i \<noteq> ''in''" "i_comparison i \<noteq> ''eq''" "i_comparison i \<noteq> ''ne''" "i_comparison i \<noteq> []"
    using assms(4) by (auto simp: ends_with_def)
  moreover from this(4) assms(1) have wf: "well_formed_condition R Security_context i"
    by (auto simp: operator_instruction_def constant_instruction_def empty_instruction_def)
  moreover have "i_field i \<noteq> ''ip.src.asnum''" "i_field i = ''ip.src'' \<longrightarrow> i_comparison i \<in> {''eq'', ''ne'', ''in''}"
    using assms(2) by (auto simp: instruction_error_def first_error_None)
  ultimately have "string_operand (hd (i_values i))"
    by (auto simp: well_formed_condition_def quoted_operand_def)
  then obtain pieces where "wildcard_pattern False (hd (i_values i)) = concat pieces" "list_all re2_piece pieces"
    "length pieces \<le> 512"
    using wildcard_pattern_pieces [of "hd (i_values i)" False] by (auto simp: string_operand_def)
  with assms(3) show ?thesis by (simp add: re2_accepts_pieces_def)
qed

lemma compile_list_validated:
  assumes "instruction_error A types i = None" "lists_agree A types named"
  shows "\<exists>l. compile_list A named i = Inr l"
proof (cases "i_list i = []")
  case True
  show ?thesis
  proof (cases "i_field i = ''ip.src''")
    case ip: True
    have "list_all (\<lambda>e. if ''ip'' = ''ip'' then validate_ip A (v_value e) = None else validate_item A ''ip'' (v_value e) = None)
        (permanent_values (i_values i))"
      using assms(1) ip by (auto simp: instruction_error_def first_error_None list_all_iff permanent_values_def)
    from make_list_validated [OF this] obtain l where "make_list A ''ip'' (permanent_values (i_values i)) = Inr l"
      by (auto simp: list_types_def)
    with True ip assms(1) show ?thesis by (auto simp: compile_list_def instruction_error_def)
  qed (simp add: compile_list_def True)
next
  case False
  with assms(1) have "types (i_list i) = Some (field_list_type (i_field i))"
    by (simp add: instruction_error_def first_error_None)
  with assms(2) obtain l where l: "named (i_list i) = Some l" "l_type l = field_list_type (i_field i)"
    "field_list_type (i_field i) \<in> set list_types" by (auto simp: lists_agree_def) (metis map_option_eq_Some)
  then have "\<not> list_type_mismatch (i_field i) (l_type l)"
    by (auto simp: list_type_mismatch_def field_list_type_def list_types_def split: if_splits)
  with False l show ?thesis by (auto simp: compile_list_def)
qed

lemma compile_instruction_validated:
  assumes "well_formed_condition R Security_context i \<or> (\<exists>op. i = operator_instruction op) \<or> (\<exists>b. i = constant_instruction b)"
    and "instruction_error A types i = None" "lists_agree A types named" "re2_options_agree R" "re2_accepts_pieces R"
  shows "\<exists>c. compile_instruction R A named i = Inr c"
proof -
  from compile_list_validated [OF assms(2,3)] obtain l where l: "compile_list A named i = Inr l" by blast
  have pattern: "re2_ok R \<lparr>case_sensitive = (i_comparison i \<noteq> ''wildcard''), dot_nl = True\<rparr>
      (if i_comparison i = ''matches'' then hd (i_values i) else wildcard_pattern False (hd (i_values i)))"
    if "uses_pattern i"
  proof (cases "i_comparison i = ''matches''")
    case True
    with assms(1) have "compile_pattern R (hd (i_values i)) \<noteq> None"
      by (auto simp: well_formed_condition_def operator_instruction_def constant_instruction_def empty_instruction_def)
    with True assms(4) show ?thesis by (auto simp: compile_pattern_def re2_options_agree_def split: if_splits)
  qed (use that wildcard_accepted [OF assms(1,2,5)] in \<open>simp add: uses_pattern_def\<close>)
  show ?thesis
    by (cases "uses_pattern i") (simp_all add: compile_instruction_def l Let_def pattern)
qed

lemma compile_program_total:
  "(\<And>i. i \<in> set program \<Longrightarrow> \<exists>c. compile_instruction R A named i = Inr c) \<Longrightarrow>
    \<exists>cs. compile_program R A named program = Inr cs"
proof (induction program)
  case (Cons i program)
  then obtain c cs where "compile_instruction R A named i = Inr c" "compile_program R A named program = Inr cs"
    by (metis list.set_intros)
  then show ?case by simp
qed simp

lemma expression_validated:
  assumes "expression_checks R A types expr = None" "lists_agree A types named" "re2_options_agree R"
    "re2_accepts_pieces R"
  shows "\<exists>program. request_expression_program R A named Security_context expr = Inr program"
proof -
  from assms(1) obtain source where source: "parse R Security_context expr = Inr source"
    "\<forall>i \<in> set source. instruction_error A types i = None"
    by (auto simp: expression_checks_def first_error_None split: sum.splits)
  from parsed_program [OF source(1)] obtain e where e: "well_formed R Security_context e" "source = postfix e" by blast
  have "\<exists>c. compile_instruction R A named i = Inr c" if "i \<in> set source" for i
    using compile_instruction_validated [OF postfix_instructions [OF e(1)] _ assms(2-4)] that e(2) source by auto
  from compile_program_total [OF this] source(1) show ?thesis by (auto simp: request_expression_program_def)
qed

lemma compile_rules_validated:
  assumes "\<And>r. r \<in> set rs \<Longrightarrow> expression_checks R A types (expression r) = None"
    and "lists_agree A types named" "re2_options_agree R" "re2_accepts_pieces R"
  shows "\<exists>cs. compile_rules R A named expression rs = Inr cs \<and> map fst cs = rs"
  using assms(1)
proof (induction rs)
  case (Cons r rs)
  then obtain cs where cs: "compile_rules R A named expression rs = Inr cs" "map fst cs = rs" by auto
  from Cons.prems [of r] expression_validated [OF _ assms(2-4)] obtain program where
    "request_expression_program R A named Security_context (expression r) = Inr program" by auto
  with cs show ?case by (auto simp: compile_rule_def)
qed simp

lemma rules_errors_None:
  "rules_errors rule_check rule_id ids rs = Inr ids' \<Longrightarrow> r \<in> set rs \<Longrightarrow> \<exists>seen. rule_check seen r = None"
  by (induction rule_check rule_id ids rs rule: rules_errors.induct) (auto split: option.splits)

lemma valid_policy_compiles:
  assumes "validate_security R A P p = None" "re2_options_agree R" "re2_accepts_pieces R"
  shows "\<exists>pol. compile_policy R A digest p = Inr pol \<and> map fst (pol_custom pol) = sp_custom_rules p \<and>
    map fst (pol_cc pol) = sp_cc_rules p \<and> lists_built A (pol_lists pol)"
proof -
  from assms(1) obtain types ids ids' where
    lists: "validate_lists A Map.empty 0 (sp_lists p) = Inr types"
    and custom: "rules_errors (custom_rule_error R A P types) sr_id {} (sp_custom_rules p) = Inr ids"
    and cc: "rules_errors (cc_rule_error R A P types) cr_id ids (sp_cc_rules p) = Inr ids'"
    by (auto simp: validate_security_def split: option.splits sum.splits)
  have "lists_agree A Map.empty Map.empty" by (simp add: lists_agree_def lists_built_def)
  from compile_lists_validated [OF lists this] obtain named where
    named: "compile_lists A Map.empty (sp_lists p) = Inr named" "lists_agree A types named" by blast
  have "expression_checks R A types (sr_expression r) = None"
    if "r \<in> set (sp_custom_rules p)" for r
    using rules_errors_None [OF custom that] by (auto simp: custom_rule_error_def)
  from compile_rules_validated [of "sp_custom_rules p" R A types sr_expression, OF this named(2) assms(2,3)] obtain cs where
    cs: "compile_rules R A named sr_expression (sp_custom_rules p) = Inr cs" "map fst cs = sp_custom_rules p" by blast
  have "expression_checks R A types (cr_expression r) = None"
    if "r \<in> set (sp_cc_rules p)" for r
    using rules_errors_None [OF cc that] by (auto simp: cc_rule_error_def)
  from compile_rules_validated [of "sp_cc_rules p" R A types cr_expression, OF this named(2) assms(2,3)] obtain ds where
    ds: "compile_rules R A named cr_expression (sp_cc_rules p) = Inr ds" "map fst ds = sp_cc_rules p" by blast
  from named cs ds show ?thesis by (simp add: compile_policy_def lists_agree_def)
qed

text \<open>
  Claim C6.  A security policy that passes validation compiles on the worker: its lists can be built
  and every expression, of custom and of rate rules, becomes a program, in the order of the rules.  In
  particular the pattern a wildcard is translated to compiles: the escaping leaves only pieces RE2
  accepts.  Relied on is only what RE2 documents: patterns of at most 512 pieces (literal characters,
  escaped metacharacters and \<open>.*\<close>) are valid, and the worker's options do not invalidate a pattern that
  validation compiled.
\<close>

theorem validated_security_compiles:
  assumes "validate_security R A P p = None" "re2_options_agree R" "re2_accepts_pieces R"
  shows "\<exists>pol. compile_policy R A digest p = Inr pol \<and> map fst (pol_custom pol) = sp_custom_rules p \<and>
    map fst (pol_cc pol) = sp_cc_rules p \<and> lists_built A (pol_lists pol)"
  by (rule valid_policy_compiles [OF assms])

definition sample_policy :: SecurityPolicy where
  "sample_policy = \<lparr>sp_id = ''p'', sp_name = [], sp_revision = 1,
     sp_custom_rules = [\<lparr>sr_id = ''r'', sr_enabled = True, sr_expression = ''ip.src in $bad'', sr_action = ''block'',
       sr_response_status = 0, sr_response_content_type = [], sr_response_body = [], sr_name = [], sr_skip_stages = []\<rparr>],
     sp_cc_rules = [], sp_managed = None,
     sp_lists = [\<lparr>sl_name = ''bad'', sl_type = ''ip'', sl_entries = [''10.0.0.0/8''], sl_members = []\<rparr>]\<rparr>"

lemma sample_parse:
  "parse sample_re2 Security_context ''ip.src in $bad'' =
    Inr [empty_instruction\<lparr>i_field := ''ip.src'', i_comparison := ''in'', i_list := ''bad''\<rparr>]"
  by code_simp

lemma sample_list_valid:
  "validate_lists sample_asio Map.empty 0 (sp_lists sample_policy) = Inr [''bad'' \<mapsto> ''ip'']"
proof -
  have "validate_ip sample_asio ''10.0.0.0/8'' = None"
    by (simp add: validate_ip_def cut_at_def sample_asio_def scoped_def is_v4_def from_chars_def is_digit_def byte_def
        digits_value_def)
  moreover have "clean_text ''10.0.0.0/8'' 2048" by (simp add: clean_text_def iscntrl_def byte_def)
  moreover have "\<not> bad_list Map.empty \<lparr>sl_name = ''bad'', sl_type = ''ip'', sl_entries = [''10.0.0.0/8''], sl_members = []\<rparr>"
    by (simp add: bad_list_def list_name_char_def is_lower_def byte_def list_types_def)
  ultimately show ?thesis
    by (simp add: sample_policy_def Let_def list_items_def validate_item_def first_error.simps(2) check_def)
qed

lemma sample_policy_valid: "validate_security sample_re2 sample_asio sample_protobuf sample_policy = None"
proof -
  let ?r = "hd (sp_custom_rules sample_policy)"
  have limits: "policy_limits_error sample_protobuf sample_policy = None"
    by (simp add: policy_limits_error_def sample_policy_def sample_protobuf_def)
  have "expression_checks sample_re2 sample_asio [''bad'' \<mapsto> ''ip''] ''ip.src in $bad'' = None"
    by (simp add: expression_checks_def sample_parse instruction_error_def field_list_type_def empty_instruction_def)
  then have "custom_rule_error sample_re2 sample_asio sample_protobuf [''bad'' \<mapsto> ''ip''] {} ?r = None"
    by (simp add: custom_rule_error_def sample_policy_def clean_text_def bad_json_def bad_id_def bad_response_def)
  then show ?thesis
    unfolding validate_security_def sample_list_valid sum.case
    by (simp add: limits) (simp add: sample_policy_def)
qed

theorem validated_security_compiles_witness:
  "\<exists>pol. compile_policy sample_re2 sample_asio (\<lambda>_. []) sample_policy = Inr pol \<and>
     map fst (pol_custom pol) = sp_custom_rules sample_policy \<and> map fst (pol_cc pol) = sp_cc_rules sample_policy \<and>
     lists_built sample_asio (pol_lists pol)"
  by (rule validated_security_compiles [OF sample_policy_valid])
    (simp_all add: re2_options_agree_def re2_accepts_pieces_def sample_re2_def)

subsection \<open>Evaluation always decides\<close>

text \<open>The rules of a compiled policy carry programs made for its lists.\<close>

definition rules_compiled :: "re2 \<Rightarrow> asio \<Rightarrow> list_map \<Rightarrow> ('r \<Rightarrow> string) \<Rightarrow> ('r \<times> compiled_instruction list) list \<Rightarrow> bool" where
  "rules_compiled R A named expression cs \<longleftrightarrow> (\<forall>(r, program) \<in> set cs.
     request_expression_program R A named Security_context (expression r) = Inr program)"

lemma compile_rules_compiled: "compile_rules R A named expression rs = Inr cs \<Longrightarrow> rules_compiled R A named expression cs"
  by (induction rs arbitrary: cs)
    (auto simp: rules_compiled_def bind_result_Inr_iff compile_rule_def split: sum.splits)

lemma compile_lists_built: "compile_lists A named ls = Inr named' \<Longrightarrow> lists_built A named \<Longrightarrow> lists_built A named'"
proof (induction A named ls rule: compile_lists.induct)
  case (2 A named l ls)
  then obtain v where v: "make_list A (sl_type l) (list_values l) = Inr v"
    and rest: "compile_lists A (named(sl_name l \<mapsto> v)) ls = Inr named'"
    and ok: "\<not> (length (sl_entries l) > 100000 \<or> sl_name l = [] \<or> length (sl_name l) > 100)" "\<not> sl_name l \<in> dom named"
    by (auto split: if_splits sum.splits)
  have "lists_built A (named(sl_name l \<mapsto> v))"
    using "2.prems"(2) v unfolding lists_built_def by (auto simp: ran_def)
  from "2.IH" [OF ok(1) v ok(2) rest this] show ?case .
qed simp

lemma compile_policy_parts:
  assumes "compile_policy R A digest p = Inr pol"
  shows "lists_built A (pol_lists pol) \<and> rules_compiled R A (pol_lists pol) sr_expression (pol_custom pol) \<and>
    rules_compiled R A (pol_lists pol) cr_expression (pol_cc pol)"
proof -
  have "lists_built A Map.empty" by (simp add: lists_built_def)
  with assms show ?thesis
    by (auto simp: compile_policy_def bind_result_Inr_iff intro: compile_lists_built compile_rules_compiled)
qed

lemma program_total:
  assumes "rules_compiled R A named expression cs" "lists_built A named" "c \<in> set cs"
  shows "(case c of (r, program) \<Rightarrow> program_matches R A clock program q) \<noteq> None"
proof -
  obtain r program where c: "c = (r, program)" by (rule prod.exhaust)
  with assms have "request_expression_program R A named Security_context (expression r) = Inr program"
    by (auto simp: rules_compiled_def)
  from compiled_program_meaning [OF this assms(2), of clock q] c show ?thesis by auto
qed

lemma custom_loop_total:
  "(\<And>c. c \<in> set cs \<Longrightarrow> matches c \<noteq> None) \<Longrightarrow> custom_loop matches source cs d \<noteq> None"
proof (induction cs arbitrary: d)
  case (Cons c cs)
  from Cons.prems [of c] obtain b where "matches c = Some b" by auto
  with Cons show ?case by (cases b) (simp_all add: Let_def case_prod_beta)
qed simp

lemma worker_check_error:
  "worker_check k l now w = Inl e \<Longrightarrow> validate_limits l = None \<Longrightarrow> e = Identity_reused"
  by (auto simp: worker_check_def split: option.splits if_splits prod.splits)

lemma cc_loop_total:
  assumes "\<And>c. c \<in> set cs \<Longrightarrow> matches c \<noteq> None" "\<And>c. c \<in> set cs \<Longrightarrow> validate_limits (rule_limits (source c)) = None"
  shows "\<exists>r. cc_loop matches source key_of now cs d w = Some r \<and> (\<forall>e. r = Inl e \<longrightarrow> e = Identity_reused)"
  using assms
proof (induction cs arbitrary: d w)
  case (Cons c cs)
  from Cons.prems(1) [of c] obtain b where b: "matches c = Some b" by auto
  have IH: "\<exists>r. cc_loop matches source key_of now cs d w = Some r \<and> (\<forall>e. r = Inl e \<longrightarrow> e = Identity_reused)" for d w
    using Cons by simp
  have lim: "validate_limits (rule_limits (source c)) = None" using Cons.prems(2) by simp
  show ?case
  proof (cases "worker_check (key_of (source c)) (rule_limits (source c)) now w")
    case (Inl e)
    with worker_check_error [OF Inl lim] IH [of d w] b show ?thesis by (cases b) (auto simp: Let_def)
  next
    case (Inr x)
    obtain o1 w1 where x: "x = (o1, w1)" by (rule prod.exhaust)
    have d: "\<exists>r. (if P then Some (Inr a) else if Q then Some (Inr b) else f) = Some r \<and> (\<forall>e. r = Inl e \<longrightarrow> e = Identity_reused)"
      if "\<exists>r. f = Some r \<and> (\<forall>e. r = Inl e \<longrightarrow> e = Identity_reused)" for P Q a b f using that by auto
    show ?thesis
      using IH [of d w] IH [of _ w1] b
      by (cases b) (auto simp: Let_def Inr x intro!: d)
  qed
qed simp

lemma valid_rule_limits:
  assumes "cc_rule_error R A P types ids r = None"
  shows "validate_limits (rule_limits r) = None"
  using assms by (auto simp: cc_rule_error_def validate_limits_def rule_limits_def)

text \<open>
  Claim C7.  Evaluating a validated policy always comes to a decision: no program leaves its stack,
  and the only error the counters can raise is a key reused with different limits, never that the
  limits of a rule are invalid.
\<close>

theorem security_evaluation_decides:
  assumes "validate_security R A P p = None" "compile_policy R A digest p = Inr pol"
  shows "\<exists>r. evaluate_policy R A clock pol site q counters now = Some r \<and> (\<forall>e. r = Inl e \<longrightarrow> e = Identity_reused)"
proof -
  from assms(1) obtain types ids ids' where
    cc: "rules_errors (cc_rule_error R A P types) cr_id ids (sp_cc_rules p) = Inr ids'"
    by (auto simp: validate_security_def split: option.splits sum.splits)
  note parts = compile_policy_parts [OF assms(2)]
  let ?m = "\<lambda>(r, program). program_matches R A clock program q"
  have sources: "map fst cs = rs" if "compile_rules R A named expression rs = Inr cs" for named and expression :: "CcRule \<Rightarrow> string" and rs cs
    using that by (induction rs arbitrary: cs) (auto simp: bind_result_Inr_iff compile_rule_def split: sum.splits)
  have "map fst (pol_cc pol) = sp_cc_rules p"
    using assms(2) sources by (auto simp: compile_policy_def bind_result_Inr_iff)
  then have "validate_limits (rule_limits (fst c)) = None" if "c \<in> set (pol_cc pol)" for c
    using that rules_errors_None [OF cc] valid_rule_limits by (metis image_eqI list.set_map)
  from cc_loop_total [of "pol_cc pol" ?m fst, OF _ this] program_total [of R A "pol_lists pol" cr_expression] parts
  have cc: "\<exists>r. cc_loop ?m fst key_of now (pol_cc pol) d w = Some r \<and> (\<forall>e. r = Inl e \<longrightarrow> e = Identity_reused)" for key_of d w
    by blast
  have "custom_loop ?m fst (pol_custom pol) no_decision \<noteq> None"
    by (rule custom_loop_total) (use program_total [of R A "pol_lists pol" sr_expression] parts in blast)
  then show ?thesis
    using cc by (auto simp: evaluate_policy_def split: option.splits sum.splits)
qed

theorem security_evaluation_decides_witness:
  "\<exists>pol r. compile_policy sample_re2 sample_asio (\<lambda>_. []) sample_policy = Inr pol \<and>
    evaluate_policy sample_re2 sample_asio 0 pol empty_Website sample_request (new_worker 0 1) 0 = Some r \<and>
    r \<noteq> Inl Invalid_limits"
proof -
  from valid_policy_compiles [OF sample_policy_valid, of "\<lambda>_. []"] obtain pol where
    "compile_policy sample_re2 sample_asio (\<lambda>_. []) sample_policy = Inr pol"
    by (auto simp: re2_options_agree_def re2_accepts_pieces_def sample_re2_def)
  with security_evaluation_decides [OF sample_policy_valid this, of 0 empty_Website sample_request "new_worker 0 1" 0]
  show ?thesis by auto
qed

subsection \<open>Which rule decides\<close>

text \<open>
  The specification of the custom stage, by the list of rules that were hit.  A skip rule without stages skips
  every stage.  A rule is decisive when it blocks or skips the rest of the custom stage.
\<close>

definition skips :: "string \<Rightarrow> SecurityRule \<Rightarrow> bool" where
  "skips stage r \<longleftrightarrow> sr_action r = ''skip'' \<and> (sr_skip_stages r = [] \<or> stage \<in> set (sr_skip_stages r))"

definition decisive :: "SecurityRule \<Rightarrow> bool" where
  "decisive r \<longleftrightarrow> sr_action r = ''block'' \<or> skips ''custom'' r"

text \<open>What the rules passed on the way have left: all of them are logged, the last skip is named, the skips add up.\<close>

definition custom_outcome :: "SecurityRule list \<Rightarrow> security_decision" where
  "custom_outcome rs = \<lparr>dec_status = 0, dec_content_type = [], dec_body = [],
     dec_rule = (let skipping = filter (\<lambda>r. sr_action r = ''skip'') rs in if skipping = [] then [] else sr_id (last skipping)),
     dec_skip_cc = list_ex (skips ''rate'') rs, dec_skip_managed = list_ex (skips ''managed'') rs,
     dec_logged_rules = map sr_id rs\<rparr>"

definition custom_hits :: "('r \<Rightarrow> bool option) \<Rightarrow> ('r \<Rightarrow> SecurityRule) \<Rightarrow> 'r list \<Rightarrow> SecurityRule list" where
  "custom_hits matches source cs = map source (filter (\<lambda>c. sr_enabled (source c) \<and> matches c = Some True) cs)"

lemma custom_outcome_step:
  "sr_action r \<noteq> ''skip'' \<Longrightarrow> log_rule (sr_id r) (custom_outcome rs) = custom_outcome (rs @ [r])"
  "sr_action r = ''skip'' \<Longrightarrow> snd (skip_rule r (custom_outcome rs)) = custom_outcome (rs @ [r])"
  by (auto simp: custom_outcome_def log_rule_def skip_rule_def skips_def Let_def)

lemma skip_rule_stops: "sr_action r = ''skip'' \<Longrightarrow> fst (skip_rule r d) = skips ''custom'' r"
  by (simp add: skip_rule_def skips_def Let_def)

lemma custom_loop_hits:
  assumes "\<And>c. c \<in> set cs \<Longrightarrow> matches c \<noteq> None"
  shows "custom_loop matches source cs (custom_outcome done_rules) =
    Some (case find decisive (custom_hits matches source cs) of
        None \<Rightarrow> Inr (custom_outcome (done_rules @ takeWhile (\<lambda>r. \<not> decisive r) (custom_hits matches source cs)))
      | Some r \<Rightarrow>
          if sr_action r = ''block''
          then Inl (block_custom r (custom_outcome (done_rules @ takeWhile (\<lambda>r. \<not> decisive r) (custom_hits matches source cs))))
          else Inr (custom_outcome (done_rules @ takeWhile (\<lambda>r. \<not> decisive r) (custom_hits matches source cs) @ [r])))"
  using assms
proof (induction cs arbitrary: done_rules)
  case Nil
  show ?case by (simp add: custom_hits_def)
next
  case (Cons x cs)
  from Cons.prems [of x] obtain b where b: "matches x = Some b" by auto
  note IH = Cons.IH [OF Cons.prems [OF list.set_intros(2)]]
  show ?case
  proof (cases "sr_enabled (source x) \<and> b")
    case False
    then have hits: "custom_hits matches source (x # cs) = custom_hits matches source cs" using b by (auto simp: custom_hits_def)
    have loop: "custom_loop matches source (x # cs) (custom_outcome done_rules) =
        custom_loop matches source cs (custom_outcome done_rules)"
      using False b by (cases b) (auto simp: Let_def)
    show ?thesis unfolding hits loop by (rule IH)
  next
    case hit: True
    then have hits: "custom_hits matches source (x # cs) = source x # custom_hits matches source cs"
      using b by (simp add: custom_hits_def)
    show ?thesis
    proof (cases "decisive (source x)")
      case True
      have "snd (skip_rule (source x) (custom_outcome done_rules)) = custom_outcome (done_rules @ [source x])"
        if "sr_action (source x) = ''skip''" using that by (rule custom_outcome_step)
      with True hit b show ?thesis
        using skip_rule_stops [of "source x"] by (auto simp: hits Let_def decisive_def skips_def case_prod_beta)
    next
      case False
      have loop: "custom_loop matches source (x # cs) (custom_outcome done_rules) =
          custom_loop matches source cs (custom_outcome (done_rules @ [source x]))"
        using False hit b skip_rule_stops [of "source x"] custom_outcome_step [of "source x"]
        by (auto simp: Let_def decisive_def case_prod_beta)
      from IH [of "done_rules @ [source x]"] show ?thesis
        unfolding hits loop using False by (simp split: option.splits)
    qed
  qed
qed

text \<open>
  Claim C8.  Custom rules are applied in order and the first decisive one ends the stage.  Let the hits be the enabled
  rules whose expression matches, and the passed ones those before the first decisive hit (a rule that blocks,
  or a skip rule that names the stage custom or no stage at all).  A blocking rule refuses the request
  with its own status (403 when it names none), body and content type, and the counters are untouched; a skipping one
  goes on to the rate rules with everything passed and itself accounted for, as does the request when
  no hit is decisive.  The decision logs exactly those rules, names the last skip, and skips the rate
  and the managed stage exactly when one of them says so; the rate rules are then not counted at all.
\<close>

theorem custom_rules_decide:
  assumes "compile_policy R A digest p = Inr pol"
    and "hits = map fst (filter (\<lambda>(r, program). sr_enabled r \<and> program_matches R A clock program q = Some True) (pol_custom pol))"
    and "passed = takeWhile (\<lambda>r. \<not> decisive r) hits"
    and "rate_stage = (\<lambda>d. if dec_skip_cc d then Some (Inr (d, counters))
      else cc_loop (\<lambda>(r, program). program_matches R A clock program q) fst (\<lambda>r. rule_key site pol r q) now (pol_cc pol) d counters)"
  shows "evaluate_policy R A clock pol site q counters now =
    (case find decisive hits of
       None \<Rightarrow> rate_stage (custom_outcome passed)
     | Some r \<Rightarrow>
         if sr_action r = ''block''
         then Some (Inr ((custom_outcome passed)\<lparr>dec_status := (if sr_response_status r \<noteq> 0 then sr_response_status r mod 65536 else 403),
           dec_content_type := sr_response_content_type r, dec_body := sr_response_body r, dec_rule := sr_id r\<rparr>, counters))
         else rate_stage (custom_outcome (passed @ [r])))"
proof -
  let ?m = "\<lambda>(r, program). program_matches R A clock program q"
  note parts = compile_policy_parts [OF assms(1)]
  have total: "?m c \<noteq> None" if "c \<in> set (pol_custom pol)" for c
    using program_total [OF _ _ that, of R A "pol_lists pol" sr_expression] parts by blast
  have hits: "custom_hits ?m fst (pol_custom pol) = hits"
    unfolding assms(2) custom_hits_def by (rule arg_cong [where f = "map fst"], rule filter_cong) auto
  have none: "no_decision = custom_outcome []" by (simp add: no_decision_def custom_outcome_def)
  have rates: "cc_loop ?m fst (\<lambda>r. rule_key site pol r q) now (pol_cc pol) d counters = rate_stage d" for d
    by (cases "pol_cc pol") (simp_all add: assms(4))
  have loop: "custom_loop ?m fst (pol_custom pol) (custom_outcome []) =
      Some (case find decisive hits of
          None \<Rightarrow> Inr (custom_outcome passed)
        | Some r \<Rightarrow> if sr_action r = ''block'' then Inl (block_custom r (custom_outcome passed))
            else Inr (custom_outcome (passed @ [r])))"
    using custom_loop_hits [of "pol_custom pol" ?m fst "[]", OF total] unfolding hits assms(3) append_Nil .
  show ?thesis
    unfolding evaluate_policy_def none loop rates
    by (cases "find decisive hits") (simp_all add: block_custom_def)
qed

definition sample_block :: SecurityRule where
  "sample_block = \<lparr>sr_id = ''b'', sr_enabled = True, sr_expression = ''true'', sr_action = ''block'',
       sr_response_status = 0, sr_response_content_type = [], sr_response_body = [], sr_name = [], sr_skip_stages = []\<rparr>"

definition sample_blocking :: SecurityPolicy where
  "sample_blocking = sample_policy\<lparr>sp_custom_rules := [sample_block], sp_lists := []\<rparr>"

lemma parse_true: "parse R Security_context ''true'' = Inr [constant_instruction True]"
  by code_simp

definition always :: compiled_instruction where
  "always = \<lparr>c_source = constant_instruction True, c_pattern = None, c_list = None\<rparr>"

lemma program_true: "request_expression_program R A named Security_context ''true'' = Inr [always]"
  by (simp add: request_expression_program_def parse_true compile_instruction_def compile_list_def always_def
      constant_instruction_def empty_instruction_def uses_pattern_def ends_with_def)

lemma sample_blocking_compiles:
  "compile_policy R A digest sample_blocking = Inr \<lparr>pol_fingerprint = digest (counter_source sample_blocking),
     pol_lists = Map.empty, pol_custom = [(sample_block, [always])], pol_cc = []\<rparr>"
  by (simp add: compile_policy_def sample_blocking_def sample_policy_def compile_rule_def sample_block_def program_true)

lemma always_matches: "program_matches R A clock [always] q = Some True"
  by (simp add: program_matches_def always_def constant_instruction_def empty_instruction_def machine_step_def push_def
      stack_size_def Let_def)

text \<open>A rule that only logs, one that skips the rate and the custom stage, and one that would block.\<close>

definition sample_skipping :: SecurityPolicy where
  "sample_skipping = sample_blocking\<lparr>sp_custom_rules :=
     [sample_block\<lparr>sr_id := ''l'', sr_action := ''log''\<rparr>,
      sample_block\<lparr>sr_id := ''s'', sr_action := ''skip'', sr_skip_stages := [''rate'', ''custom'']\<rparr>, sample_block]\<rparr>"

lemma sample_skipping_compiles:
  "compile_policy R A digest sample_skipping = Inr \<lparr>pol_fingerprint = digest (counter_source sample_skipping),
     pol_lists = Map.empty, pol_custom = map (\<lambda>r. (r, [always])) (sp_custom_rules sample_skipping), pol_cc = []\<rparr>"
  by (simp add: compile_policy_def sample_skipping_def sample_blocking_def sample_policy_def compile_rule_def sample_block_def
      program_true)

theorem custom_rules_decide_witness:
  "\<exists>pol d. compile_policy sample_re2 sample_asio (\<lambda>_. []) sample_skipping = Inr pol \<and>
    evaluate_policy sample_re2 sample_asio 0 pol empty_Website sample_request (new_worker 0 1) 0 =
      Some (Inr (d, new_worker 0 1)) \<and> dec_status d = 0 \<and> dec_logged_rules d = [''l'', ''s''] \<and> dec_rule d = ''s'' \<and>
    dec_skip_cc d \<and> \<not> dec_skip_managed d"
  using custom_rules_decide [OF sample_skipping_compiles refl refl refl, where clock = 0 and q = sample_request
      and R = sample_re2 and A = sample_asio and digest = "\<lambda>_. []" and site = empty_Website and counters = "new_worker 0 1" and now = 0]
  by (simp add: sample_skipping_compiles)
    (simp add: sample_skipping_def sample_block_def always_matches decisive_def skips_def custom_outcome_def Let_def)

end
