(* ===== verification/Website_Validation.thy ===== *)
theory Website_Validation
  imports Security_Validation
begin

text \<open>
  \<open>src/node/proto/website_validation.h\<close>: the protocol rules of one published website.  A throw is
  \<open>Some error\<close>, one constructor per message; the checks run in the order of the source.
\<close>

datatype website_error =
    Invalid_access_log_range | Too_many_compression_values | Invalid_compression_value
  | Invalid_compression_policy | Invalid_compression_algorithm | Invalid_origin_http_version
  | Invalid_enabled_website | Missing_origin_timeouts | Invalid_health_check | Force_https_without_https
  | Hsts_without_https | Unsupported_tls_version | Too_many_route_rules | Invalid_route_regex
  | Too_many_route_conditions | Invalid_route_condition | Invalid_route_options | Invalid_route_hostname
  | Invalid_route_rule | Invalid_rewrite_rule | Invalid_proxy_rule | Invalid_redirect_rule
  | Invalid_website_origin | Missing_enabled_origin | Invalid_domain_hostname | Https_domain_without_https
  | Missing_certificate | Missing_https_domain | Invalid_security security_error | Invalid_response_cache
  | Invalid_route_action | Invalid_route_match_type | Invalid_route_rewrite_mode | Invalid_route_query_mode
  | Invalid_condition_source | Invalid_condition_operator | Invalid_capture_template | Invalid_route_pattern

subsection \<open>Values\<close>

definition isspace :: "char \<Rightarrow> bool" where
  "isspace c \<longleftrightarrow> byte c = 32 \<or> (9 \<le> byte c \<and> byte c \<le> 13)"

definition proxy_headers :: "string list" where
  "proxy_headers = [''Connection'', ''Content-Length'', ''Host'', ''Keep-Alive'', ''Proxy-Connection'', ''TE'',
     ''Strict-Transport-Security'', ''Trailer'', ''Transfer-Encoding'', ''Upgrade'']"

definition route_header_name :: "string \<Rightarrow> bool" where
  "route_header_name v \<longleftrightarrow> http_token v (length v) \<and> list_all (\<lambda>h. \<not> ascii_equal v h) proxy_headers"

definition single_line :: "string \<Rightarrow> bool" where
  "single_line v \<longleftrightarrow> CHR 0x0D \<notin> set v \<and> CHR 0x0A \<notin> set v"

definition route_header_value :: "string \<Rightarrow> bool" where
  "route_header_value v \<longleftrightarrow> length v \<le> 4096 \<and> single_line v"

definition route_path :: "string \<Rightarrow> bool" where
  "route_path v \<longleftrightarrow> v \<noteq> [] \<and> length v \<le> 2048 \<and> hd v = CHR ''/'' \<and> single_line v"

definition route_suffix :: "string \<Rightarrow> bool" where
  "route_suffix v \<longleftrightarrow> v \<noteq> [] \<and> clean_text v 2048 \<and> set v \<inter> set '' ?#'' = {}"

definition route_redirect_url :: "string \<Rightarrow> bool" where
  "route_redirect_url v \<longleftrightarrow> v \<noteq> [] \<and> length v \<le> 2048 \<and>
     (hd v = CHR ''/'' \<or> starts_with v ''http://'' \<or> starts_with v ''https://'') \<and> list_all (\<lambda>c. \<not> isspace c) v"

definition route_methods_known :: "string list" where
  "route_methods_known = [''GET'', ''HEAD'', ''POST'', ''PUT'', ''PATCH'', ''DELETE'', ''OPTIONS'']"

definition route_method :: "string \<Rightarrow> bool" where
  "route_method v \<longleftrightarrow> v \<in> set route_methods_known"

definition compression_algorithm :: "string \<Rightarrow> bool" where
  "compression_algorithm v \<longleftrightarrow> v = ''br'' \<or> v = ''zstd'' \<or> v = ''gzip''"

definition compression_mime_type :: "string \<Rightarrow> bool" where
  "compression_mime_type v =
     (case cut_at CHR ''/'' v of
        (type, None) \<Rightarrow> False
      | (type, Some subtype) \<Rightarrow>
          if CHR ''/'' \<in> set subtype then False
          else http_token type (length type) \<and> (subtype = ''*'' \<or> http_token subtype (length subtype)))"

datatype compression_match_kind = Mime_type | Extension

definition compression_match_value :: "string \<Rightarrow> compression_match_kind \<Rightarrow> bool" where
  "compression_match_value v kind \<longleftrightarrow> v \<noteq> [] \<and> length v \<le> 127 \<and> list_all (\<lambda>c. \<not> isspace c) v \<and>
     (if kind = Extension then hd v = CHR ''.'' else compression_mime_type v)"

definition access_log_status_code_range :: "string \<Rightarrow> bool" where
  "access_log_status_code_range v \<longleftrightarrow> v = ''1xx'' \<or> v = ''2xx'' \<or> v = ''3xx'' \<or> v = ''4xx'' \<or> v = ''5xx''"

subsection \<open>Settings of the website\<close>

definition validate_access_log :: "Website \<Rightarrow> website_error option" where
  "validate_access_log w =
     check (\<not> unique_names access_log_status_code_range {} (w_access_log_status_code_ranges w)) Invalid_access_log_range"

definition validate_compression_match_values :: "string list \<Rightarrow> compression_match_kind \<Rightarrow> website_error option" where
  "validate_compression_match_values vs kind =
     first_error
      [check (length vs > 32) Too_many_compression_values,
       check (\<not> unique_names (\<lambda>v. compression_match_value v kind) {} vs) Invalid_compression_value]"

definition validate_response_compression :: "Website \<Rightarrow> website_error option" where
  "validate_response_compression w =
     first_error
      [check (w_response_compression_enabled w \<and>
         (w_response_compression_min_bytes w < 256 \<or> w_response_compression_min_bytes w > 1024 * 1024 \<or>
          (w_response_compression_max_bytes w \<noteq> 0 \<and>
           w_response_compression_max_bytes w < w_response_compression_min_bytes w) \<or>
          w_response_compression_max_bytes w > 64 * 1024 * 1024 \<or>
          w_response_compression_algorithms w = [])) Invalid_compression_policy,
       check (\<not> unique_names compression_algorithm {} (w_response_compression_algorithms w)) Invalid_compression_algorithm,
       validate_compression_match_values (w_response_compression_mime_types w) Mime_type,
       validate_compression_match_values (w_response_compression_extensions w) Extension,
       validate_compression_match_values (w_response_compression_excluded_extensions w) Extension]"

definition bad_health_check :: "Website \<Rightarrow> bool" where
  "bad_health_check w \<longleftrightarrow> w_health_check_enabled w \<and>
     (w_health_check_path w = [] \<or> hd (w_health_check_path w) \<noteq> CHR ''/'' \<or>
      w_health_check_interval_seconds w = 0 \<or> w_health_check_timeout_seconds w = 0 \<or>
      (w_health_check_expected_status w \<noteq> 0 \<and> w_health_check_expected_status w < 100) \<or>
      w_health_check_expected_status w > 599 \<or> w_healthy_threshold w = 0 \<or> w_unhealthy_threshold w = 0)"

definition validate_website_basics :: "Website \<Rightarrow> website_error option" where
  "validate_website_basics w =
     first_error
      [check (w_origin_http_version w \<noteq> [] \<and> w_origin_http_version w \<noteq> ''auto'' \<and>
         w_origin_http_version w \<noteq> ''http1'' \<and> w_origin_http_version w \<noteq> ''http2'') Invalid_origin_http_version,
       check (w_id w = [] \<or> w_revision w \<le> 0 \<or> w_domains w = []) Invalid_enabled_website,
       check (w_origin_connect_timeout_seconds w = 0 \<or> w_origin_read_timeout_seconds w = 0) Missing_origin_timeouts,
       check (bad_health_check w) Invalid_health_check,
       check (w_force_https w \<and> \<not> w_https_enabled w) Force_https_without_https,
       check (w_hsts_enabled w \<and> \<not> w_https_enabled w) Hsts_without_https,
       check (w_https_enabled w \<and> w_minimum_tls_version w \<noteq> ''1.2'' \<and> w_minimum_tls_version w \<noteq> ''1.3'')
         Unsupported_tls_version,
       validate_access_log w,
       validate_response_compression w]"

subsection \<open>Route rules\<close>

definition route_methods :: "string list \<Rightarrow> bool" where
  "route_methods ms \<longleftrightarrow> length ms \<le> 8 \<and> unique_names route_method {} ms"

fun route_headers_loop :: "string set \<Rightarrow> HeaderMutation list \<Rightarrow> bool" where
  "route_headers_loop names [] = True"
| "route_headers_loop names (h # hs) =
     (if \<not> route_header_name (hm_name h) \<or> \<not> route_header_value (hm_value h) then False
      else let normalized = map lower_ascii (hm_name h) in
        if normalized \<in> names then False else route_headers_loop (insert normalized names) hs)"

definition route_headers :: "HeaderMutation list \<Rightarrow> bool" where
  "route_headers hs \<longleftrightarrow> length hs \<le> 20 \<and> route_headers_loop {} hs"

definition enabled_ids :: "Website \<Rightarrow> string set" where
  "enabled_ids w = set (map o_id (filter o_enabled (w_origins w)))"

definition route_origin_ids :: "string list \<Rightarrow> Website \<Rightarrow> bool" where
  "route_origin_ids ids w \<longleftrightarrow> length ids \<le> 20 \<and>
     unique_names (\<lambda>i. i \<noteq> [] \<and> i \<in> enabled_ids w) {} ids"

definition primary_in_group :: "string \<Rightarrow> Origin \<Rightarrow> bool" where
  "primary_in_group g og \<longleftrightarrow> group_or_default (o_group og) = g \<and> o_enabled og \<and> o_role og = ''primary''"

definition route_origin_group :: "RouteRule \<Rightarrow> Website \<Rightarrow> bool" where
  "route_origin_group r w =
     (if rr_origin_ids r \<noteq> [] then route_origin_ids (rr_origin_ids r) w
      else if rr_origin_group r = [] then False
      else list_ex (primary_in_group (rr_origin_group r)) (w_origins w))"

definition bad_regex :: "re2 \<Rightarrow> RouteRule \<Rightarrow> bool" where
  "bad_regex R r \<longleftrightarrow> rr_match_type r = ''regex'' \<and>
     (case compile_pattern R (rr_path r) of
        None \<Rightarrow> True
      | Some pattern \<Rightarrow>
          let groups = int (number_of_capturing_groups R default_options pattern) in
          \<not> capture_template (rr_rewrite_path r) groups \<or> \<not> capture_template (rr_redirect_url r) groups)"

definition bad_options :: "RouteRule \<Rightarrow> bool" where
  "bad_options r \<longleftrightarrow>
     (let mode = rr_rewrite_mode r in
      \<not> clean_text (rr_name r) 100 \<or> length (rr_description r) > 1000 \<or> length (rr_hostnames r) > 100 \<or>
      \<not> rewrite_mode mode \<or> \<not> query_mode (rr_query_mode r) \<or> \<not> query_string (rr_query_string r) \<or>
      (rr_query_mode r \<noteq> ''replace'' \<and> rr_query_string r \<noteq> []) \<or>
      ((mode = ''none'' \<or> mode = ''strip_prefix'') \<and> rr_rewrite_path r \<noteq> []) \<or>
      ((mode = ''replace_path'' \<or> mode = ''replace_prefix'') \<and> rr_rewrite_path r = []) \<or>
      ((mode = ''strip_prefix'' \<or> mode = ''replace_prefix'') \<and>
        (rr_match_type r \<noteq> ''prefix'' \<or> \<not> path_only (rr_path r) \<or>
         (mode = ''replace_prefix'' \<and> \<not> path_only (rr_rewrite_path r)))) \<or>
      (rr_action r = ''redirect'' \<and> mode \<noteq> [] \<and> mode \<noteq> ''none''))"

fun bad_hostnames :: "string set \<Rightarrow> string list \<Rightarrow> bool" where
  "bad_hostnames seen [] = False"
| "bad_hostnames seen (h # hs) =
     (if \<not> exact_hostname h \<or> hostname h \<in> seen then True else bad_hostnames (insert (hostname h) seen) hs)"

definition bad_shape :: "string set \<Rightarrow> RouteRule \<Rightarrow> bool" where
  "bad_shape ids r \<longleftrightarrow> rr_id r = [] \<or> rr_id r \<in> ids \<or> \<not> valid_match_type (rr_match_type r) \<or>
     (if rr_match_type r = ''suffix'' then \<not> route_suffix (rr_path r)
      else rr_match_type r \<noteq> ''regex'' \<and> \<not> route_path (rr_path r)) \<or>
     \<not> route_methods (rr_methods r) \<or>
     (rr_action r \<noteq> ''proxy'' \<and> rr_action r \<noteq> ''redirect'' \<and> rr_action r \<noteq> ''rewrite'') \<or>
     \<not> route_headers (rr_request_headers r) \<or> \<not> route_headers (rr_response_headers r)"

definition action_error :: "Website \<Rightarrow> RouteRule \<Rightarrow> website_error option" where
  "action_error w r =
     (if rr_action r = ''rewrite'' then
        check (rr_origin_ids r \<noteq> [] \<or> rr_origin_group r \<noteq> [] \<or> rr_redirect_url r \<noteq> [] \<or> rr_redirect_status r \<noteq> 0 \<or>
          rr_request_headers r \<noteq> [] \<or> rr_response_headers r \<noteq> [] \<or>
          (rr_rewrite_path r \<noteq> [] \<and> \<not> path_only (rr_rewrite_path r))) Invalid_rewrite_rule
      else if rr_action r = ''proxy'' then
        check (\<not> route_origin_group r w \<or> (rr_rewrite_path r \<noteq> [] \<and> \<not> path_only (rr_rewrite_path r)) \<or>
          rr_redirect_url r \<noteq> [] \<or> rr_redirect_status r \<noteq> 0) Invalid_proxy_rule
      else
        check (rr_origin_ids r \<noteq> [] \<or> rr_origin_group r \<noteq> [] \<or> rr_rewrite_path r \<noteq> [] \<or>
          \<not> route_redirect_url (rr_redirect_url r) \<or> \<not> redirect_status (int (rr_redirect_status r))) Invalid_redirect_rule)"

definition route_rule_error :: "re2 \<Rightarrow> Website \<Rightarrow> string set \<Rightarrow> RouteRule \<Rightarrow> website_error option" where
  "route_rule_error R w ids r =
     first_error
      [check (bad_regex R r) Invalid_route_regex,
       check (length (rr_conditions r) > 20) Too_many_route_conditions,
       check (\<not> list_all (\<lambda>c. condition_options (rc_source c) (rc_name c) (rc_op c) (rc_value c)) (rr_conditions r))
         Invalid_route_condition,
       check (bad_options r) Invalid_route_options,
       check (bad_hostnames {} (rr_hostnames r)) Invalid_route_hostname,
       check (bad_shape ids r) Invalid_route_rule,
       action_error w r]"

fun route_rules_loop :: "re2 \<Rightarrow> Website \<Rightarrow> string set \<Rightarrow> RouteRule list \<Rightarrow> website_error option" where
  "route_rules_loop R w ids [] = None"
| "route_rules_loop R w ids (r # rs) =
     (case route_rule_error R w ids r of
        Some e \<Rightarrow> Some e
      | None \<Rightarrow> route_rules_loop R w (insert (rr_id r) ids) rs)"

definition validate_route_rules :: "re2 \<Rightarrow> Website \<Rightarrow> website_error option" where
  "validate_route_rules R w =
     first_error [check (length (w_route_rules w) > 100) Too_many_route_rules, route_rules_loop R w {} (w_route_rules w)]"

subsection \<open>Origins and domains\<close>

definition bad_origin :: "Origin \<Rightarrow> bool" where
  "bad_origin og \<longleftrightarrow> o_id og = [] \<or> o_host og = [] \<or> o_port og = 0 \<or> o_port og > 65535 \<or>
     (o_protocol og \<noteq> ''http'' \<and> o_protocol og \<noteq> ''https'') \<or>
     (o_role og \<noteq> ''primary'' \<and> o_role og \<noteq> ''backup'') \<or> o_weight og = 0"

fun origins_loop :: "string set \<Rightarrow> string set \<Rightarrow> Origin list \<Rightarrow> website_error + (string set \<times> string set)" where
  "origins_loop enabled primaries [] = Inr (enabled, primaries)"
| "origins_loop enabled primaries (og # ogs) =
     (if \<not> o_enabled og then origins_loop enabled primaries ogs
      else if bad_origin og then Inl Invalid_website_origin
      else let g = group_or_default (o_group og) in
        origins_loop (insert g enabled) (if o_role og = ''primary'' then insert g primaries else primaries) ogs)"

definition validate_website_origins :: "Website \<Rightarrow> website_error option" where
  "validate_website_origins w =
     (case origins_loop {} {} (w_origins w) of
        Inl e \<Rightarrow> Some e
      | Inr (enabled, primaries) \<Rightarrow>
          check (enabled = {} \<or> enabled \<noteq> primaries \<or> group_or_default (w_default_origin_group w) \<notin> enabled)
            Missing_enabled_origin)"

fun domains_loop :: "Website \<Rightarrow> bool \<Rightarrow> Domain list \<Rightarrow> website_error + bool" where
  "domains_loop w has_https [] = Inr has_https"
| "domains_loop w has_https (d # ds) =
     (let h = hostname (d_hostname d) in
      case first_error
        [check (h = [] \<or> length h > 253) Invalid_domain_hostname,
         check (d_https_enabled d \<and> \<not> w_https_enabled w) Https_domain_without_https,
         check (d_https_enabled d \<and> d_certificate_digest d = []) Missing_certificate] of
        Some e \<Rightarrow> Inl e
      | None \<Rightarrow> domains_loop w (has_https \<or> d_https_enabled d) ds)"

definition validate_website_domains :: "Website \<Rightarrow> website_error option" where
  "validate_website_domains w =
     (case domains_loop w False (w_domains w) of
        Inl e \<Rightarrow> Some e
      | Inr has_https \<Rightarrow> check (w_https_enabled w \<and> \<not> has_https) Missing_https_domain)"

definition validate_website :: "re2 \<Rightarrow> asio \<Rightarrow> protobuf \<Rightarrow> Website \<Rightarrow> website_error option" where
  "validate_website R A P w =
     first_error
      [(case w_security w of None \<Rightarrow> None | Some p \<Rightarrow> map_option Invalid_security (validate_security R A P p)),
       (case w_response_cache w of
          None \<Rightarrow> None
        | Some c \<Rightarrow> check (validate R (from_proto c) \<noteq> None \<or> pp_id c = [] \<or> pp_revision c < 1)
            Invalid_response_cache),
       (if \<not> w_enabled w then None
        else first_error [validate_website_basics w, validate_route_rules R w, validate_website_origins w,
          validate_website_domains w])]"

end
