(* ===== verification/Origin_Health.thy ===== *)
theory Origin_Health
  imports Prelude "HOL-Library.Product_Lexorder"
begin

text \<open>
  \<open>src/node/data/origin_health.h\<close>: the health of the configured origins.  The owner loop keeps one
  mutable entry per origin membership and publishes immutable snapshots.  Entries are shared by
  pointer between the active membership, prepared memberships and probe targets, so they live in an
  explicit store and the maps hold addresses.  An unordered container is iterated in some order:
  where the order can matter it is the order of the list that stands for the container.
\<close>

type_synonym origin_health_key = "string \<times> string"

record origin_health_report =
  rep_website_id :: string
  rep_origin_id :: string
  rep_status :: string
  rep_checked_at :: int
  rep_latency :: nat
  rep_last_error :: string

record snapshot_origin =
  so_id :: nat
  so_healthy :: bool
  so_checked_at :: int
  so_latency :: nat
  so_last_error :: string

subsection \<open>Snapshots\<close>

text \<open>A snapshot is its entries in iteration order, keys distinct.\<close>

type_synonym origin_map = "(origin_health_key \<times> snapshot_origin) list"

definition snapshot_find :: "origin_map \<Rightarrow> origin_health_key \<Rightarrow> snapshot_origin option" where
  "snapshot_find origins k = map_of origins k"

definition snapshot_healthy :: "origin_map \<Rightarrow> origin_health_key \<Rightarrow> bool" where
  "snapshot_healthy origins k = (case snapshot_find origins k of None \<Rightarrow> True | Some v \<Rightarrow> so_healthy v)"

definition all_healthy :: "origin_map \<Rightarrow> bool" where
  "all_healthy origins = list_all (\<lambda>(k, v). so_healthy v) origins"

definition report_status :: "snapshot_origin \<Rightarrow> string" where
  "report_status v = (if \<not> so_healthy v then ''unhealthy''
     else if so_checked_at v = 0 then ''unknown'' else ''healthy'')"

definition reports :: "origin_map \<Rightarrow> origin_health_report list" where
  "reports origins = map (\<lambda>(k, v). \<lparr>rep_website_id = fst k, rep_origin_id = snd k,
     rep_status = report_status v, rep_checked_at = so_checked_at v, rep_latency = so_latency v,
     rep_last_error = so_last_error v\<rparr>) origins"

subsection \<open>Merging the snapshots of the workers\<close>

definition diagnostic :: "snapshot_origin \<Rightarrow> int \<times> string \<times> nat" where
  "diagnostic v = (so_checked_at v, so_last_error v, so_latency v)"

definition merge_origin :: "snapshot_origin \<Rightarrow> snapshot_origin \<Rightarrow> snapshot_origin" where
  "merge_origin merged v =
     (let healthy = (so_healthy merged \<and> so_healthy v);
        unknown = (so_checked_at merged = 0 \<or> so_checked_at v = 0);
        merged = (if (so_healthy merged \<and> \<not> so_healthy v) \<or>
                     (so_healthy merged = so_healthy v \<and> diagnostic v > diagnostic merged) then v else merged);
        merged = merged\<lparr>so_healthy := healthy\<rparr> in
      if healthy \<and> unknown then merged\<lparr>so_checked_at := 0, so_latency := 0, so_last_error := []\<rparr> else merged)"

definition merge_entry :: "(origin_health_key \<rightharpoonup> snapshot_origin) \<Rightarrow> origin_health_key \<times> snapshot_origin \<Rightarrow>
    (origin_health_key \<rightharpoonup> snapshot_origin)" where
  "merge_entry origins kv =
     (case kv of (k, v) \<Rightarrow>
      let merged = (case origins k of None \<Rightarrow> v | Some old \<Rightarrow> merge_origin old v) in
      origins(k \<mapsto> merged\<lparr>so_id := 0\<rparr>))"

definition merge_snapshots :: "origin_map list \<Rightarrow> origin_health_key \<rightharpoonup> snapshot_origin" where
  "merge_snapshots snapshots = foldl (foldl merge_entry) Map.empty snapshots"

subsection \<open>Entries\<close>

record health_entry =
  e_id :: nat
  e_healthy :: bool
  e_last_success :: bool
  e_streak :: nat
  e_last_probe :: int
  e_probed :: bool
  e_checked_at :: int
  e_latency :: nat
  e_last_error :: string

definition new_entry :: "nat \<Rightarrow> health_entry" where
  "new_entry i = \<lparr>e_id = i, e_healthy = True, e_last_success = True, e_streak = 0, e_last_probe = 0,
     e_probed = False, e_checked_at = 0, e_latency = 0, e_last_error = []\<rparr>"

text \<open>\<open>origin_health_entry::record\<close>; the streak saturates at the largest 32-bit value.\<close>

definition record_outcome :: "bool \<Rightarrow> nat \<Rightarrow> health_entry \<Rightarrow> bool \<times> health_entry" where
  "record_outcome success threshold e =
     (let e' = (if success = e_last_success e
                then e\<lparr>e_streak := (if e_streak e = u32_max then e_streak e else e_streak e + 1)\<rparr>
                else e\<lparr>e_last_success := success, e_streak := 1\<rparr>);
        e' = (if e_streak e' \<ge> threshold then e'\<lparr>e_healthy := success\<rparr> else e') in
      (e_healthy e' \<noteq> e_healthy e, e'))"

definition probe_entry :: "bool \<Rightarrow> nat \<Rightarrow> nat \<Rightarrow> string \<Rightarrow> int \<Rightarrow> health_entry \<Rightarrow> health_entry" where
  "probe_entry healthy threshold latency error_text clock e =
     (snd (record_outcome healthy threshold e))\<lparr>e_checked_at := clock, e_latency := latency,
        e_last_error := error_text\<rparr>"

subsection \<open>The state of the owner loop\<close>

type_synonym addr = nat

record health_state =
  store :: "addr \<rightharpoonup> health_entry"
  next_addr :: addr
  entries :: "origin_health_key \<rightharpoonup> addr"
  last_id :: nat

definition initial_state :: health_state where
  "initial_state = \<lparr>store = Map.empty, next_addr = 0, entries = Map.empty, last_id = 0\<rparr>"

text \<open>\<open>++last_id_\<close> on 64 bits.\<close>

definition bump_id :: "nat \<Rightarrow> nat" where
  "bump_id n = (n + 1) mod 2 ^ 64"

fun prepare_loop :: "origin_health_key set \<Rightarrow> origin_health_key list \<Rightarrow> health_state \<Rightarrow>
    (origin_health_key \<rightharpoonup> addr) \<Rightarrow> health_state \<times> (origin_health_key \<rightharpoonup> addr)" where
  "prepare_loop replaced [] st nxt = (st, nxt)"
| "prepare_loop replaced (k # ks) st nxt =
     (case (entries st k, k \<in> replaced) of
        (Some a, False) \<Rightarrow> prepare_loop replaced ks st (nxt(k \<mapsto> a))
      | _ \<Rightarrow>
          let i = bump_id (last_id st); a = next_addr st in
          prepare_loop replaced ks
            (st\<lparr>last_id := i, store := (store st)(a \<mapsto> new_entry i), next_addr := a + 1\<rparr>) (nxt(k \<mapsto> a)))"

definition prepare :: "origin_health_key list \<Rightarrow> origin_health_key set \<Rightarrow> health_state \<Rightarrow>
    health_state \<times> (origin_health_key \<rightharpoonup> addr)" where
  "prepare keys replaced st = prepare_loop replaced keys st Map.empty"

text \<open>The swapped-out membership is returned.\<close>

definition activate :: "(origin_health_key \<rightharpoonup> addr) \<Rightarrow> health_state \<Rightarrow>
    health_state \<times> (origin_health_key \<rightharpoonup> addr)" where
  "activate nxt st = (st\<lparr>entries := nxt\<rparr>, entries st)"

definition entry_at :: "health_state \<Rightarrow> origin_health_key \<Rightarrow> health_entry option" where
  "entry_at st k = Option.bind (entries st k) (store st)"

definition record_request :: "origin_health_key \<Rightarrow> nat \<Rightarrow> bool \<Rightarrow> nat \<Rightarrow> health_state \<Rightarrow> bool \<times> health_state" where
  "record_request k i success threshold st =
     (case entries st k of
        None \<Rightarrow> (False, st)
      | Some a \<Rightarrow>
          (case store st a of
             None \<Rightarrow> (False, st)
           | Some e \<Rightarrow>
               if e_id e \<noteq> i then (False, st)
               else case record_outcome success threshold e of (changed, e') \<Rightarrow>
                 (changed, st\<lparr>store := (store st)(a \<mapsto> e')\<rparr>)))"

definition probe_target :: "origin_health_key \<Rightarrow> health_state \<Rightarrow> addr option" where
  "probe_target k st = entries st k"

definition record_probe :: "addr option \<Rightarrow> bool \<Rightarrow> nat \<Rightarrow> nat \<Rightarrow> string \<Rightarrow> int \<Rightarrow> health_state \<Rightarrow> health_state" where
  "record_probe target healthy threshold latency error_text clock st =
     (case target of
        None \<Rightarrow> st
      | Some a \<Rightarrow>
          (case store st a of
             None \<Rightarrow> st
           | Some e \<Rightarrow> st\<lparr>store := (store st)(a \<mapsto> probe_entry healthy threshold latency error_text clock e)\<rparr>))"

definition claim_due :: "origin_health_key \<Rightarrow> int \<Rightarrow> int \<Rightarrow> health_state \<Rightarrow> bool \<times> health_state" where
  "claim_due k interval now st =
     (case entries st k of
        None \<Rightarrow> (False, st)
      | Some a \<Rightarrow>
          (case store st a of
             None \<Rightarrow> (False, st)
           | Some e \<Rightarrow>
               if e_probed e \<and> now - e_last_probe e < interval then (False, st)
               else (True, st\<lparr>store := (store st)(a \<mapsto> e\<lparr>e_probed := True, e_last_probe := now\<rparr>)\<rparr>)))"

definition published :: "health_entry \<Rightarrow> snapshot_origin" where
  "published e = \<lparr>so_id = e_id e, so_healthy = e_healthy e, so_checked_at = e_checked_at e,
     so_latency = e_latency e, so_last_error = e_last_error e\<rparr>"

text \<open>The published snapshot, as the map it looks up.\<close>

definition snapshot :: "health_state \<Rightarrow> origin_health_key \<rightharpoonup> snapshot_origin" where
  "snapshot st k = map_option published (entry_at st k)"

subsection \<open>Merging does not depend on the order of arrival\<close>

text \<open>What a merge looks at: everything but the membership identity.\<close>

definition core :: "snapshot_origin \<Rightarrow> bool \<times> (int \<times> string \<times> nat)" where
  "core v = (so_healthy v, diagnostic v)"

fun merge_core :: "bool \<times> (int \<times> string \<times> nat) \<Rightarrow> bool \<times> (int \<times> string \<times> nat) \<Rightarrow> bool \<times> (int \<times> string \<times> nat)" where
  "merge_core (True, d) (True, e) = (if fst d = 0 \<or> fst e = 0 then (True, (0, [], 0)) else (True, max d e))"
| "merge_core (True, d) (False, e) = (False, e)"
| "merge_core (False, d) (True, e) = (False, d)"
| "merge_core (False, d) (False, e) = (False, max d e)"

lemma core_id [simp]: "core (v\<lparr>so_id := i\<rparr>) = core v"
  by (simp add: core_def diagnostic_def)

lemma core_eqI: "core v = core w \<Longrightarrow> v\<lparr>so_id := 0\<rparr> = w\<lparr>so_id := 0\<rparr>"
  by (simp add: core_def diagnostic_def)

lemma core_merge_origin: "core (merge_origin a b) = merge_core (core a) (core b)"
proof -
  have pair: "core v = (so_healthy v, diagnostic v)" for v by (simp add: core_def)
  show ?thesis
    by (cases "so_healthy a"; cases "so_healthy b")
      (auto simp: pair merge_origin_def Let_def diagnostic_def max_def not_le)
qed

lemma merge_core_commute: "merge_core p q = merge_core q p"
  by (cases p; cases q; cases "fst p"; cases "fst q") (auto simp: max.commute)

lemma fst_max_zero: "fst d \<noteq> (0 :: int) \<Longrightarrow> fst e \<noteq> 0 \<Longrightarrow> fst (max d e) \<noteq> 0" for d e :: "int \<times> string \<times> nat"
  by (simp add: max_def)

lemma merge_core_right_commute: "merge_core (merge_core p q) r = merge_core (merge_core p r) q"
proof -
  obtain b d where p: "p = (b, d)" by (rule prod.exhaust)
  obtain c e where q: "q = (c, e)" by (rule prod.exhaust)
  obtain f g where r: "r = (f, g)" by (rule prod.exhaust)
  show ?thesis
    unfolding p q r
    by (cases b; cases c; cases f) (auto simp: fst_max_zero ac_simps)
qed

lemma merge_origin_right_commute:
  "(merge_origin ((merge_origin a b)\<lparr>so_id := 0\<rparr>) c)\<lparr>so_id := 0\<rparr> =
   (merge_origin ((merge_origin a c)\<lparr>so_id := 0\<rparr>) b)\<lparr>so_id := 0\<rparr>"
  by (rule core_eqI) (simp add: core_merge_origin merge_core_right_commute [of _ "core b"])

lemma merge_origin_commute:
  "(merge_origin (a\<lparr>so_id := 0\<rparr>) b)\<lparr>so_id := 0\<rparr> = (merge_origin (b\<lparr>so_id := 0\<rparr>) a)\<lparr>so_id := 0\<rparr>"
  by (rule core_eqI) (simp add: core_merge_origin merge_core_commute)

lemma merge_entry_right_commute: "merge_entry (merge_entry m x) y = merge_entry (merge_entry m y) x"
proof (cases "fst x = fst y")
  case False
  then show ?thesis by (cases x; cases y) (auto simp: merge_entry_def Let_def fun_upd_twist)
next
  case True
  obtain k v where x: "x = (k, v)" by (rule prod.exhaust)
  with True obtain w where y: "y = (k, w)" by (cases y) auto
  show ?thesis
    unfolding x y
    by (cases "m k") (auto simp: merge_entry_def Let_def merge_origin_right_commute [of _ v] merge_origin_commute [of v])
qed

lemma foldl_merge_move: "foldl merge_entry (merge_entry m x) xs = merge_entry (foldl merge_entry m xs) x"
  by (induction xs arbitrary: m) (simp_all add: merge_entry_right_commute [of _ x])

lemma foldl_merge_perm: "mset xs = mset ys \<Longrightarrow> foldl merge_entry m xs = foldl merge_entry m ys"
proof (induction xs arbitrary: m ys)
  case (Cons x xs)
  then obtain us vs where ys: "ys = us @ x # vs" by (metis list.set_intros(1) mset_eq_setD split_list)
  with Cons.prems have "mset xs = mset (us @ vs)" by simp
  from Cons.IH [OF this, of "merge_entry m x"] show ?case
    by (simp add: ys foldl_merge_move)
qed simp

lemma foldl_concat: "foldl (foldl f) m xss = foldl f m (concat xss)"
  by (induction xss arbitrary: m) simp_all

text \<open>
  Claim C34.  The health the workers report together does not depend on the order in which their
  snapshots, or the entries inside a snapshot, arrive.
\<close>

theorem merge_snapshots_order:
  assumes "mset (concat ss) = mset (concat ss')"
  shows "merge_snapshots ss = merge_snapshots ss'"
  unfolding merge_snapshots_def foldl_concat by (rule foldl_merge_perm [OF assms])

theorem merge_snapshots_order_witness:
  "merge_snapshots [[((''w'', ''a''), \<lparr>so_id = 1, so_healthy = True, so_checked_at = 5, so_latency = 7, so_last_error = []\<rparr>)],
      [((''w'', ''a''), \<lparr>so_id = 4, so_healthy = False, so_checked_at = 3, so_latency = 9, so_last_error = ''refused''\<rparr>)]] =
   merge_snapshots [[((''w'', ''a''), \<lparr>so_id = 4, so_healthy = False, so_checked_at = 3, so_latency = 9, so_last_error = ''refused''\<rparr>)],
      [((''w'', ''a''), \<lparr>so_id = 1, so_healthy = True, so_checked_at = 5, so_latency = 7, so_last_error = []\<rparr>)]]"
  by (rule merge_snapshots_order) simp

text \<open>
  The merged report is conservative: an origin is reported healthy only if every worker
  that knows it says so.
\<close>

theorem merge_snapshots_conservative:
  "(case merge_snapshots ss k of None \<Rightarrow> True | Some v \<Rightarrow> so_healthy v) =
    list_all (\<lambda>(k', v). so_healthy v) (filter (\<lambda>(k', v). k' = k) (concat ss))"
proof -
  have step: "so_healthy (merge_origin a b) \<longleftrightarrow> so_healthy a \<and> so_healthy b" for a b
    by (auto simp: merge_origin_def Let_def)
  have entry: "merge_entry m (k', v) =
      m(k' \<mapsto> (case m k' of None \<Rightarrow> v | Some old \<Rightarrow> merge_origin old v)\<lparr>so_id := 0\<rparr>)" for m k' v
    by (simp add: merge_entry_def)
  have "(case foldl merge_entry m xs k of None \<Rightarrow> True | Some v \<Rightarrow> so_healthy v) \<longleftrightarrow>
      (case m k of None \<Rightarrow> True | Some v \<Rightarrow> so_healthy v) \<and>
      list_all (\<lambda>(k', v). so_healthy v) (filter (\<lambda>(k', v). k' = k) xs)" for m xs
  proof (induction xs arbitrary: m)
    case (Cons x xs)
    obtain k' v where x: "x = (k', v)" by (rule prod.exhaust)
    show ?case
      by (cases "k' = k"; cases "m k") (simp_all add: Cons x entry step)
  qed simp
  then show ?thesis by (simp add: merge_snapshots_def foldl_concat)
qed

subsection \<open>Health follows the streak of outcomes\<close>

text \<open>A membership that has seen a list of outcomes, the latest at the end.\<close>

definition run_outcomes :: "nat \<Rightarrow> bool list \<Rightarrow> health_entry \<Rightarrow> health_entry" where
  "run_outcomes threshold os e = foldl (\<lambda>e s. snd (record_outcome s threshold e)) e os"

definition streak_of :: "bool \<Rightarrow> bool list \<Rightarrow> nat" where
  "streak_of s os = length (takeWhile (\<lambda>x. x = s) (rev os))"

lemma streak_of_snoc [simp]: "streak_of s (os @ [x]) = (if x = s then Suc (streak_of s os) else 0)"
  by (simp add: streak_of_def)

lemma run_outcomes_snoc [simp]:
  "run_outcomes t (os @ [s]) e = snd (record_outcome s t (run_outcomes t os e))"
  by (simp add: run_outcomes_def)

lemma record_outcome_streak:
  "e_last_success (snd (record_outcome s t e)) = s"
  "e_streak (snd (record_outcome s t e)) =
     (if s = e_last_success e then if e_streak e = u32_max then e_streak e else e_streak e + 1 else 1)"
  "e_healthy (snd (record_outcome s t e)) =
     (if t \<le> e_streak (snd (record_outcome s t e)) then s else e_healthy e)"
  by (simp_all add: record_outcome_def Let_def)

lemma run_outcomes_streak:
  "e_streak (run_outcomes t os (new_entry i)) =
     min u32_max (streak_of (e_last_success (run_outcomes t os (new_entry i))) os) \<and>
   streak_of (\<not> e_last_success (run_outcomes t os (new_entry i))) os = 0"
proof (induction os rule: rev_induct)
  case Nil
  then show ?case by (simp add: run_outcomes_def new_entry_def streak_of_def)
next
  case (snoc s os)
  then show ?case
    by (cases "s = e_last_success (run_outcomes t os (new_entry i))") (auto simp: record_outcome_streak)
qed

text \<open>
  Claim C35.  An origin changes its health exactly when the last threshold outcomes agree: after an
  outcome it has the health of that outcome if so many trailing outcomes equal it, and keeps the
  previous health otherwise.  The saturating 32-bit counter does not disturb this for any threshold
  it can be compared with.
\<close>

theorem health_by_streak:
  assumes "t \<le> u32_max"
  shows "e_healthy (run_outcomes t (os @ [s]) (new_entry i)) =
    (if t \<le> streak_of s (os @ [s]) then s else e_healthy (run_outcomes t os (new_entry i)))"
  using run_outcomes_streak [of t os i] assms
  by (cases "s = e_last_success (run_outcomes t os (new_entry i))") (auto simp: record_outcome_streak)

theorem health_by_streak_witness:
  "e_healthy (run_outcomes 2 ([False, True, False] @ [False]) (new_entry 7)) = False"
  by (subst health_by_streak) (simp_all add: streak_of_def)

subsection \<open>Memberships over time\<close>

text \<open>
  The owner loop with what its clients hold: prepared memberships not yet activated (or swapped
  out), and probe targets.  A step is one call of an operation.
\<close>

record health_world =
  state :: health_state
  memberships :: "(origin_health_key \<rightharpoonup> addr) list"
  targets :: "addr option list"

inductive health_step :: "health_world \<Rightarrow> health_world \<Rightarrow> bool" where
  prepare: "prepare keys replaced (state w) = (st, nxt) \<Longrightarrow>
     health_step w (w\<lparr>state := st, memberships := nxt # memberships w\<rparr>)"
| activate: "nxt \<in> set (memberships w) \<Longrightarrow> activate nxt (state w) = (st, old) \<Longrightarrow>
     health_step w (w\<lparr>state := st, memberships := old # remove1 nxt (memberships w)\<rparr>)"
| record_request: "record_request k i success threshold (state w) = (changed, st) \<Longrightarrow>
     health_step w (w\<lparr>state := st\<rparr>)"
| probe_target: "health_step w (w\<lparr>targets := probe_target k (state w) # targets w\<rparr>)"
| record_probe: "target \<in> set (targets w) \<Longrightarrow>
     health_step w (w\<lparr>state := record_probe target healthy threshold latency error_text clock (state w)\<rparr>)"
| claim_due: "claim_due k interval now (state w) = (due, st) \<Longrightarrow> health_step w (w\<lparr>state := st\<rparr>)"

definition initial_world :: health_world where
  "initial_world = \<lparr>state = initial_state, memberships = [], targets = []\<rparr>"

text \<open>
  Every address that a membership or a target holds is allocated, the entry at an address has the
  identity the counter had when it was allocated, and no two origins share an entry.
\<close>

definition store_ok :: "health_state \<Rightarrow> bool" where
  "store_ok st \<longleftrightarrow> dom (store st) = {..< next_addr st} \<and> last_id st = next_addr st mod 2 ^ 64 \<and>
     (\<forall>a e. store st a = Some e \<longrightarrow> e_id e = (a + 1) mod 2 ^ 64)"

definition holds :: "(origin_health_key \<rightharpoonup> addr) set \<Rightarrow> origin_health_key \<Rightarrow> addr \<Rightarrow> bool" where
  "holds ms k a \<longleftrightarrow> (\<exists>m \<in> ms. m k = Some a)"

definition members_ok :: "nat \<Rightarrow> (origin_health_key \<rightharpoonup> addr) set \<Rightarrow> bool" where
  "members_ok n ms \<longleftrightarrow> (\<forall>k a. holds ms k a \<longrightarrow> a < n) \<and>
     (\<forall>k k' a. holds ms k a \<longrightarrow> holds ms k' a \<longrightarrow> k = k')"

definition health_ok :: "health_world \<Rightarrow> bool" where
  "health_ok w \<longleftrightarrow> store_ok (state w) \<and>
     members_ok (next_addr (state w)) (insert (entries (state w)) (set (memberships w))) \<and>
     (\<forall>a. Some a \<in> set (targets w) \<longrightarrow> a < next_addr (state w))"

lemma members_ok_mono:
  "members_ok n ms \<Longrightarrow> (\<And>k a. holds ms' k a \<Longrightarrow> holds ms k a) \<Longrightarrow> members_ok n ms'"
  unfolding members_ok_def by blast

lemma members_ok_subset: "members_ok n ms \<Longrightarrow> ms' \<subseteq> ms \<Longrightarrow> members_ok n ms'"
  by (erule members_ok_mono) (auto simp: holds_def)

lemma members_ok_empty: "members_ok n ms \<Longrightarrow> members_ok n (insert Map.empty ms)"
  by (erule members_ok_mono) (auto simp: holds_def)

lemma holds_upd: "holds (insert (m(k \<mapsto> a)) ms) j b \<Longrightarrow> holds (insert m ms) j b \<or> (j = k \<and> b = a)"
  by (auto simp: holds_def split: if_splits)

lemma members_ok_share:
  "members_ok n (insert m ms) \<Longrightarrow> holds ms k a \<Longrightarrow> members_ok n (insert (m(k \<mapsto> a)) ms)"
  by (erule members_ok_mono) (drule holds_upd, auto simp: holds_def)

lemma members_ok_fresh:
  assumes "members_ok n (insert m ms)"
  shows "members_ok (Suc n) (insert (m(k \<mapsto> n)) ms)"
proof -
  have old: "holds (insert m ms) j b \<Longrightarrow> b < n" for j b using assms unfolding members_ok_def by blast
  have same: "holds (insert m ms) j b \<Longrightarrow> holds (insert m ms) j' b \<Longrightarrow> j = j'" for j j' b
    using assms unfolding members_ok_def by blast
  show ?thesis
    unfolding members_ok_def
  proof (intro conjI allI impI)
    fix j b assume "holds (insert (m(k \<mapsto> n)) ms) j b"
    then show "b < Suc n" using old holds_upd less_SucI lessI by metis
  next
    fix j j' b assume "holds (insert (m(k \<mapsto> n)) ms) j b" "holds (insert (m(k \<mapsto> n)) ms) j' b"
    then show "j = j'" using old same holds_upd less_irrefl by metis
  qed
qed

lemma store_ok_entries [simp]: "store_ok (st\<lparr>entries := m\<rparr>) = store_ok st"
  by (simp add: store_ok_def)

lemma store_ok_update:
  assumes "store_ok st" "store st a = Some e" "e_id e' = e_id e"
  shows "store_ok (st\<lparr>store := (store st)(a \<mapsto> e')\<rparr>)"
  using assms by (auto simp: store_ok_def)

lemma record_outcome_id [simp]: "e_id (snd (record_outcome s t e)) = e_id e"
  by (simp add: record_outcome_def Let_def)

text \<open>The operations other than \<open>prepare\<close> and \<open>activate\<close> touch the entries only.\<close>

definition same_frame :: "health_state \<Rightarrow> health_state \<Rightarrow> bool" where
  "same_frame st st' \<longleftrightarrow> next_addr st' = next_addr st \<and> entries st' = entries st \<and> last_id st' = last_id st \<and>
     (store_ok st \<longrightarrow> store_ok st')"

lemma same_frame_refl [simp]: "same_frame st st"
  by (simp add: same_frame_def)

lemma same_frame_update:
  "store st a = Some e \<Longrightarrow> e_id e' = e_id e \<Longrightarrow> same_frame st (st\<lparr>store := (store st)(a \<mapsto> e')\<rparr>)"
  by (simp add: same_frame_def store_ok_update)

lemma record_request_frame: "same_frame st (snd (record_request k i s t st))"
  unfolding record_request_def
  by (auto simp: same_frame_update case_prod_beta split: option.split)

lemma record_probe_frame: "same_frame st (record_probe target s t l e c st)"
  unfolding record_probe_def
  by (auto simp: same_frame_update probe_entry_def split: option.split)

lemma claim_due_frame: "same_frame st (snd (claim_due k iv now st))"
  unfolding claim_due_def
  by (auto simp: same_frame_update split: option.split)

lemma same_frame_ok: "health_ok w \<Longrightarrow> same_frame (state w) st \<Longrightarrow> health_ok (w\<lparr>state := st\<rparr>)"
  by (simp add: health_ok_def same_frame_def)

text \<open>What \<open>prepare\<close> builds: the active entry where the origin is kept, a new one elsewhere.\<close>

lemma prepare_loop_ok:
  assumes "prepare_loop replaced ks st nxt = (st', nxt')" "store_ok st"
    "members_ok (next_addr st) (insert nxt (insert (entries st) ms))"
  shows "store_ok st' \<and> entries st' = entries st \<and> next_addr st \<le> next_addr st' \<and>
    members_ok (next_addr st') (insert nxt' (insert (entries st) ms))"
  using assms
proof (induction ks arbitrary: st nxt)
  case Nil
  then show ?case by simp
next
  case (Cons k ks)
  show ?case
  proof (cases "\<exists>a. entries st k = Some a \<and> k \<notin> replaced")
    case True
    then obtain a where a: "entries st k = Some a" "k \<notin> replaced" by blast
    have "members_ok (next_addr st) (insert (nxt(k \<mapsto> a)) (insert (entries st) ms))"
      using Cons.prems(3) by (rule members_ok_share) (auto simp: holds_def a(1))
    moreover have "prepare_loop replaced ks st (nxt(k \<mapsto> a)) = (st', nxt')"
      using Cons.prems(1) a by simp
    ultimately show ?thesis using Cons.IH Cons.prems(2) by blast
  next
    case False
    define st1 where "st1 = st\<lparr>last_id := bump_id (last_id st),
      store := (store st)(next_addr st \<mapsto> new_entry (bump_id (last_id st))), next_addr := next_addr st + 1\<rparr>"
    have run: "prepare_loop replaced ks st1 (nxt(k \<mapsto> next_addr st)) = (st', nxt')"
      using Cons.prems(1) False
      by (cases "entries st k"; cases "k \<in> replaced") (auto simp: st1_def Let_def)
    have ok: "store_ok st1"
      using Cons.prems(2) by (auto simp: store_ok_def st1_def bump_id_def new_entry_def mod_simps)
    have "members_ok (next_addr st1) (insert (nxt(k \<mapsto> next_addr st)) (insert (entries st1) ms))"
      using members_ok_fresh [OF Cons.prems(3)] by (simp add: st1_def)
    from Cons.IH [OF run ok this] show ?thesis by (simp add: st1_def)
  qed
qed

lemma health_step_ok: "health_step w w' \<Longrightarrow> health_ok w \<Longrightarrow> health_ok w'"
proof (induction rule: health_step.induct)
  case (prepare keys replaced w st nxt)
  have "members_ok (next_addr (state w))
      (insert Map.empty (insert (entries (state w)) (set (memberships w))))"
    using prepare.prems by (simp add: health_ok_def members_ok_empty)
  from prepare_loop_ok [OF prepare.hyps [unfolded prepare_def] _ this] prepare.prems
  show ?case by (auto simp: health_ok_def insert_commute intro: less_le_trans)
next
  case (activate nxt w st old)
  have "insert nxt (insert (entries (state w)) (set (remove1 nxt (memberships w))))
      \<subseteq> insert (entries (state w)) (set (memberships w))"
    using activate.hyps(1) by (auto dest: in_set_remove1 notin_set_remove1)
  with activate show ?case
    by (auto simp: health_ok_def activate_def elim!: members_ok_subset)
next
  case (record_request k i s t w changed st)
  with record_request_frame [of "state w" k i s t] show ?case by (simp add: same_frame_ok)
next
  case (probe_target w k)
  then have "a < next_addr (state w)" if "entries (state w) k = Some a" for a
    using that unfolding health_ok_def members_ok_def holds_def by blast
  with probe_target show ?case by (auto simp: health_ok_def probe_target_def dest: sym)
next
  case (record_probe target w h t l e c)
  then show ?case by (intro same_frame_ok record_probe_frame)
next
  case (claim_due k iv now w due st)
  with claim_due_frame [of "state w" k iv now] show ?case by (simp add: same_frame_ok)
qed

lemma initial_world_ok: "health_ok initial_world"
  by (simp add: health_ok_def initial_world_def initial_state_def store_ok_def members_ok_def holds_def)

interpretation health_machine: state_machine "\<lambda>w. w = initial_world" health_step health_ok
  using initial_world_ok health_step_ok by unfold_locales auto

lemma reachable_health_ok: "health_step\<^sup>*\<^sup>* initial_world w \<Longrightarrow> health_ok w"
  using health_machine.reachable_invariant by blast

lemma store_ok_id_inject:
  assumes "store_ok st" "next_addr st < 2 ^ 64" "store st a = Some e" "store st b = Some f" "e_id e = e_id f"
  shows "a = b"
proof -
  have lt: "a < next_addr st" "b < next_addr st" using assms(1,3,4) by (auto simp: store_ok_def)
  have "(a + 1) mod 2 ^ 64 = (b + 1) mod 2 ^ 64" using assms by (auto simp: store_ok_def)
  with lt assms(2) show ?thesis by simp
qed

text \<open>
  Claim C36.  In every reachable state each entry belongs to one origin and its identity names it:
  two origins of the active membership never share an entry, and, as long as fewer than 2 to the 64
  entries were ever made, never the identity either.
\<close>

theorem membership_ids_distinct:
  assumes "health_step\<^sup>*\<^sup>* initial_world w" "next_addr (state w) < 2 ^ 64"
  shows "inj_on (\<lambda>k. map_option e_id (entry_at (state w) k)) (dom (entry_at (state w)))"
proof (rule inj_onI)
  fix k k'
  assume "k \<in> dom (entry_at (state w))" "k' \<in> dom (entry_at (state w))"
    and same: "map_option e_id (entry_at (state w) k) = map_option e_id (entry_at (state w) k')"
  then obtain e e' where e: "entry_at (state w) k = Some e" "entry_at (state w) k' = Some e'" by blast
  from reachable_health_ok [OF assms(1)] have ok: "store_ok (state w)"
    "members_ok (next_addr (state w)) (insert (entries (state w)) (set (memberships w)))"
    by (auto simp: health_ok_def)
  obtain a b where a: "entries (state w) k = Some a" "store (state w) a = Some e"
    and b: "entries (state w) k' = Some b" "store (state w) b = Some e'"
    using e by (auto simp: entry_at_def Option.bind_eq_Some_conv)
  have "e_id e = e_id e'" using e same by simp
  from store_ok_id_inject [OF ok(1) assms(2) a(2) b(2) this] have "a = b" .
  with a b ok(2) show "k = k'" unfolding members_ok_def holds_def by blast
qed

text \<open>A world with two origins, used for the examples below.\<close>

definition two_origins :: health_world where
  "two_origins = \<lparr>state = \<lparr>store = [0 \<mapsto> new_entry 1, 1 \<mapsto> new_entry 2], next_addr = 2,
      entries = [(''w'', ''a'') \<mapsto> 0, (''w'', ''b'') \<mapsto> 1], last_id = 2\<rparr>,
     memberships = [Map.empty], targets = []\<rparr>"

lemma two_origins_reachable: "health_step\<^sup>*\<^sup>* initial_world two_origins"
proof -
  let ?st = "\<lparr>store = [0 \<mapsto> new_entry 1, 1 \<mapsto> new_entry 2], next_addr = 2, entries = Map.empty, last_id = 2\<rparr>"
  let ?m = "[(''w'', ''a'') \<mapsto> 0, (''w'', ''b'') \<mapsto> 1]"
  have ids: "bump_id 0 = Suc 0" "bump_id (Suc 0) = Suc (Suc 0)" by (simp_all add: bump_id_def)
  have "prepare [(''w'', ''a''), (''w'', ''b'')] {} (state initial_world) = (?st, ?m)"
    by (simp add: prepare_def initial_world_def initial_state_def ids Let_def numeral_2_eq_2)
  then have one: "health_step initial_world (initial_world\<lparr>state := ?st, memberships := [?m]\<rparr>)"
    using health_step.prepare [of _ _ initial_world ?st ?m] by (simp add: initial_world_def)
  have "health_step (initial_world\<lparr>state := ?st, memberships := [?m]\<rparr>) two_origins"
    using health_step.activate [of ?m "initial_world\<lparr>state := ?st, memberships := [?m]\<rparr>"
        "?st\<lparr>entries := ?m\<rparr>" Map.empty]
    by (simp add: initial_world_def two_origins_def activate_def)
  with one show ?thesis by (rule converse_rtranclp_into_rtranclp [OF _ r_into_rtranclp])
qed

theorem membership_ids_distinct_witness:
  "inj_on (\<lambda>k. map_option e_id (entry_at (state two_origins) k)) (dom (entry_at (state two_origins)))"
  by (rule membership_ids_distinct [OF two_origins_reachable]) (simp add: two_origins_def)

lemma prepare_loop_lookup:
  assumes "prepare_loop replaced ks st nxt = (st', nxt')" "store_ok st"
  shows "(k \<notin> set ks \<longrightarrow> nxt' k = nxt k) \<and>
    (k \<in> set ks \<longrightarrow> (if k \<in> replaced \<or> entries st k = None
       then \<exists>a \<ge> next_addr st. nxt' k = Some a \<and> store st' a = Some (new_entry ((a + 1) mod 2 ^ 64))
       else nxt' k = entries st k)) \<and>
    (\<forall>a < next_addr st. store st' a = store st a)"
  using assms
proof (induction ks arbitrary: st nxt)
  case Nil
  then show ?case by simp
next
  case (Cons j ks)
  show ?case
  proof (cases "\<exists>a. entries st j = Some a \<and> j \<notin> replaced")
    case True
    then obtain a where a: "entries st j = Some a" "j \<notin> replaced" by blast
    with Cons.prems have "prepare_loop replaced ks st (nxt(j \<mapsto> a)) = (st', nxt')" by simp
    from Cons.IH [OF this Cons.prems(2)] a show ?thesis by auto
  next
    case False
    define st1 where "st1 = st\<lparr>last_id := bump_id (last_id st),
      store := (store st)(next_addr st \<mapsto> new_entry (bump_id (last_id st))), next_addr := next_addr st + 1\<rparr>"
    have run: "prepare_loop replaced ks st1 (nxt(j \<mapsto> next_addr st)) = (st', nxt')"
      using Cons.prems(1) False
      by (cases "entries st j"; cases "j \<in> replaced") (auto simp: st1_def Let_def)
    have ok: "store_ok st1"
      using Cons.prems(2) by (auto simp: store_ok_def st1_def bump_id_def new_entry_def mod_simps)
    have new: "store st1 (next_addr st) = Some (new_entry ((next_addr st + 1) mod 2 ^ 64))"
      using Cons.prems(2) by (simp add: st1_def store_ok_def bump_id_def mod_simps)
    have st1: "entries st1 = entries st" "next_addr st1 = next_addr st + 1"
      "\<And>a. a < next_addr st \<Longrightarrow> store st1 a = store st a" by (auto simp: st1_def)
    note IH = Cons.IH [OF run ok, unfolded st1]
    have old: "\<forall>a < next_addr st. store st' a = store st a" using IH st1(3) by auto
    have made: "store st' (next_addr st) = Some (new_entry ((next_addr st + 1) mod 2 ^ 64))"
      using IH new by simp
    show ?thesis
    proof (cases "k \<in> set ks")
      case True
      with IH old show ?thesis by (auto intro: Suc_leD)
    next
      case notin: False
      with IH old made False show ?thesis by auto
    qed
  qed
qed

text \<open>
  Claim C37.  Activating a prepared membership: origins that are kept show the health they have at
  that moment, outcomes recorded while the configuration was pending included; new and replaced
  origins start as healthy and unprobed; all others are gone.
\<close>

theorem activate_snapshot:
  assumes "health_step\<^sup>*\<^sup>* initial_world w" "prepare keys replaced (state w) = (st', nxt)"
    and "entries st'' = entries (state w)"
  shows "(k \<notin> set keys \<longrightarrow> snapshot (fst (activate nxt st'')) k = None) \<and>
    (k \<in> set keys \<and> k \<notin> replaced \<and> k \<in> dom (entries (state w)) \<longrightarrow>
      snapshot (fst (activate nxt st'')) k = snapshot st'' k) \<and>
    (k \<in> set keys \<and> (k \<in> replaced \<or> k \<notin> dom (entries (state w))) \<longrightarrow>
      (\<exists>i. snapshot (fst (activate nxt st')) k =
        Some \<lparr>so_id = i, so_healthy = True, so_checked_at = 0, so_latency = 0, so_last_error = []\<rparr>))"
proof -
  from reachable_health_ok [OF assms(1)] have "store_ok (state w)" by (simp add: health_ok_def)
  from prepare_loop_lookup [OF assms(2) [unfolded prepare_def] this, of k] assms(3) show ?thesis
    by (auto simp: snapshot_def entry_at_def activate_def published_def new_entry_def split: if_splits)
qed

theorem activate_snapshot_witness:
  "let (st', nxt) = prepare [(''w'', ''a''), (''w'', ''c'')] {} (state two_origins) in
     snapshot (fst (activate nxt st')) (''w'', ''a'') = snapshot st' (''w'', ''a'') \<and>
     snapshot (fst (activate nxt st')) (''w'', ''b'') = None"
proof -
  obtain st' nxt where p: "prepare [(''w'', ''a''), (''w'', ''c'')] {} (state two_origins) = (st', nxt)"
    by (rule prod.exhaust)
  then have e: "entries st' = entries (state two_origins)"
    by (auto simp: prepare_def two_origins_def Let_def)
  show ?thesis
    unfolding p using activate_snapshot [OF two_origins_reachable p e] by (simp add: two_origins_def)
qed

text \<open>
  Claim C38.  Outcomes of a replaced origin are discarded: once a configuration that replaces the
  origin is active, a request outcome for the old membership changes nothing.
\<close>

theorem stale_outcome_ignored:
  assumes "health_step\<^sup>*\<^sup>* initial_world w" "prepare keys replaced (state w) = (st', nxt)"
    and "next_addr st' < 2 ^ 64" "entry_at (state w) k = Some e" "k \<in> replaced"
  shows "record_request k (e_id e) success threshold (fst (activate nxt st')) = (False, fst (activate nxt st'))"
proof (cases "k \<in> set keys")
  case False
  from reachable_health_ok [OF assms(1)] have "store_ok (state w)" by (simp add: health_ok_def)
  from prepare_loop_lookup [OF assms(2) [unfolded prepare_def] this, of k] False
  show ?thesis by (simp add: record_request_def activate_def)
next
  case True
  from reachable_health_ok [OF assms(1)] have ok: "store_ok (state w)"
    "members_ok (next_addr (state w)) (insert (entries (state w)) (set (memberships w)))"
    by (simp_all add: health_ok_def)
  have "members_ok (next_addr (state w)) (insert Map.empty (insert (entries (state w)) {}))"
    by (rule members_ok_empty) (rule members_ok_subset [OF ok(2)], simp)
  from prepare_loop_ok [OF assms(2) [unfolded prepare_def] ok(1) this] have ok': "store_ok st'" by simp
  obtain a where a: "entries (state w) k = Some a" "store (state w) a = Some e" "a < next_addr (state w)"
    using assms(4) ok(1) by (auto simp: entry_at_def Option.bind_eq_Some_conv store_ok_def)
  note look = prepare_loop_lookup [OF assms(2) [unfolded prepare_def] ok(1), of k]
  from look True assms(5) obtain b where b: "nxt k = Some b" "b \<ge> next_addr (state w)"
    "store st' b = Some (new_entry ((b + 1) mod 2 ^ 64))" by auto
  from look a have "store st' a = Some e" by simp
  with store_ok_id_inject [OF ok' assms(3) _ b(3)] a(3) b(2)
  have "e_id (new_entry ((b + 1) mod 2 ^ 64)) \<noteq> e_id e" by (metis leD)
  with b show ?thesis by (simp add: record_request_def activate_def)
qed

theorem stale_outcome_ignored_witness:
  "let (st', nxt) = prepare [(''w'', ''a'')] {(''w'', ''a'')} (state two_origins) in
     record_request (''w'', ''a'') 1 False 1 (fst (activate nxt st')) = (False, fst (activate nxt st'))"
proof -
  obtain st' nxt where p: "prepare [(''w'', ''a'')] {(''w'', ''a'')} (state two_origins) = (st', nxt)"
    by (rule prod.exhaust)
  then have "next_addr st' < 2 ^ 64"
    by (auto simp: prepare_def two_origins_def Let_def)
  then show ?thesis
    unfolding p using stale_outcome_ignored [OF two_origins_reachable p, of "(''w'', ''a'')" "new_entry 1"]
    by (simp add: two_origins_def entry_at_def new_entry_def)
qed

end
