(* ===== verification/Origin_Selection.thy ===== *)
theory Origin_Selection
  imports Origin_Health Website_Proto
begin

text \<open>
  \<open>src/node/data/origin_selection.h\<close>: the order in which a request tries the origins of a website.
  The plan lists the enabled origins of a group by role with cumulative weights; the cursor starts
  each role at a weighted pivot and enumerates healthy origins first.
\<close>

subsection \<open>The plan\<close>

record candidate =
  c_origin :: Origin
  c_weight_end :: nat
  c_health_key :: origin_health_key

type_synonym origin_plan = "candidate list \<times> candidate list"

definition role_index :: "Origin \<Rightarrow> nat" where
  "role_index og = (if o_role og = ''primary'' then 0 else if o_role og = ''backup'' then 1 else 2)"

definition selected :: "string \<Rightarrow> string list \<Rightarrow> Origin \<Rightarrow> bool" where
  "selected grp ids og =
     (if ids = [] then group_or_default (o_group og) = group_or_default grp else o_id og \<in> set ids)"

definition add_candidate :: "Website \<Rightarrow> Origin \<Rightarrow> candidate list \<Rightarrow> candidate list" where
  "add_candidate site og compiled =
     (let cumulative = (if compiled = [] then 0 else c_weight_end (last compiled)) in
      compiled @ [\<lparr>c_origin = og, c_weight_end = (cumulative + o_weight og) mod 2 ^ 64,
        c_health_key = (w_id site, o_id og)\<rparr>])"

fun plan_loop :: "Website \<Rightarrow> string \<Rightarrow> string list \<Rightarrow> Origin list \<Rightarrow> origin_plan \<Rightarrow> origin_plan" where
  "plan_loop site grp ids [] roles = roles"
| "plan_loop site grp ids (og # ogs) roles =
     (if \<not> o_enabled og \<or> o_weight og = 0 then plan_loop site grp ids ogs roles
      else if role_index og = 2 then plan_loop site grp ids ogs roles
      else if \<not> selected grp ids og then plan_loop site grp ids ogs roles
      else plan_loop site grp ids ogs
        (if role_index og = 0 then (add_candidate site og (fst roles), snd roles)
         else (fst roles, add_candidate site og (snd roles))))"

definition origin_plan :: "Website \<Rightarrow> string \<Rightarrow> string list \<Rightarrow> origin_plan" where
  "origin_plan site grp ids = plan_loop site grp ids (w_origins site) ([], [])"

definition plan_empty :: "origin_plan \<Rightarrow> bool" where
  "plan_empty plan \<longleftrightarrow> fst plan = [] \<and> snd plan = []"

definition role_at :: "origin_plan \<Rightarrow> nat \<Rightarrow> candidate list" where
  "role_at plan r = (if r = 0 then fst plan else snd plan)"

subsection \<open>The cursor\<close>

record origin_cursor =
  cu_plan :: "origin_plan option"
  cu_health :: "origin_map option"
  cu_pivots :: "nat \<times> nat"
  cu_role :: nat
  cu_index :: nat
  cu_remaining :: nat
  cu_unhealthy_pass :: bool
  cu_saw_unhealthy :: bool

text \<open>\<open>std::upper_bound\<close> on the cumulative weights: the first candidate whose end is above the weight.\<close>

definition pivot :: "candidate list \<Rightarrow> nat \<Rightarrow> nat" where
  "pivot candidates sequence =
     (if candidates = [] then 0
      else let weight = sequence mod c_weight_end (last candidates) in
        length (takeWhile (\<lambda>c. c_weight_end c \<le> weight) candidates))"

definition pivot_at :: "origin_cursor \<Rightarrow> nat" where
  "pivot_at c = (if cu_role c = 0 then fst (cu_pivots c) else snd (cu_pivots c))"

definition reset_role :: "origin_plan \<Rightarrow> origin_cursor \<Rightarrow> origin_cursor" where
  "reset_role plan c = c\<lparr>cu_index := pivot_at c, cu_remaining := length (role_at plan (cu_role c))\<rparr>"

definition make_cursor :: "origin_plan \<Rightarrow> nat \<Rightarrow> origin_map option \<Rightarrow> origin_cursor" where
  "make_cursor plan sequence health = reset_role plan
     \<lparr>cu_plan = Some plan, cu_health = health,
      cu_pivots = (pivot (fst plan) sequence, pivot (snd plan) sequence), cu_role = 0, cu_index = 0,
      cu_remaining = 0, cu_unhealthy_pass = False, cu_saw_unhealthy = False\<rparr>"

definition is_healthy :: "origin_map option \<Rightarrow> candidate \<Rightarrow> bool" where
  "is_healthy health c = (case health of None \<Rightarrow> True | Some m \<Rightarrow> snapshot_healthy m (c_health_key c))"

text \<open>
  One round of the loop of \<open>next\<close>: it returns (\<open>Inl\<close>) or continues (\<open>Inr\<close>).
\<close>

definition next_round :: "origin_cursor \<Rightarrow> (Origin option \<times> origin_cursor) + origin_cursor" where
  "next_round c =
     (case cu_plan c of
        None \<Rightarrow> Inl (None, c)
      | Some plan \<Rightarrow>
          if cu_remaining c = 0 then
            (let c = c\<lparr>cu_role := cu_role c + 1\<rparr> in
             if cu_role c = 2 then
               (if cu_unhealthy_pass c \<or> \<not> cu_saw_unhealthy c then Inl (None, c\<lparr>cu_plan := None\<rparr>)
                else Inr (reset_role plan (c\<lparr>cu_unhealthy_pass := True, cu_role := 0\<rparr>)))
             else Inr (reset_role plan c))
          else
            (let candidates = role_at plan (cu_role c); cand = candidates ! cu_index c;
               c = c\<lparr>cu_remaining := cu_remaining c - 1,
                     cu_index := (if cu_index c + 1 = length candidates then 0 else cu_index c + 1)\<rparr>;
               healthy = is_healthy (cu_health c) cand;
               c = (if \<not> healthy then c\<lparr>cu_saw_unhealthy := True\<rparr> else c) in
             if healthy \<noteq> cu_unhealthy_pass c then Inl (Some (c_origin cand), c) else Inr c))"

partial_function (option) cursor_next :: "origin_cursor \<Rightarrow> (Origin option \<times> origin_cursor) option" where
  "cursor_next c = (case next_round c of Inl r \<Rightarrow> Some r | Inr c' \<Rightarrow> cursor_next c')"

declare cursor_next.simps [code]

text \<open>The answers of so many calls in a row; \<open>None\<close> when a call does not return.\<close>

primrec cursor_calls :: "nat \<Rightarrow> origin_cursor \<Rightarrow> Origin option list option" where
  "cursor_calls 0 c = Some []"
| "cursor_calls (Suc n) c =
     (case cursor_next c of None \<Rightarrow> None
      | Some (r, c') \<Rightarrow> map_option ((#) r) (cursor_calls n c'))"

subsection \<open>What is still to come\<close>

definition tour :: "origin_cursor \<Rightarrow> origin_plan \<Rightarrow> candidate list" where
  "tour c plan = rotate (fst (cu_pivots c)) (fst plan) @ rotate (snd (cu_pivots c)) (snd plan)"

definition todo :: "origin_cursor \<Rightarrow> origin_plan \<Rightarrow> candidate list" where
  "todo c plan = take (cu_remaining c) (rotate (cu_index c) (role_at plan (cu_role c))) @
     (if cu_role c = 0 then rotate (snd (cu_pivots c)) (snd plan) else [])"

definition upcoming :: "origin_cursor \<Rightarrow> candidate list" where
  "upcoming c = (case cu_plan c of None \<Rightarrow> [] | Some plan \<Rightarrow>
     let bad = (\<lambda>x. \<not> is_healthy (cu_health c) x) in
     if cu_unhealthy_pass c then filter bad (todo c plan)
     else filter (is_healthy (cu_health c)) (todo c plan) @ filter bad (tour c plan))"

definition cursor_ok :: "origin_cursor \<Rightarrow> bool" where
  "cursor_ok c = (case cu_plan c of None \<Rightarrow> True | Some plan \<Rightarrow>
     cu_role c < 2 \<and> cu_remaining c \<le> length (role_at plan (cu_role c)) \<and>
     (role_at plan (cu_role c) \<noteq> [] \<longrightarrow> cu_index c < length (role_at plan (cu_role c))) \<and>
     (fst plan \<noteq> [] \<longrightarrow> fst (cu_pivots c) < length (fst plan)) \<and>
     (snd plan \<noteq> [] \<longrightarrow> snd (cu_pivots c) < length (snd plan)) \<and>
     (cu_unhealthy_pass c \<or> cu_saw_unhealthy c \<or>
       filter (\<lambda>x. \<not> is_healthy (cu_health c) x) (tour c plan) =
       filter (\<lambda>x. \<not> is_healthy (cu_health c) x) (todo c plan)))"

definition work :: "origin_cursor \<Rightarrow> nat" where
  "work c = (case cu_plan c of None \<Rightarrow> 0 | Some plan \<Rightarrow>
     (if cu_unhealthy_pass c then 0 else 3 + length (tour c plan)) + length (todo c plan) + (2 - cu_role c))"

lemma take_rotate_step:
  assumes "i < length xs" "r < length xs"
  shows "take (Suc r) (rotate i xs) =
    xs ! i # take r (rotate (if i + 1 = length xs then 0 else i + 1) xs)"
proof -
  have mod: "rotate (if i + 1 = length xs then 0 else i + 1) xs = rotate1 (rotate i xs)"
  proof -
    have "(if i + 1 = length xs then 0 else i + 1) = Suc i mod length xs"
      using assms(1) by (simp add: mod_Suc)
    then show ?thesis by (simp only: rotate_conv_mod [of "Suc i" xs, symmetric] rotate_Suc)
  qed
  obtain y ys where ys: "rotate i xs = y # ys" using assms by (cases "rotate i xs") auto
  have "y = xs ! i" using ys hd_rotate_conv_nth [of xs i] assms by (cases "xs = []") auto
  moreover have "r \<le> length ys" using arg_cong [OF ys, of length] assms(2) by simp
  ultimately show ?thesis unfolding mod ys by simp
qed

lemma visit_round:
  assumes ok: "cursor_ok c" and plan: "cu_plan c = Some plan" and rem: "cu_remaining c \<noteq> 0"
  defines "cand \<equiv> role_at plan (cu_role c) ! cu_index c"
    and "c' \<equiv> c\<lparr>cu_remaining := cu_remaining c - 1,
        cu_index := (if cu_index c + 1 = length (role_at plan (cu_role c)) then 0 else cu_index c + 1),
        cu_saw_unhealthy := cu_saw_unhealthy c \<or>
          \<not> is_healthy (cu_health c) (role_at plan (cu_role c) ! cu_index c)\<rparr>"
  shows "next_round c = (if is_healthy (cu_health c) cand \<noteq> cu_unhealthy_pass c
      then Inl (Some (c_origin cand), c') else Inr c')"
    and "todo c plan = cand # todo c' plan" and "tour c' plan = tour c plan" and "cursor_ok c'"
proof -
  show round: "next_round c = (if is_healthy (cu_health c) cand \<noteq> cu_unhealthy_pass c
      then Inl (Some (c_origin cand), c') else Inr c')"
    using rem by (simp add: next_round_def plan Let_def cand_def c'_def)
  have idx: "cu_index c < length (role_at plan (cu_role c))" "cu_remaining c - 1 < length (role_at plan (cu_role c))"
    using ok plan rem by (auto simp: cursor_ok_def)
  show todo: "todo c plan = cand # todo c' plan"
    using take_rotate_step [OF idx] rem by (simp add: todo_def c'_def cand_def)
  show tour: "tour c' plan = tour c plan" by (simp add: tour_def c'_def)
  have fields: "cu_plan c' = Some plan" "cu_role c' = cu_role c" "cu_pivots c' = cu_pivots c"
    "cu_health c' = cu_health c" "cu_unhealthy_pass c' = cu_unhealthy_pass c"
    "cu_remaining c' = cu_remaining c - 1"
    "cu_saw_unhealthy c' \<longleftrightarrow> cu_saw_unhealthy c \<or> \<not> is_healthy (cu_health c) cand"
    using plan by (simp_all add: c'_def cand_def)
  have "cu_index c' < length (role_at plan (cu_role c))" using idx by (auto simp: c'_def)
  with ok plan show "cursor_ok c'"
    unfolding cursor_ok_def fields option.case tour by (auto simp: todo)
qed

lemma todo_start [simp]: "cu_role c = 0 \<Longrightarrow> todo (reset_role plan c) plan = tour c plan"
  by (simp add: todo_def tour_def reset_role_def pivot_at_def role_at_def)

lemma todo_backup [simp]: "cu_role c = 1 \<Longrightarrow> todo (reset_role plan c) plan = rotate (snd (cu_pivots c)) (snd plan)"
  by (simp add: todo_def reset_role_def pivot_at_def role_at_def)

lemma reset_role_fields [simp]:
  "cu_plan (reset_role plan c) = cu_plan c" "cu_health (reset_role plan c) = cu_health c"
  "cu_pivots (reset_role plan c) = cu_pivots c" "cu_role (reset_role plan c) = cu_role c"
  "cu_unhealthy_pass (reset_role plan c) = cu_unhealthy_pass c"
  "cu_saw_unhealthy (reset_role plan c) = cu_saw_unhealthy c"
  "cu_index (reset_role plan c) = pivot_at c"
  "cu_remaining (reset_role plan c) = length (role_at plan (cu_role c))"
  "tour (reset_role plan c) plan = tour c plan"
  by (simp_all add: reset_role_def tour_def)

lemma tour_fields [simp]:
  "tour (c\<lparr>cu_role := r\<rparr>) plan = tour c plan" "tour (c\<lparr>cu_unhealthy_pass := b\<rparr>) plan = tour c plan"
  by (simp_all add: tour_def)

definition round_ok :: "origin_cursor \<Rightarrow> (Origin option \<times> origin_cursor) + origin_cursor \<Rightarrow> bool" where
  "round_ok c r = (case r of
      Inl (answer, c') \<Rightarrow> cursor_ok c' \<and> (case answer of
          None \<Rightarrow> upcoming c = [] \<and> upcoming c' = []
        | Some og \<Rightarrow> map c_origin (upcoming c) = og # map c_origin (upcoming c'))
    | Inr c' \<Rightarrow> cursor_ok c' \<and> upcoming c' = upcoming c \<and> work c' < work c)"

lemma next_round_ok: "cursor_ok c \<Longrightarrow> round_ok c (next_round c)"
proof -
  assume ok: "cursor_ok c"
  consider (none) "cu_plan c = None" | (visit) plan where "cu_plan c = Some plan" "cu_remaining c \<noteq> 0"
    | (advance) plan where "cu_plan c = Some plan" "cu_remaining c = 0" by blast
  then show ?thesis
  proof cases
    case none
    with ok show ?thesis by (simp add: round_ok_def next_round_def upcoming_def)
  next
    case (visit plan)
    note v = visit_round [OF ok visit]
    show ?thesis
      unfolding v(1) using v(2-4) visit
      by (auto simp: round_ok_def upcoming_def work_def Let_def)
  next
    case (advance plan)
    show ?thesis
    proof (cases "cu_role c = 0")
      case True
      with ok advance show ?thesis
        by (auto simp: round_ok_def next_round_def cursor_ok_def upcoming_def work_def Let_def todo_def [of c]
          role_at_def pivot_at_def)
    next
      case False
      with ok advance have role: "cu_role c = 1" by (auto simp: cursor_ok_def)
      with ok advance show ?thesis
        by (auto simp: round_ok_def next_round_def cursor_ok_def upcoming_def work_def Let_def todo_def [of c]
          role_at_def pivot_at_def)
    qed
  qed
qed

lemma cursor_next_ok:
  "cursor_ok c \<Longrightarrow> \<exists>answer c'. cursor_next c = Some (answer, c') \<and> round_ok c (Inl (answer, c'))"
proof (induction "work c" arbitrary: c rule: less_induct)
  case less
  note ok = next_round_ok [OF less.prems]
  show ?case
  proof (cases "next_round c")
    case (Inl r)
    with ok show ?thesis by (cases r) (simp add: cursor_next.simps [of c])
  next
    case (Inr c')
    with ok have c': "cursor_ok c'" "upcoming c' = upcoming c" "work c' < work c" by (simp_all add: round_ok_def)
    from less.hyps [OF c'(3) c'(1)] obtain answer c2 where
      "cursor_next c' = Some (answer, c2)" "round_ok c' (Inl (answer, c2))" by blast
    with Inr c' show ?thesis by (cases answer) (auto simp: cursor_next.simps [of c] round_ok_def)
  qed
qed

definition answers :: "nat \<Rightarrow> Origin list \<Rightarrow> Origin option list" where
  "answers n es = map (\<lambda>i. if i < length es then Some (es ! i) else None) [0..<n]"

lemma answers_Suc [simp]:
  "answers (Suc n) [] = None # answers n []" "answers (Suc n) (e # es) = Some e # answers n es"
  by (simp_all add: answers_def upt_rec [of 0] map_Suc_upt [symmetric] comp_def del: upt_Suc)

lemma answers_0 [simp]: "answers 0 es = []"
  by (simp add: answers_def)

lemma cursor_calls_ok: "cursor_ok c \<Longrightarrow> cursor_calls n c = Some (answers n (map c_origin (upcoming c)))"
proof (induction n arbitrary: c)
  case (Suc n)
  from cursor_next_ok [OF Suc.prems] obtain answer c' where
    r: "cursor_next c = Some (answer, c')" "round_ok c (Inl (answer, c'))" by blast
  then have "cursor_ok c'" by (simp add: round_ok_def)
  with Suc.IH r show ?case by (cases answer) (simp_all add: round_ok_def)
qed simp

subsection \<open>The plan and the pivots\<close>

definition wsum :: "candidate list \<Rightarrow> nat" where
  "wsum cs = sum_list (map (\<lambda>c. o_weight (c_origin c)) cs)"

lemma wsum_simps [simp]: "wsum [] = 0" "wsum (c # cs) = o_weight (c_origin c) + wsum cs"
  "wsum (cs @ ds) = wsum cs + wsum ds"
  by (simp_all add: wsum_def)

lemma wsum_take_mono: "i \<le> j \<Longrightarrow> wsum (take i cs) \<le> wsum (take j cs)"
  by (metis le_add1 le_add_diff_inverse take_add wsum_simps(3))

definition role_ok :: "candidate list \<Rightarrow> bool" where
  "role_ok cs \<longleftrightarrow> (\<forall>i < length cs. c_weight_end (cs ! i) = wsum (take (Suc i) cs)) \<and>
     (\<forall>c \<in> set cs. 0 < o_weight (c_origin c) \<and> o_weight (c_origin c) < 2 ^ 32)"

lemma role_ok_last: "role_ok cs \<Longrightarrow> cs \<noteq> [] \<Longrightarrow> c_weight_end (last cs) = wsum cs"
  by (simp add: role_ok_def last_conv_nth)

lemma role_ok_wsum: "role_ok cs \<Longrightarrow> wsum cs \<le> length cs * 2 ^ 32"
proof -
  assume ok: "role_ok cs"
  have "wsum cs \<le> length cs * 2 ^ 32" if "\<forall>c \<in> set cs. o_weight (c_origin c) < 2 ^ 32"
    using that by (induction cs) auto
  then show ?thesis using ok by (simp add: role_ok_def)
qed

lemma add_candidate_ok:
  assumes "role_ok cs" "length cs < 2 ^ 31" "o_weight og \<noteq> 0" "o_weight og < 2 ^ 32"
  shows "role_ok (add_candidate site og cs)"
proof -
  have "wsum cs \<le> 2 ^ 31 * 2 ^ 32"
    using role_ok_wsum [OF assms(1)] mult_right_mono [of "length cs" "2 ^ 31" "2 ^ 32"] assms(2) by linarith
  then have "(wsum cs + o_weight og) mod 2 ^ 64 = wsum cs + o_weight og"
    using assms(4) by simp
  moreover have "(if cs = [] then 0 else c_weight_end (last cs)) = wsum cs"
    using role_ok_last [OF assms(1)] by simp
  ultimately show ?thesis
    using assms unfolding role_ok_def add_candidate_def Let_def
    by (auto simp: nth_append less_Suc_eq)
qed

definition eligible :: "string \<Rightarrow> string list \<Rightarrow> string \<Rightarrow> Origin \<Rightarrow> bool" where
  "eligible grp ids role og \<longleftrightarrow> o_enabled og \<and> o_weight og \<noteq> 0 \<and> o_role og = role \<and> selected grp ids og"

lemma plan_loop_ok:
  assumes "role_ok (fst roles)" "role_ok (snd roles)" "list_all (\<lambda>og. o_weight og < 2 ^ 32) ogs"
    and "length (fst roles) + length ogs < 2 ^ 31" "length (snd roles) + length ogs < 2 ^ 31"
  shows "role_ok (fst (plan_loop site grp ids ogs roles)) \<and> role_ok (snd (plan_loop site grp ids ogs roles))"
  using assms
proof (induction ogs arbitrary: roles)
  case (Cons og ogs)
  have len: "length (add_candidate site og cs) = Suc (length cs)" for cs by (simp add: add_candidate_def Let_def)
  define roles' where "roles' =
    (if \<not> o_enabled og \<or> o_weight og = 0 \<or> role_index og = 2 \<or> \<not> selected grp ids og then roles
     else if role_index og = 0 then (add_candidate site og (fst roles), snd roles)
     else (fst roles, add_candidate site og (snd roles)))"
  have eq: "plan_loop site grp ids (og # ogs) roles = plan_loop site grp ids ogs roles'"
    by (simp add: roles'_def)
  have ok: "role_ok (fst roles')" "role_ok (snd roles')"
    using Cons.prems by (simp_all add: roles'_def add_candidate_ok)
  have "length (fst roles') + length ogs < 2 ^ 31" "length (snd roles') + length ogs < 2 ^ 31"
    using Cons.prems by (simp_all add: roles'_def len)
  with Cons.IH [OF ok] Cons.prems(3) show ?case unfolding eq by simp
qed simp

lemma plan_loop_origins:
  "map c_origin (fst (plan_loop site grp ids ogs roles)) =
     map c_origin (fst roles) @ filter (eligible grp ids ''primary'') ogs \<and>
   map c_origin (snd (plan_loop site grp ids ogs roles)) =
     map c_origin (snd roles) @ filter (eligible grp ids ''backup'') ogs"
proof (induction ogs arbitrary: roles)
  case (Cons og ogs)
  have cand: "map c_origin (add_candidate site og cs) = map c_origin cs @ [og]" for cs
    by (simp add: add_candidate_def Let_def)
  show ?case by (simp add: Cons.IH cand eligible_def role_index_def)
qed simp

text \<open>
  A plan holds exactly the enabled origins of positive weight of the chosen group (or with
  a listed identifier), primaries and backups apart, in the order of the configuration.
\<close>

theorem origin_plan_candidates:
  "map c_origin (fst (origin_plan site grp ids)) = filter (eligible grp ids ''primary'') (w_origins site) \<and>
   map c_origin (snd (origin_plan site grp ids)) = filter (eligible grp ids ''backup'') (w_origins site)"
  using plan_loop_origins [of site grp ids "w_origins site" "([], [])"] by (simp add: origin_plan_def)

text \<open>Weights are 32-bit, and there are fewer origins than 2 to the 31.\<close>

definition website_ok :: "Website \<Rightarrow> bool" where
  "website_ok site \<longleftrightarrow> list_all (\<lambda>og. o_weight og < 2 ^ 32) (w_origins site) \<and> length (w_origins site) < 2 ^ 31"

lemma origin_plan_ok:
  "website_ok site \<Longrightarrow> role_ok (fst (origin_plan site grp ids)) \<and> role_ok (snd (origin_plan site grp ids))"
  unfolding origin_plan_def by (rule plan_loop_ok) (auto simp: website_ok_def role_ok_def)

lemma role_ok_positive: "role_ok cs \<Longrightarrow> cs \<noteq> [] \<Longrightarrow> 0 < wsum cs"
  by (cases cs) (auto simp: role_ok_def)

lemma pivot_interval:
  assumes "role_ok cs" "cs \<noteq> []"
  shows "pivot cs s < length cs" and "wsum (take (pivot cs s) cs) \<le> s mod wsum cs"
    and "s mod wsum cs < wsum (take (Suc (pivot cs s)) cs)"
proof -
  let ?w = "s mod wsum cs" and ?P = "\<lambda>c. c_weight_end c \<le> s mod wsum cs"
  have piv: "pivot cs s = length (takeWhile ?P cs)"
    using assms by (simp add: pivot_def role_ok_last)
  have w: "?w < wsum cs" using role_ok_positive [OF assms] by simp
  have "\<not> ?P (last cs)" using w role_ok_last [OF assms] by simp
  then have "takeWhile ?P cs \<noteq> cs" using assms(2) by (metis last_in_set takeWhile_eq_all_conv)
  then show lt: "pivot cs s < length cs"
    unfolding piv by (metis length_takeWhile_le order_le_neq_trans takeWhile_eq_take take_all_iff order_refl)
  from nth_length_takeWhile [OF lt [unfolded piv]] lt assms(1) show "?w < wsum (take (Suc (pivot cs s)) cs)"
    by (simp add: piv role_ok_def not_le)
  show "wsum (take (pivot cs s) cs) \<le> ?w"
  proof (cases "pivot cs s")
    case (Suc j)
    then have "?P (cs ! j)" unfolding piv by (metis lessI nth_mem set_takeWhileD takeWhile_nth)
    with Suc lt assms(1) show ?thesis by (simp add: role_ok_def)
  qed simp
qed

lemma pivot_iff:
  assumes "role_ok cs" "j < length cs" "s < wsum cs"
  shows "pivot cs s = j \<longleftrightarrow> wsum (take j cs) \<le> s \<and> s < wsum (take (Suc j) cs)"
proof -
  have ne: "cs \<noteq> []" using assms(2) by auto
  note piv = pivot_interval [OF assms(1) ne, of s] and mod = mod_less [OF assms(3)]
  show ?thesis
  proof
    assume "pivot cs s = j"
    with piv mod show "wsum (take j cs) \<le> s \<and> s < wsum (take (Suc j) cs)" by simp
  next
    assume j: "wsum (take j cs) \<le> s \<and> s < wsum (take (Suc j) cs)"
    show "pivot cs s = j"
    proof (rule ccontr)
      assume "pivot cs s \<noteq> j"
      then consider "Suc (pivot cs s) \<le> j" | "Suc j \<le> pivot cs s" by linarith
      then show False
        using wsum_take_mono [of "Suc (pivot cs s)" j cs] wsum_take_mono [of "Suc j" "pivot cs s" cs] piv mod j
        by cases auto
    qed
  qed
qed

text \<open>
  Claim C33.  Weighted rotation: among as many consecutive requests as the weights of a role add up
  to, each origin is the one the cursor starts with exactly as often as its weight says.
\<close>

theorem pivot_weighted:
  assumes "website_ok site" "cs = fst (origin_plan site grp ids) \<or> cs = snd (origin_plan site grp ids)"
    and "j < length cs"
  shows "card {s. s < wsum cs \<and> pivot cs s = j} = o_weight (c_origin (cs ! j))"
proof -
  have ok: "role_ok cs" using origin_plan_ok [OF assms(1)] assms(2) by auto
  have "wsum (take (Suc j) cs) \<le> wsum (take (length cs) cs)"
    by (rule wsum_take_mono) (use assms(3) in simp)
  then have "{s. s < wsum cs \<and> pivot cs s = j} = {wsum (take j cs) ..< wsum (take (Suc j) cs)}"
    using pivot_iff [OF ok assms(3)] less_le_trans by (intro set_eqI) (simp, blast)
  then show ?thesis using assms(3) by (simp add: take_Suc_conv_app_nth)
qed

lemma make_cursor_ok:
  assumes "role_ok (fst plan)" "role_ok (snd plan)"
  shows "cursor_ok (make_cursor plan sequence health)"
  using pivot_interval(1) [OF assms(1)] pivot_interval(1) [OF assms(2)]
  by (simp add: cursor_ok_def make_cursor_def role_at_def pivot_at_def)

definition rotation :: "origin_plan \<Rightarrow> nat \<Rightarrow> candidate list" where
  "rotation plan sequence =
     rotate (pivot (fst plan) sequence) (fst plan) @ rotate (pivot (snd plan) sequence) (snd plan)"

lemma upcoming_make_cursor:
  "upcoming (make_cursor plan sequence health) =
     filter (is_healthy health) (rotation plan sequence) @
     filter (\<lambda>c. \<not> is_healthy health c) (rotation plan sequence)"
  by (simp add: upcoming_def make_cursor_def Let_def tour_def rotation_def)

text \<open>
  Claim C32.  The cursor offers every origin of the plan exactly once and then nothing: the healthy
  primaries from the pivot on, the healthy backups, and after them, in the same order, the
  unhealthy ones.  Every call returns.
\<close>

theorem cursor_enumerates:
  assumes "website_ok site" and "plan = origin_plan site grp ids"
  shows "cursor_calls n (make_cursor plan sequence health) =
    Some (answers n (map c_origin (filter (is_healthy health) (rotation plan sequence) @
      filter (\<lambda>c. \<not> is_healthy health c) (rotation plan sequence))))"
  using cursor_calls_ok [OF make_cursor_ok, of plan n sequence health] origin_plan_ok [OF assms(1), of grp ids]
  by (simp only: assms(2) upcoming_make_cursor)

definition site_origin :: "string \<Rightarrow> string \<Rightarrow> nat \<Rightarrow> Origin" where
  "site_origin name role weight = \<lparr>o_id = name, o_protocol = ''http'', o_host = ''h'', o_port = 80, o_role = role,
     o_weight = weight, o_enabled = True, o_group = []\<rparr>"

definition site_example :: Website where
  "site_example = empty_Website\<lparr>w_id := ''w'', w_origins :=
     [site_origin ''a'' ''primary'' 1, site_origin ''b'' ''primary'' 2, site_origin ''c'' ''backup'' 5]\<rparr>"

lemma site_example_ok: "website_ok site_example"
  by (simp add: website_ok_def site_example_def site_origin_def)

lemma site_example_plan:
  "origin_plan site_example [] [] =
     ([\<lparr>c_origin = w_origins site_example ! 0, c_weight_end = 1, c_health_key = (''w'', ''a'')\<rparr>,
       \<lparr>c_origin = w_origins site_example ! 1, c_weight_end = 3, c_health_key = (''w'', ''b'')\<rparr>],
      [\<lparr>c_origin = w_origins site_example ! 2, c_weight_end = 5, c_health_key = (''w'', ''c'')\<rparr>])"
  by (simp add: origin_plan_def site_example_def site_origin_def add_candidate_def role_index_def selected_def
      group_or_default_def Let_def)

theorem pivot_weighted_witness:
  "card {s. s < wsum (fst (origin_plan site_example [] [])) \<and> pivot (fst (origin_plan site_example [] [])) s = 1} = 2"
proof -
  have "(1::nat) < length (fst (origin_plan site_example [] []))" by (simp add: site_example_plan)
  from pivot_weighted [OF site_example_ok disjI1 [OF refl] this] show ?thesis
    by (simp add: site_example_plan) (simp add: site_example_def site_origin_def)
qed

theorem cursor_enumerates_witness:
  "cursor_calls 4 (make_cursor (origin_plan site_example [] []) 2 None) =
     Some [Some (w_origins site_example ! 1), Some (w_origins site_example ! 0), Some (w_origins site_example ! 2), None]"
proof -
  show ?thesis
    unfolding cursor_enumerates [OF site_example_ok refl]
    by (simp add: site_example_plan rotation_def pivot_def is_healthy_def answers_def upt_rec)
qed

subsection \<open>The first origin of a request\<close>

lemma rotation_origins: "set (rotation plan sequence) = set (fst plan) \<union> set (snd plan)"
  by (simp add: rotation_def)

lemma plan_origins:
  "c \<in> set (fst (origin_plan site grp ids)) \<union> set (snd (origin_plan site grp ids)) \<Longrightarrow>
    c_origin c \<in> set (w_origins site) \<and> o_enabled (c_origin c)"
proof -
  assume "c \<in> set (fst (origin_plan site grp ids)) \<union> set (snd (origin_plan site grp ids))"
  then have "c_origin c \<in> set (map c_origin (fst (origin_plan site grp ids))) \<union>
      set (map c_origin (snd (origin_plan site grp ids)))" by auto
  then show ?thesis
    using plan_loop_origins [of site grp ids "w_origins site" "([], [])"] by (auto simp: origin_plan_def eligible_def)
qed

lemma plan_cursor_first:
  assumes "website_ok site" "\<not> plan_empty (origin_plan site grp ids)"
  shows "\<exists>og c. cursor_next (make_cursor (origin_plan site grp ids) sequence health) = Some (Some og, c) \<and>
    og \<in> set (w_origins site) \<and> o_enabled og"
proof -
  let ?plan = "origin_plan site grp ids" and ?cursor = "make_cursor (origin_plan site grp ids) sequence health"
  have set_up: "set (upcoming ?cursor) = set (fst ?plan) \<union> set (snd ?plan)"
    using rotation_origins [of ?plan sequence] unfolding upcoming_make_cursor by auto
  with assms(2) have ne: "upcoming ?cursor \<noteq> []" by (auto simp: plan_empty_def)
  have "cursor_ok ?cursor" using origin_plan_ok [OF assms(1)] by (blast intro: make_cursor_ok)
  from cursor_next_ok [OF this] obtain answer c where
    r: "cursor_next ?cursor = Some (answer, c)" "round_ok ?cursor (Inl (answer, c))" by blast
  with ne obtain og where og: "answer = Some og" "map c_origin (upcoming ?cursor) = og # map c_origin (upcoming c)"
    by (auto simp: round_ok_def split: option.splits)
  then have "og \<in> c_origin ` set (upcoming ?cursor)" by (metis list.set_intros(1) list.set_map)
  then obtain x where "x \<in> set (fst ?plan) \<union> set (snd ?plan)" "og = c_origin x" unfolding set_up by blast
  with plan_origins [OF this(1)] r(1) og(1) show ?thesis by blast
qed

end
