(* ===== verification/Route_Program.thy ===== *)
theory Route_Program
  imports Website_Validation Origin_Selection
begin

text \<open>
  \<open>src/node/data/route_program.h\<close>: the route rules of a website compiled for one worker.  Names
  become enumerations, capture templates are split into pieces, and proxy rules share origin plans.
  A compiled pattern is its text, given to RE2 with the default options.
\<close>

datatype route_action = Proxy | Redirect | Rewrite

datatype route_match_kind = Match_prefix | Match_exact | Match_suffix | Match_regex

datatype route_rewrite_kind = Keep_path | Replace_path | Strip_prefix | Replace_prefix

datatype route_query_kind = Preserve | Drop | Replace

datatype route_condition_source = From_header | From_query

datatype route_condition_op = Equals | Not_equals | Exists | Absent

record compiled_route_condition =
  ccon_source :: route_condition_source
  ccon_op :: route_condition_op
  ccon_name :: string
  ccon_value :: string

subsection \<open>Capture templates\<close>

datatype route_capture_piece = Piece string | Group nat

type_synonym route_capture_template = "route_capture_piece list"

definition flush :: "string \<Rightarrow> route_capture_template" where
  "flush lit = (if lit = [] then [] else [Piece lit])"

fun capture_loop :: "string \<Rightarrow> string \<Rightarrow> route_capture_template" where
  "capture_loop lit [] = flush lit"
| "capture_loop lit (c # cs) =
     (if c = CHR ''$'' \<and> cs \<noteq> [] \<and> hd cs = CHR ''$'' then capture_loop (lit @ ''$'') (tl cs)
      else if c = CHR ''$'' \<and> length cs \<ge> 3 \<and> cs ! 0 = CHR ''{'' \<and> is_digit (cs ! 1) \<and> cs ! 2 = CHR ''}''
      then flush lit @ Group (byte (cs ! 1) - 48) # capture_loop [] (drop 3 cs)
      else capture_loop (lit @ [c]) cs)"

definition compile_capture_template :: "string \<Rightarrow> int \<Rightarrow> website_error + route_capture_template" where
  "compile_capture_template t groups =
     (if \<not> capture_template t groups then Inl Invalid_capture_template else Inr (capture_loop [] t))"

subsection \<open>Rules\<close>

record compiled_route_rule =
  crr_id :: string
  crr_action :: route_action
  crr_match :: route_match_kind
  crr_rewrite :: route_rewrite_kind
  crr_query :: route_query_kind
  crr_path :: string
  crr_prefix_open :: bool
  crr_pattern :: "string option"
  crr_methods :: "string list"
  crr_hostnames :: "string list"
  crr_conditions :: "compiled_route_condition list"
  crr_rewrite_path :: string
  crr_query_string :: string
  crr_redirect_url :: string
  crr_rewrite_template :: route_capture_template
  crr_redirect_template :: route_capture_template
  crr_redirect_status :: nat
  crr_origin_group :: string
  crr_origin_ids :: "string list"
  crr_origin_plan_index :: nat
  crr_request_headers :: "HeaderMutation list"
  crr_response_headers :: "HeaderMutation list"

record compiled_website_routes =
  cwr_default_origin_group :: string
  cwr_origin_plans :: "origin_plan list"
  cwr_rules :: "compiled_route_rule list"
  cwr_redirects :: "nat list"
  cwr_transforms :: "nat list"
  cwr_proxies :: "nat list"

definition compile_action :: "string \<Rightarrow> website_error + route_action" where
  "compile_action v =
     (if v = ''proxy'' then Inr Proxy else if v = ''redirect'' then Inr Redirect
      else if v = ''rewrite'' then Inr Rewrite else Inl Invalid_route_action)"

text \<open>The match kind with the pattern and the two templates of a regular expression rule.\<close>

definition compile_match :: "re2 \<Rightarrow> RouteRule \<Rightarrow>
    website_error + route_match_kind \<times> string option \<times> route_capture_template \<times> route_capture_template" where
  "compile_match R r =
     (if rr_match_type r = ''prefix'' then Inr (Match_prefix, None, [], [])
      else if rr_match_type r = ''exact'' then Inr (Match_exact, None, [], [])
      else if rr_match_type r = ''suffix'' then Inr (Match_suffix, None, [], [])
      else if rr_match_type r = ''regex'' then
        (case compile_pattern R (rr_path r) of
           None \<Rightarrow> Inl Invalid_route_pattern
         | Some pattern \<Rightarrow>
             let groups = int (number_of_capturing_groups R default_options pattern) in
             bind_result (compile_capture_template (rr_rewrite_path r) groups) (\<lambda>rewrite.
             bind_result (compile_capture_template (rr_redirect_url r) groups) (\<lambda>redirect.
               Inr (Match_regex, Some pattern, rewrite, redirect))))
      else Inl Invalid_route_match_type)"

definition compile_rewrite :: "RouteRule \<Rightarrow> website_error + route_rewrite_kind" where
  "compile_rewrite r =
     (let mode = rr_rewrite_mode r in
      if mode = ''none'' \<or> (mode = [] \<and> rr_rewrite_path r = []) then Inr Keep_path
      else if mode = ''replace_path'' \<or> mode = [] then Inr Replace_path
      else if mode = ''strip_prefix'' then Inr Strip_prefix
      else if mode = ''replace_prefix'' then Inr Replace_prefix
      else Inl Invalid_route_rewrite_mode)"

definition compile_query :: "string \<Rightarrow> website_error + route_query_kind" where
  "compile_query v =
     (if v = [] \<or> v = ''preserve'' then Inr Preserve else if v = ''drop'' then Inr Drop
      else if v = ''replace'' then Inr Replace else Inl Invalid_route_query_mode)"

definition compile_condition_source :: "string \<Rightarrow> website_error + route_condition_source" where
  "compile_condition_source v =
     (if v = ''header'' then Inr From_header else if v = ''query'' then Inr From_query else Inl Invalid_condition_source)"

definition compile_condition_op :: "string \<Rightarrow> website_error + route_condition_op" where
  "compile_condition_op v =
     (if v = ''equals'' then Inr Equals else if v = ''not_equals'' then Inr Not_equals
      else if v = ''exists'' then Inr Exists else if v = ''absent'' then Inr Absent
      else Inl Invalid_condition_operator)"

definition compile_condition :: "RouteCondition \<Rightarrow> website_error + compiled_route_condition" where
  "compile_condition c =
     bind_result (compile_condition_source (rc_source c)) (\<lambda>source.
     bind_result (compile_condition_op (rc_op c)) (\<lambda>op.
       Inr \<lparr>ccon_source = source, ccon_op = op,
         ccon_name = (if source = From_header then map lower_ascii (rc_name c) else rc_name c),
         ccon_value = rc_value c\<rparr>))"

fun compile_conditions :: "RouteCondition list \<Rightarrow> website_error + compiled_route_condition list" where
  "compile_conditions [] = Inr []"
| "compile_conditions (c # cs) =
     bind_result (compile_condition c) (\<lambda>c'. bind_result (compile_conditions cs) (\<lambda>cs'. Inr (c' # cs')))"

text \<open>A rule before its origin plan is chosen.\<close>

definition compile_route_rule :: "re2 \<Rightarrow> RouteRule \<Rightarrow> website_error + compiled_route_rule" where
  "compile_route_rule R r =
     bind_result (compile_action (rr_action r)) (\<lambda>action.
     bind_result (compile_match R r) (\<lambda>(kind, pattern, rewrite_template, redirect_template).
     bind_result (compile_rewrite r) (\<lambda>rewrite.
     bind_result (compile_query (rr_query_mode r)) (\<lambda>query.
     bind_result (compile_conditions (rr_conditions r)) (\<lambda>conditions.
       Inr \<lparr>crr_id = rr_id r, crr_action = action, crr_match = kind, crr_rewrite = rewrite, crr_query = query,
         crr_path = rr_path r, crr_prefix_open = (rr_path r = ''/'' \<or> ends_with (rr_path r) ''/''),
         crr_pattern = pattern, crr_methods = rr_methods r, crr_hostnames = map hostname (rr_hostnames r),
         crr_conditions = conditions, crr_rewrite_path = rr_rewrite_path r, crr_query_string = rr_query_string r,
         crr_redirect_url = rr_redirect_url r, crr_rewrite_template = rewrite_template,
         crr_redirect_template = redirect_template, crr_redirect_status = rr_redirect_status r,
         crr_origin_group = rr_origin_group r, crr_origin_ids = rr_origin_ids r, crr_origin_plan_index = 0,
         crr_request_headers = rr_request_headers r, crr_response_headers = rr_response_headers r\<rparr>)))))"

definition effective_group :: "string \<Rightarrow> string \<Rightarrow> string" where
  "effective_group dflt g = group_or_default (if g = [] then dflt else g)"

text \<open>The search for an earlier proxy rule with the same origins.\<close>

definition same_origins :: "string \<Rightarrow> compiled_route_rule \<Rightarrow> compiled_route_rule \<Rightarrow> bool" where
  "same_origins dflt r cand \<longleftrightarrow> crr_action cand = Proxy \<and> crr_origin_ids cand = crr_origin_ids r \<and>
     (crr_origin_ids r \<noteq> [] \<or> effective_group dflt (crr_origin_group cand) = effective_group dflt (crr_origin_group r))"

definition choose_plan :: "Website \<Rightarrow> compiled_website_routes \<Rightarrow> compiled_route_rule \<Rightarrow>
    compiled_route_rule \<times> origin_plan list" where
  "choose_plan w res r =
     (let dflt = cwr_default_origin_group res; g = effective_group dflt (crr_origin_group r) in
      if crr_action r = Proxy \<and> (crr_origin_ids r \<noteq> [] \<or> g \<noteq> effective_group dflt []) then
        (case find (same_origins dflt r) (cwr_rules res) of
           Some previous \<Rightarrow> (r\<lparr>crr_origin_plan_index := crr_origin_plan_index previous\<rparr>, cwr_origin_plans res)
         | None \<Rightarrow> (r\<lparr>crr_origin_plan_index := length (cwr_origin_plans res)\<rparr>,
             cwr_origin_plans res @ [origin_plan w g (crr_origin_ids r)]))
      else (r, cwr_origin_plans res))"

text \<open>The rule is appended and its index entered in the phases it takes part in.\<close>

definition add_route :: "Website \<Rightarrow> compiled_route_rule \<Rightarrow> compiled_website_routes \<Rightarrow> compiled_website_routes" where
  "add_route w r res =
     (case choose_plan w res r of (r, plans) \<Rightarrow>
      let index = length (cwr_rules res) in
      res\<lparr>cwr_origin_plans := plans,
          cwr_redirects := cwr_redirects res @ (if crr_action r = Redirect then [index] else []),
          cwr_transforms := cwr_transforms res @
            (if crr_action r \<noteq> Redirect \<and> (crr_rewrite r \<noteq> Keep_path \<or> crr_query r \<noteq> Preserve) then [index] else []),
          cwr_proxies := cwr_proxies res @ (if crr_action r = Proxy then [index] else []),
          cwr_rules := cwr_rules res @ [r]\<rparr>)"

fun routes_loop :: "re2 \<Rightarrow> Website \<Rightarrow> RouteRule list \<Rightarrow> compiled_website_routes \<Rightarrow>
    website_error + compiled_website_routes" where
  "routes_loop R w [] res = Inr res"
| "routes_loop R w (source # sources) res =
     (if \<not> rr_enabled source then routes_loop R w sources res
      else bind_result (compile_route_rule R source) (\<lambda>r. routes_loop R w sources (add_route w r res)))"

definition compile_website_routes :: "re2 \<Rightarrow> Website \<Rightarrow> website_error + compiled_website_routes" where
  "compile_website_routes R w =
     routes_loop R w (w_route_rules w)
       \<lparr>cwr_default_origin_group = w_default_origin_group w,
        cwr_origin_plans = [origin_plan w (w_default_origin_group w) []],
        cwr_rules = [], cwr_redirects = [], cwr_transforms = [], cwr_proxies = []\<rparr>"

text \<open>
  The program of a configuration.  The source keys it by the address of the website, here its
  position; the lookup throws (\<open>None\<close>) for a website the program has no routes of.
\<close>

fun route_program :: "re2 \<Rightarrow> Website list \<Rightarrow> website_error + compiled_website_routes option list" where
  "route_program R [] = Inr []"
| "route_program R (w # ws) =
     (if w_enabled w then
        bind_result (compile_website_routes R w) (\<lambda>routes.
        bind_result (route_program R ws) (\<lambda>program. Inr (Some routes # program)))
      else bind_result (route_program R ws) (\<lambda>program. Inr (None # program)))"

definition program_website :: "compiled_website_routes option list \<Rightarrow> nat \<Rightarrow> compiled_website_routes option" where
  "program_website program i = (if i < length program then program ! i else None)"

subsection \<open>Shared origin plans\<close>

lemma origin_plan_group:
  assumes "ids \<noteq> [] \<or> group_or_default g = group_or_default g'"
  shows "origin_plan w g ids = origin_plan w g' ids"
proof -
  have "selected g ids = selected g' ids" using assms by (auto simp: selected_def fun_eq_iff)
  then have "plan_loop w g ids ogs roles = plan_loop w g' ids ogs roles" for ogs roles
    by (induction ogs arbitrary: roles) simp_all
  then show ?thesis by (simp add: origin_plan_def)
qed

lemma group_or_default_idem [simp]: "group_or_default (group_or_default g) = group_or_default g"
  by (simp add: group_or_default_def)

definition rule_plan :: "Website \<Rightarrow> compiled_route_rule \<Rightarrow> origin_plan" where
  "rule_plan w r = origin_plan w (effective_group (w_default_origin_group w) (crr_origin_group r)) (crr_origin_ids r)"

definition plans_ok :: "Website \<Rightarrow> compiled_website_routes \<Rightarrow> bool" where
  "plans_ok w res \<longleftrightarrow> cwr_default_origin_group res = w_default_origin_group w \<and> cwr_origin_plans res \<noteq> [] \<and>
     cwr_origin_plans res ! 0 = origin_plan w (w_default_origin_group w) [] \<and>
     (\<forall>r \<in> set (cwr_rules res). crr_action r = Proxy \<longrightarrow> crr_origin_plan_index r < length (cwr_origin_plans res) \<and>
        cwr_origin_plans res ! crr_origin_plan_index r = rule_plan w r)"

lemma same_origins_plan: "same_origins (w_default_origin_group w) r cand \<Longrightarrow> rule_plan w cand = rule_plan w r"
  unfolding rule_plan_def same_origins_def by (metis origin_plan_group)

lemma choose_plan_ok:
  assumes ok: "plans_ok w res" and choose: "choose_plan w res r = (r', plans)" and fresh: "crr_origin_plan_index r = 0"
  shows "(\<exists>extra. plans = cwr_origin_plans res @ extra) \<and> crr_action r' = crr_action r \<and> rule_plan w r' = rule_plan w r \<and>
    (crr_action r' = Proxy \<longrightarrow> crr_origin_plan_index r' < length plans \<and> plans ! crr_origin_plan_index r' = rule_plan w r')"
proof -
  let ?d = "w_default_origin_group w" and ?P = "cwr_origin_plans res"
  have dflt: "cwr_default_origin_group res = ?d" and ne: "?P \<noteq> []" and first: "?P ! 0 = origin_plan w ?d []"
    using ok by (auto simp: plans_ok_def)
  have keep: "rule_plan w (r\<lparr>crr_origin_plan_index := i\<rparr>) = rule_plan w r" for i by (simp add: rule_plan_def)
  let ?C = "crr_action r = Proxy \<and> (crr_origin_ids r \<noteq> [] \<or> effective_group ?d (crr_origin_group r) \<noteq> effective_group ?d [])"
  have eq: "choose_plan w res r = (if ?C then case find (same_origins ?d r) (cwr_rules res) of
           Some previous \<Rightarrow> (r\<lparr>crr_origin_plan_index := crr_origin_plan_index previous\<rparr>, ?P)
         | None \<Rightarrow> (r\<lparr>crr_origin_plan_index := length ?P\<rparr>,
             ?P @ [origin_plan w (effective_group ?d (crr_origin_group r)) (crr_origin_ids r)])
      else (r, ?P))"
    by (simp only: choose_plan_def Let_def dflt)
  show ?thesis
  proof (cases ?C)
    case C: True
    show ?thesis
    proof (cases "find (same_origins ?d r) (cwr_rules res)")
      case None
      with choose C have "r' = r\<lparr>crr_origin_plan_index := length ?P\<rparr>" "plans = ?P @ [rule_plan w r]"
        unfolding eq by (simp_all add: rule_plan_def)
      then show ?thesis by (simp add: keep)
    next
      case (Some previous)
      with choose C have "r' = r\<lparr>crr_origin_plan_index := crr_origin_plan_index previous\<rparr>" "plans = ?P"
        unfolding eq by simp_all
      moreover have prev: "previous \<in> set (cwr_rules res)" "same_origins ?d r previous"
        using Some by (auto simp: find_Some_iff)
      moreover have "crr_origin_plan_index previous < length ?P" "?P ! crr_origin_plan_index previous = rule_plan w previous"
        using ok prev by (auto simp: plans_ok_def same_origins_def)
      ultimately show ?thesis using keep same_origins_plan [OF prev(2)] by simp
    qed
  next
    case False
    have "rule_plan w r = origin_plan w ?d []" if "crr_action r = Proxy"
    proof -
      from False that have "crr_origin_ids r = []" "effective_group ?d (crr_origin_group r) = effective_group ?d []" by auto
      then show ?thesis unfolding rule_plan_def by (auto simp: effective_group_def intro!: origin_plan_group)
    qed
    moreover have "r' = r" "plans = ?P" using choose False unfolding eq if_not_P [OF False] by simp_all
    ultimately show ?thesis using fresh ne first by simp
  qed
qed

lemma add_route_plans:
  assumes "plans_ok w res" "crr_origin_plan_index r = 0"
  shows "plans_ok w (add_route w r res)"
proof -
  obtain r' plans where c: "choose_plan w res r = (r', plans)" by (rule prod.exhaust)
  from choose_plan_ok [OF assms(1) c assms(2)] obtain extra where plans: "plans = cwr_origin_plans res @ extra"
    and r': "crr_action r' = Proxy \<longrightarrow> crr_origin_plan_index r' < length plans \<and> plans ! crr_origin_plan_index r' = rule_plan w r'"
    by blast
  show ?thesis
    using assms(1) r' unfolding plans_ok_def add_route_def c by (auto simp: Let_def plans nth_append)
qed

lemma compile_route_rule_fields:
  assumes "compile_route_rule R source = Inr r"
  shows "crr_origin_plan_index r = 0 \<and> crr_origin_group r = rr_origin_group source \<and>
    crr_origin_ids r = rr_origin_ids source \<and> (crr_action r = Proxy \<longleftrightarrow> rr_action source = ''proxy'') \<and>
    crr_redirect_status r = rr_redirect_status source \<and> crr_id r = rr_id source"
  using assms
  by (auto simp: compile_route_rule_def compile_action_def bind_result_Inr_iff split: if_splits)

lemma routes_loop_plans: "routes_loop R w rs res = Inr res' \<Longrightarrow> plans_ok w res \<Longrightarrow> plans_ok w res'"
proof (induction R w rs res rule: routes_loop.induct)
  case (2 R w source sources res)
  show ?case
  proof (cases "rr_enabled source")
    case True
    with "2.prems"(1) obtain r where r: "compile_route_rule R source = Inr r"
      and rest: "routes_loop R w sources (add_route w r res) = Inr res'"
      by (auto simp: bind_result_Inr_iff)
    from compile_route_rule_fields [OF r] have "plans_ok w (add_route w r res)"
      using add_route_plans "2.prems"(2) by blast
    with "2.IH"(2) [OF _ r rest] True show ?thesis by simp
  qed (use 2 in simp)
qed simp

lemma compiled_plans_ok: "compile_website_routes R w = Inr routes \<Longrightarrow> plans_ok w routes"
  unfolding compile_website_routes_def by (erule routes_loop_plans) (simp add: plans_ok_def)

text \<open>
  Claim C4.  Sharing origin plans changes nothing: the plan a compiled proxy rule refers to exists
  and is the plan of its own group and identifiers, whichever rule made it.
\<close>

theorem route_plans_shared:
  assumes "compile_website_routes R w = Inr routes" "r \<in> set (cwr_rules routes)" "crr_action r = Proxy"
  shows "crr_origin_plan_index r < length (cwr_origin_plans routes) \<and>
    cwr_origin_plans routes ! crr_origin_plan_index r =
      origin_plan w (effective_group (w_default_origin_group w) (crr_origin_group r)) (crr_origin_ids r)"
  using compiled_plans_ok [OF assms(1)] assms(2,3) by (simp add: plans_ok_def rule_plan_def)

subsection \<open>Validated websites compile\<close>

lemma route_rules_loop_None:
  "route_rules_loop R w ids rs = None \<Longrightarrow> r \<in> set rs \<Longrightarrow> \<exists>seen. route_rule_error R w seen r = None"
  by (induction R w ids rs rule: route_rules_loop.induct) (auto split: option.splits)

lemma compile_conditions_total:
  "list_all (\<lambda>c. condition_options (rc_source c) (rc_name c) (rc_op c) (rc_value c)) cs \<Longrightarrow>
    \<exists>cs'. compile_conditions cs = Inr cs'"
proof (induction cs)
  case (Cons c cs)
  then obtain cs' where "compile_conditions cs = Inr cs'" by auto
  moreover have "\<exists>c'. compile_condition c = Inr c'"
    using Cons.prems by (auto simp: compile_condition_def compile_condition_source_def compile_condition_op_def
        condition_options_def bind_result_def split: if_splits)
  ultimately show ?case by auto
qed simp

lemma compile_match_total:
  assumes "\<not> bad_regex R r" "valid_match_type (rr_match_type r)"
  shows "\<exists>k p a b. compile_match R r = Inr (k, p, a, b)"
proof (cases "rr_match_type r = ''regex''")
  case True
  with assms(1) obtain pattern where "compile_pattern R (rr_path r) = Some pattern"
    "capture_template (rr_rewrite_path r) (int (number_of_capturing_groups R default_options pattern))"
    "capture_template (rr_redirect_url r) (int (number_of_capturing_groups R default_options pattern))"
    by (auto simp: bad_regex_def Let_def split: option.splits)
  with True show ?thesis by (simp add: compile_match_def compile_capture_template_def Let_def)
next
  case False
  with assms(2) show ?thesis by (auto simp: compile_match_def valid_match_type_def)
qed

lemma compile_route_rule_total:
  assumes "route_rule_error R w ids r = None"
  shows "\<exists>c. compile_route_rule R r = Inr c"
proof -
  from assms have ok: "\<not> bad_regex R r" "\<not> bad_options r" "\<not> bad_shape ids r"
    "list_all (\<lambda>c. condition_options (rc_source c) (rc_name c) (rc_op c) (rc_value c)) (rr_conditions r)"
    by (auto simp: route_rule_error_def)
  have modes: "rewrite_mode (rr_rewrite_mode r)" "query_mode (rr_query_mode r)"
    using ok(2) unfolding bad_options_def Let_def by blast+
  obtain action where "compile_action (rr_action r) = Inr action"
    using ok(3) by (auto simp: bad_shape_def compile_action_def split: if_splits)
  moreover obtain k p a b where "compile_match R r = Inr (k, p, a, b)"
    using compile_match_total [OF ok(1)] ok(3) by (auto simp: bad_shape_def)
  moreover have "\<exists>rewrite. compile_rewrite r = Inr rewrite"
    using modes(1) by (auto simp: Let_def compile_rewrite_def rewrite_mode_def)
  moreover obtain query where "compile_query (rr_query_mode r) = Inr query"
    using modes(2) by (auto simp: compile_query_def query_mode_def)
  moreover obtain conditions where "compile_conditions (rr_conditions r) = Inr conditions"
    using compile_conditions_total [OF ok(4)] by blast
  ultimately show ?thesis by (auto simp: compile_route_rule_def)
qed

lemma routes_loop_total:
  "(\<And>r. r \<in> set rs \<Longrightarrow> \<exists>c. compile_route_rule R r = Inr c) \<Longrightarrow> \<exists>res'. routes_loop R w rs res = Inr res'"
proof (induction rs arbitrary: res)
  case (Cons r rs)
  obtain c where "compile_route_rule R r = Inr c" using Cons.prems by (metis list.set_intros(1))
  with Cons show ?case by simp
qed simp

lemma origins_loop_Inr:
  assumes "origins_loop en pr ogs = Inr (en', pr')"
  shows "en' = en \<union> group_or_default ` o_group ` set (filter o_enabled ogs) \<and>
    pr' = pr \<union> group_or_default ` o_group ` set (filter (\<lambda>og. o_enabled og \<and> o_role og = ''primary'') ogs) \<and>
    (\<forall>og \<in> set ogs. o_enabled og \<longrightarrow> \<not> bad_origin og)"
  using assms
proof (induction en pr ogs rule: origins_loop.induct)
  case (2 en pr og ogs)
  then show ?case by (cases "o_enabled og"; cases "bad_origin og") (auto simp: Let_def)
qed simp

text \<open>A plan with an eligible origin is not empty.\<close>

lemma plan_not_empty:
  assumes "og \<in> set (w_origins w)" "o_enabled og" "\<not> bad_origin og" "selected g ids og"
  shows "\<not> plan_empty (origin_plan w g ids)"
proof -
  have "eligible g ids (o_role og) og" "o_role og = ''primary'' \<or> o_role og = ''backup''"
    using assms by (auto simp: eligible_def bad_origin_def)
  with assms(1) have "filter (eligible g ids ''primary'') (w_origins w) \<noteq> [] \<or> filter (eligible g ids ''backup'') (w_origins w) \<noteq> []"
    by (auto simp: filter_empty_conv)
  moreover have "map c_origin (fst (origin_plan w g ids)) = filter (eligible g ids ''primary'') (w_origins w)"
    "map c_origin (snd (origin_plan w g ids)) = filter (eligible g ids ''backup'') (w_origins w)"
    using plan_loop_origins [of w g ids "w_origins w" "([], [])"] by (simp_all add: origin_plan_def)
  ultimately show ?thesis unfolding plan_empty_def by (metis list.map_disc_iff)
qed

lemma validated_origins:
  assumes "validate_website_origins w = None"
  shows "og \<in> set (w_origins w) \<Longrightarrow> o_enabled og \<Longrightarrow> \<not> bad_origin og"
    and "\<not> plan_empty (origin_plan w (w_default_origin_group w) [])"
proof -
  obtain en where run: "origins_loop {} {} (w_origins w) = Inr (en, en)"
    and dflt: "group_or_default (w_default_origin_group w) \<in> en"
  proof (cases "origins_loop {} {} (w_origins w)")
    case (Inl e)
    with assms show ?thesis by (simp add: validate_website_origins_def)
  next
    case (Inr x)
    obtain en pr where "x = (en, pr)" by (rule prod.exhaust)
    with Inr assms that show ?thesis by (simp add: validate_website_origins_def)
  qed
  note loop = origins_loop_Inr [OF run]
  show good: "og \<in> set (w_origins w) \<Longrightarrow> o_enabled og \<Longrightarrow> \<not> bad_origin og" for og using loop by blast
  from loop dflt obtain og where "og \<in> set (w_origins w)" "o_enabled og"
    "group_or_default (o_group og) = group_or_default (w_default_origin_group w)" by auto
  with good show "\<not> plan_empty (origin_plan w (w_default_origin_group w) [])"
    by (intro plan_not_empty [of og]) (auto simp: selected_def)
qed

lemma validated_proxy_plan:
  assumes "validate_website_origins w = None" "route_origin_group r w"
  shows "\<not> plan_empty (origin_plan w (effective_group (w_default_origin_group w) (rr_origin_group r)) (rr_origin_ids r))"
proof (cases "rr_origin_ids r = []")
  case True
  with assms(2) obtain og where og: "og \<in> set (w_origins w)" "primary_in_group (rr_origin_group r) og" "rr_origin_group r \<noteq> []"
    by (auto simp: route_origin_group_def list_ex_iff split: if_splits)
  then have "selected (effective_group (w_default_origin_group w) (rr_origin_group r)) [] og"
    by (auto simp: selected_def primary_in_group_def effective_group_def group_or_default_def split: if_splits)
  with og validated_origins(1) [OF assms(1) og(1)] True show ?thesis
    by (simp add: plan_not_empty [of og] primary_in_group_def)
next
  case False
  then obtain i where i: "i \<in> set (rr_origin_ids r)" by (cases "rr_origin_ids r") auto
  with assms(2) False have "i \<in> enabled_ids w"
    by (auto simp: route_origin_group_def route_origin_ids_def unique_names_iff list_all_iff)
  then obtain og where og: "og \<in> set (w_origins w)" "o_enabled og" "o_id og = i" by (auto simp: enabled_ids_def)
  with i False validated_origins(1) [OF assms(1) og(1,2)] show ?thesis
    by (intro plan_not_empty [of og]) (auto simp: selected_def)
qed

text \<open>Every compiled rule comes from an enabled source rule.\<close>

lemma routes_loop_sources:
  assumes "routes_loop R w rs res = Inr res'" "c \<in> set (cwr_rules res')"
  shows "c \<in> set (cwr_rules res) \<or> (\<exists>r \<in> set rs. \<exists>c0 i. rr_enabled r \<and> compile_route_rule R r = Inr c0 \<and>
    c = c0\<lparr>crr_origin_plan_index := i\<rparr>)"
  using assms
proof (induction R w rs res rule: routes_loop.induct)
  case (2 R w source sources res)
  show ?case
  proof (cases "rr_enabled source")
    case True
    with "2.prems"(1) obtain r where r: "compile_route_rule R source = Inr r"
      and rest: "routes_loop R w sources (add_route w r res) = Inr res'"
      by (auto simp: bind_result_Inr_iff)
    obtain r' plans where c: "choose_plan w res r = (r', plans)" by (rule prod.exhaust)
    from c have "r' = r \<or> (\<exists>i. r' = r\<lparr>crr_origin_plan_index := i\<rparr>)"
      by (auto simp: choose_plan_def Let_def split: if_splits option.splits)
    then have r': "\<exists>i. r' = r\<lparr>crr_origin_plan_index := i\<rparr>"
    proof
      assume "r' = r"
      then have "r' = r\<lparr>crr_origin_plan_index := crr_origin_plan_index r\<rparr>" by simp
      then show ?thesis by (rule exI)
    qed
    have "set (cwr_rules (add_route w r res)) = insert r' (set (cwr_rules res))" by (simp add: add_route_def c Let_def)
    with "2.IH"(2) [OF _ r rest "2.prems"(2)] True r r' show ?thesis by auto
  qed (use 2 in auto)
qed simp

lemma compiled_rule_source:
  assumes "compile_website_routes R w = Inr routes" "c \<in> set (cwr_rules routes)"
  shows "\<exists>r \<in> set (w_route_rules w). \<exists>c0 i. rr_enabled r \<and> compile_route_rule R r = Inr c0 \<and>
    c = c0\<lparr>crr_origin_plan_index := i\<rparr>"
  using routes_loop_sources [OF assms(1) [unfolded compile_website_routes_def] assms(2)] by simp

lemma valid_website_routes:
  assumes "validate_website R A P w = None" "w_enabled w"
  shows "\<exists>routes. compile_website_routes R w = Inr routes \<and> plans_ok w routes \<and>
    \<not> plan_empty (cwr_origin_plans routes ! 0) \<and>
    (\<forall>c \<in> set (cwr_rules routes). crr_action c = Proxy \<longrightarrow> \<not> plan_empty (rule_plan w c))"
proof -
  from assms have ok: "route_rules_loop R w {} (w_route_rules w) = None" "validate_website_origins w = None"
    by (auto simp: validate_website_def validate_route_rules_def)
  have "\<exists>c. compile_route_rule R r = Inr c" if "r \<in> set (w_route_rules w)" for r
    using route_rules_loop_None [OF ok(1) that] compile_route_rule_total by blast
  from routes_loop_total [OF this] obtain routes where c: "compile_website_routes R w = Inr routes"
    unfolding compile_website_routes_def by blast
  note plans = compiled_plans_ok [OF c]
  have "\<not> plan_empty (rule_plan w r)" if r: "r \<in> set (cwr_rules routes)" "crr_action r = Proxy" for r
  proof -
    from compiled_rule_source [OF c r(1)] r(2) compile_route_rule_fields obtain source where
      s: "source \<in> set (w_route_rules w)" "crr_origin_group r = rr_origin_group source"
      "crr_origin_ids r = rr_origin_ids source" "rr_action source = ''proxy''" by fastforce
    from route_rules_loop_None [OF ok(1) s(1)] s(4) have "route_origin_group source w"
      by (auto simp: route_rule_error_def action_error_def)
    from validated_proxy_plan [OF ok(2) this] s show ?thesis by (simp add: rule_plan_def)
  qed
  with c plans validated_origins(2) [OF ok(2)] show ?thesis by (auto simp: plans_ok_def)
qed

lemma route_program_websites:
  assumes "route_program R ws = Inr program" "i < length ws"
  shows "case program_website program i of
      None \<Rightarrow> \<not> w_enabled (ws ! i)
    | Some routes \<Rightarrow> w_enabled (ws ! i) \<and> compile_website_routes R (ws ! i) = Inr routes"
  using assms
proof (induction ws arbitrary: program i)
  case (Cons w ws)
  from Cons.prems(1) obtain rest where rest: "route_program R ws = Inr rest" by (auto simp: bind_result_Inr_iff split: if_splits)
  show ?case
  proof (cases i)
    case 0
    with Cons.prems show ?thesis by (auto simp: bind_result_Inr_iff program_website_def split: if_splits)
  next
    case (Suc j)
    with Cons.prems have "program_website program i = program_website rest j"
      by (auto simp: rest bind_result_Inr_iff program_website_def split: if_splits)
    with Cons.IH [OF rest, of j] Cons.prems(2) Suc show ?thesis by (auto split: option.splits)
  qed
qed simp

lemma route_program_total:
  "list_all (\<lambda>w. validate_website R A P w = None) ws \<Longrightarrow> \<exists>program. route_program R ws = Inr program"
proof (induction ws)
  case (Cons w ws)
  then show ?case
    using valid_website_routes [of R A P w] by (cases "w_enabled w") (auto simp: bind_result_Inr_iff)
qed simp

text \<open>
  Claim C2.  A configuration whose websites pass validation can be loaded: the construction of its
  route program does not throw, and every enabled website finds in it routes whose default plan and
  whose proxy rules all have at least one origin to try.
\<close>

theorem validated_websites_load:
  assumes "list_all (\<lambda>w. validate_website R A P w = None) ws"
  shows "\<exists>program. route_program R ws = Inr program \<and>
    (\<forall>i. i < length ws \<and> w_enabled (ws ! i) \<longrightarrow>
      (\<exists>routes. program_website program i = Some routes \<and> \<not> plan_empty (cwr_origin_plans routes ! 0) \<and>
        list_all (\<lambda>r. \<not> plan_empty (cwr_origin_plans routes ! crr_origin_plan_index r))
          (filter (\<lambda>r. crr_action r = Proxy) (cwr_rules routes))))"
proof -
  from route_program_total [OF assms] obtain program where program: "route_program R ws = Inr program" by blast
  have "\<exists>routes. program_website program i = Some routes \<and> \<not> plan_empty (cwr_origin_plans routes ! 0) \<and>
      list_all (\<lambda>r. \<not> plan_empty (cwr_origin_plans routes ! crr_origin_plan_index r))
        (filter (\<lambda>r. crr_action r = Proxy) (cwr_rules routes))" if i: "i < length ws" "w_enabled (ws ! i)" for i
  proof -
    from route_program_websites [OF program i(1)] i(2) obtain routes where
      routes: "program_website program i = Some routes" "compile_website_routes R (ws ! i) = Inr routes"
      by (auto split: option.splits)
    from assms i(1) have "validate_website R A P (ws ! i) = None" by (simp add: list_all_length)
    from valid_website_routes [OF this i(2)] routes show ?thesis by (auto simp: plans_ok_def list_all_iff)
  qed
  with program show ?thesis by blast
qed

subsection \<open>Phases and templates\<close>

definition phases_ok :: "compiled_website_routes \<Rightarrow> bool" where
  "phases_ok res \<longleftrightarrow>
     cwr_redirects res = filter (\<lambda>i. crr_action (cwr_rules res ! i) = Redirect) [0..<length (cwr_rules res)] \<and>
     cwr_transforms res = filter (\<lambda>i. crr_action (cwr_rules res ! i) \<noteq> Redirect \<and>
       (crr_rewrite (cwr_rules res ! i) \<noteq> Keep_path \<or> crr_query (cwr_rules res ! i) \<noteq> Preserve)) [0..<length (cwr_rules res)] \<and>
     cwr_proxies res = filter (\<lambda>i. crr_action (cwr_rules res ! i) = Proxy) [0..<length (cwr_rules res)]"

lemma filter_upt_append:
  "filter (\<lambda>i. P ((xs @ [x]) ! i)) [0..<Suc (length xs)] =
    filter (\<lambda>i. P (xs ! i)) [0..<length xs] @ (if P x then [length xs] else [])"
proof -
  have "filter (\<lambda>i. P ((xs @ [x]) ! i)) [0..<length xs] = filter (\<lambda>i. P (xs ! i)) [0..<length xs]"
    by (rule filter_cong) (simp_all add: nth_append)
  then show ?thesis by (simp del: upt_Suc add: upt_Suc_append)
qed

lemma add_route_phases: "phases_ok res \<Longrightarrow> phases_ok (add_route w r res)"
proof -
  assume ok: "phases_ok res"
  obtain r' plans where c: "choose_plan w res r = (r', plans)" by (rule prod.exhaust)
  note append = filter_upt_append [of _ "cwr_rules res" r']
  show ?thesis
    using ok append [of "\<lambda>r. crr_action r = Redirect"] append [of "\<lambda>r. crr_action r = Proxy"]
      append [of "\<lambda>r. crr_action r \<noteq> Redirect \<and> (crr_rewrite r \<noteq> Keep_path \<or> crr_query r \<noteq> Preserve)"]
    by (simp add: phases_ok_def add_route_def c Let_def del: upt_Suc)
qed

lemma routes_loop_phases: "routes_loop R w rs res = Inr res' \<Longrightarrow> phases_ok res \<Longrightarrow> phases_ok res'"
  by (induction R w rs res rule: routes_loop.induct) (auto simp: bind_result_Inr_iff add_route_phases split: if_splits)

lemma compiled_phases: "compile_website_routes R w = Inr routes \<Longrightarrow> phases_ok routes"
  unfolding compile_website_routes_def by (erule routes_loop_phases) (simp add: phases_ok_def)

text \<open>The pieces of an accepted template refer to groups the pattern has.\<close>

lemma capture_loop_groups:
  "capture_template t groups \<Longrightarrow> Group n \<in> set (capture_loop lit t) \<Longrightarrow> int n \<le> groups"
proof (induction t groups arbitrary: lit rule: capture_template.induct)
  case (2 c cs groups)
  have flush: "Group n \<notin> set (flush lit)" for lit by (simp add: flush_def)
  show ?case
  proof (cases "c = CHR ''$'' \<and> cs \<noteq> []")
    case False
    with 2 show ?thesis by (cases cs) (auto simp: flush split: if_splits)
  next
    case True
    consider "hd cs = CHR ''$''" | "hd cs \<noteq> CHR ''$''" "hd cs \<noteq> CHR ''{''" | "hd cs = CHR ''{''" by blast
    then show ?thesis
    proof cases
      case 3
      with True "2.prems"(1) have t: "\<not> length cs < 3" "\<not> byte (cs ! 1) < 48" "\<not> byte (cs ! 1) > 57" "cs ! 2 = CHR ''}''"
        "int (byte (cs ! 1)) - 48 \<le> groups" "capture_template (drop 3 cs) groups" by (auto split: if_splits)
      have "capture_loop lit (c # cs) = flush lit @ Group (byte (cs ! 1) - 48) # capture_loop [] (drop 3 cs)"
        using True 3 t by (simp add: is_digit_def hd_conv_nth)
      with "2.prems"(2) t "2.IH"(4) [of "[]"] True 3 show ?thesis by (auto simp: flush)
    qed (use True 2 in \<open>auto simp: hd_conv_nth split: if_splits\<close>)
  qed
qed (auto simp: flush_def split: if_splits)

subsection \<open>A website that passes\<close>

definition sample_origin :: Origin where
  "sample_origin = \<lparr>o_id = ''o1'', o_protocol = ''http'', o_host = ''10.0.0.1'', o_port = 80, o_role = ''primary'',
     o_weight = 1, o_enabled = True, o_group = []\<rparr>"

definition sample_rule :: RouteRule where
  "sample_rule = empty_RouteRule\<lparr>rr_id := ''r1'', rr_enabled := True, rr_match_type := ''prefix'', rr_path := ''/a'',
     rr_action := ''proxy'', rr_rewrite_mode := ''replace_prefix'', rr_rewrite_path := ''/b'',
     rr_origin_ids := [''o1'']\<rparr>"

definition sample_site :: Website where
  "sample_site = empty_Website\<lparr>w_id := ''w1'', w_enabled := True, w_revision := 1,
     w_domains := [\<lparr>d_hostname = ''example.com'', d_https_enabled = False, d_certificate_digest = []\<rparr>],
     w_origins := [sample_origin], w_origin_connect_timeout_seconds := 5, w_origin_read_timeout_seconds := 30,
     w_route_rules := [sample_rule]\<rparr>"

lemma sample_rule_ok: "route_rule_error R sample_site {} sample_rule = None"
  by (simp add: route_rule_error_def bad_regex_def bad_options_def bad_shape_def action_error_def sample_rule_def
      empty_RouteRule_def check_def clean_text_def rewrite_mode_def query_mode_def query_string_def
      path_only_def valid_match_type_def route_path_def single_line_def route_methods_def route_headers_def
      route_origin_group_def route_origin_ids_def enabled_ids_def sample_site_def sample_origin_def
      byte_def Let_def)

lemma sample_site_ok: "validate_website R A P sample_site = None"
proof -
  have "validate_route_rules R sample_site = None"
    using sample_rule_ok [of R] by (simp add: validate_route_rules_def check_def sample_site_def)
  moreover have "validate_website_basics sample_site = None"
    by (simp add: validate_website_basics_def bad_health_check_def validate_access_log_def check_def
        validate_response_compression_def validate_compression_match_values_def sample_site_def empty_Website_def)
  moreover have "validate_website_origins sample_site = None"
    by (simp add: validate_website_origins_def bad_origin_def check_def sample_site_def sample_origin_def
        empty_Website_def group_or_default_def Let_def)
  moreover have "hostname ''example.com'' = ''example.com''" by code_simp
  then have "validate_website_domains sample_site = None"
    by (simp add: validate_website_domains_def first_error.simps(2) check_def sample_site_def empty_Website_def Let_def)
  ultimately show ?thesis by (simp add: validate_website_def sample_site_def empty_Website_def)
qed

lemma sample_site_enabled: "w_enabled sample_site"
  by (simp add: sample_site_def)

definition sample_compiled :: compiled_route_rule where
  "sample_compiled = \<lparr>crr_id = ''r1'', crr_action = Proxy, crr_match = Match_prefix, crr_rewrite = Replace_prefix,
     crr_query = Preserve, crr_path = ''/a'', crr_prefix_open = False, crr_pattern = None, crr_methods = [],
     crr_hostnames = [], crr_conditions = [], crr_rewrite_path = ''/b'', crr_query_string = [], crr_redirect_url = [],
     crr_rewrite_template = [], crr_redirect_template = [], crr_redirect_status = 0, crr_origin_group = [],
     crr_origin_ids = [''o1''], crr_origin_plan_index = 1, crr_request_headers = [], crr_response_headers = []\<rparr>"

definition sample_routes :: compiled_website_routes where
  "sample_routes = \<lparr>cwr_default_origin_group = [],
     cwr_origin_plans = [origin_plan sample_site [] [], origin_plan sample_site ''default'' [''o1'']],
     cwr_rules = [sample_compiled], cwr_redirects = [], cwr_transforms = [0], cwr_proxies = [0]\<rparr>"

lemma sample_rule_compiles: "compile_route_rule R sample_rule = Inr (sample_compiled\<lparr>crr_origin_plan_index := 0\<rparr>)"
  by (simp add: compile_route_rule_def compile_action_def compile_match_def compile_rewrite_def compile_query_def
      sample_rule_def sample_compiled_def empty_RouteRule_def ends_with_def Let_def)

lemma sample_site_compiles: "compile_website_routes R sample_site = Inr sample_routes"
proof -
  have fields: "w_route_rules sample_site = [sample_rule]" "w_default_origin_group sample_site = []" "rr_enabled sample_rule"
    by (simp_all add: sample_site_def sample_rule_def empty_Website_def)
  show ?thesis
    unfolding compile_website_routes_def fields
    by (simp add: fields sample_rule_compiles add_route_def choose_plan_def effective_group_def group_or_default_def Let_def)
      (simp add: sample_compiled_def sample_routes_def)
qed

theorem route_plans_shared_witness:
  "compile_website_routes sample_re2 sample_site = Inr sample_routes \<and>
   cwr_origin_plans sample_routes ! crr_origin_plan_index sample_compiled =
     origin_plan sample_site (effective_group [] []) [''o1'']"
proof -
  have "sample_compiled \<in> set (cwr_rules sample_routes)" "crr_action sample_compiled = Proxy"
    by (simp_all add: sample_routes_def sample_compiled_def)
  from route_plans_shared [OF sample_site_compiles this] show ?thesis
    by (simp add: sample_site_compiles) (simp add: sample_compiled_def sample_site_def empty_Website_def)
qed

theorem validated_websites_load_witness:
  "\<exists>program. route_program sample_re2 [sample_site] = Inr program \<and>
     (\<exists>routes. program_website program 0 = Some routes \<and> \<not> plan_empty (cwr_origin_plans routes ! 0))"
proof -
  have "list_all (\<lambda>w. validate_website sample_re2 sample_asio sample_protobuf w = None) [sample_site]"
    by (simp add: sample_site_ok)
  from validated_websites_load [OF this] sample_site_enabled show ?thesis by fastforce
qed

end
