(* ===== verification/Route_Rules.thy ===== *)
theory Route_Rules
  imports Route_Program
begin

text \<open>
  \<open>src/node/data/route_rules.h\<close>: matching a request against the compiled rules and the policy that
  results.  Redirects are tried first, transforms rewrite the target (all against the original
  request), and proxy rules match the rewritten target.  A policy that borrows from the program is
  a copy here; the lazily parsed query is computed where it is used.
\<close>

subsection \<open>Matching\<close>

type_synonym headers = "(string \<times> string) list"

record route_match_context =
  ctx_method :: string
  ctx_target :: string
  ctx_hostname :: string
  ctx_headers :: headers

definition ctx_path :: "route_match_context \<Rightarrow> string" where
  "ctx_path ctx = before CHR ''?'' (ctx_target ctx)"

definition with_target :: "string \<Rightarrow> route_match_context \<Rightarrow> route_match_context" where
  "with_target target ctx = ctx\<lparr>ctx_target := target\<rparr>"

text \<open>Whether a name is present, and whether it has the value.\<close>

definition look_for :: "(string \<Rightarrow> bool) \<Rightarrow> (string \<Rightarrow> bool) \<Rightarrow> headers \<Rightarrow> bool \<times> bool" where
  "look_for named valued hs = (list_ex (\<lambda>(n, v). named n) hs, list_ex (\<lambda>(n, v). named n \<and> valued v) hs)"

definition condition_result :: "route_condition_op \<Rightarrow> bool \<times> bool \<Rightarrow> bool" where
  "condition_result op found =
     (case found of (present, equal) \<Rightarrow>
      case op of Equals \<Rightarrow> equal | Not_equals \<Rightarrow> present \<and> \<not> equal | Exists \<Rightarrow> present | Absent \<Rightarrow> \<not> present)"

definition route_condition_matches :: "compiled_route_condition \<Rightarrow> route_match_context \<Rightarrow> bool" where
  "route_condition_matches c ctx =
     (case ccon_source c of
        From_header \<Rightarrow> condition_result (ccon_op c)
          (look_for (\<lambda>n. ascii_equal n (ccon_name c)) (\<lambda>v. trim_ows v = ccon_value c) (ctx_headers ctx))
      | From_query \<Rightarrow>
          (case get_query_values (ctx_target ctx) of
             None \<Rightarrow> False
           | Some q \<Rightarrow> condition_result (ccon_op c) (look_for (\<lambda>n. n = ccon_name c) (\<lambda>v. v = ccon_value c) q)))"

text \<open>A regular expression rule always has its pattern; the compiler sees to it.\<close>

definition path_matches :: "re2 \<Rightarrow> compiled_route_rule \<Rightarrow> string \<Rightarrow> bool" where
  "path_matches R r path =
     (case crr_match r of
        Match_regex \<Rightarrow> (case crr_pattern r of None \<Rightarrow> False | Some p \<Rightarrow> partial_match R default_options p path)
      | Match_suffix \<Rightarrow> ends_with path (crr_path r)
      | Match_exact \<Rightarrow> path = crr_path r
      | Match_prefix \<Rightarrow> starts_with path (crr_path r) \<and>
          (crr_prefix_open r \<or> length path = length (crr_path r) \<or> path ! length (crr_path r) = CHR ''/''))"

definition route_matches :: "re2 \<Rightarrow> compiled_route_rule \<Rightarrow> route_match_context \<Rightarrow> bool" where
  "route_matches R r ctx =
     (if crr_methods r \<noteq> [] \<and> ctx_method ctx \<notin> set (crr_methods r) then False
      else if crr_hostnames r \<noteq> [] \<and> ctx_hostname ctx \<notin> set (crr_hostnames r) then False
      else if list_ex (\<lambda>c. \<not> route_condition_matches c ctx) (crr_conditions r) then False
      else path_matches R r (ctx_path ctx))"

subsection \<open>Rewriting\<close>

definition capture_at :: "string list \<Rightarrow> nat \<Rightarrow> string" where
  "capture_at captures n = (if n < length captures then captures ! n else [])"

fun expand_loop :: "string list \<Rightarrow> route_capture_template \<Rightarrow> string \<Rightarrow> string option" where
  "expand_loop captures [] result = Some result"
| "expand_loop captures (p # ps) result =
     (let result = result @ (case p of Piece t \<Rightarrow> t | Group n \<Rightarrow> capture_at captures n) in
      if length result > 16384 then None else expand_loop captures ps result)"

definition expand_route_captures :: "re2 \<Rightarrow> route_capture_template \<Rightarrow> string \<Rightarrow> string \<Rightarrow> string option" where
  "expand_route_captures R t path pattern =
     (case match_groups R default_options pattern path of
        None \<Rightarrow> None
      | Some captures \<Rightarrow>
          (case expand_loop captures t [] of
             None \<Rightarrow> None
           | Some result \<Rightarrow> if \<not> clean_text result 16384 \<or> CHR '' '' \<in> set result then None else Some result))"

definition query_part :: "string \<Rightarrow> string" where
  "query_part s = dropWhile (\<lambda>c. c \<noteq> CHR ''?'') s"

definition apply_route_query :: "string \<Rightarrow> string \<Rightarrow> route_query_kind \<Rightarrow> string \<Rightarrow> string" where
  "apply_route_query destination incoming mode replacement =
     (let fragment = dropWhile (\<lambda>c. c \<noteq> CHR ''#'') destination; base = before CHR ''#'' destination in
      (if mode = Drop \<or> mode = Replace then
         before CHR ''?'' base @ (if mode = Replace \<and> replacement \<noteq> [] then CHR ''?'' # replacement else [])
       else base @ (if CHR ''?'' \<notin> set base then query_part incoming else [])) @ fragment)"

definition join_paths :: "string \<Rightarrow> string \<Rightarrow> string" where
  "join_paths front suffix =
     (if suffix = [] then (if front = [] then ''/'' else front)
      else if ends_with front ''/'' \<and> starts_with suffix ''/'' then front @ tl suffix
      else if \<not> ends_with front ''/'' \<and> \<not> starts_with suffix ''/'' then front @ ''/'' @ suffix
      else front @ suffix)"

definition rewrite_route_path :: "re2 \<Rightarrow> string \<Rightarrow> compiled_route_rule \<Rightarrow> string option" where
  "rewrite_route_path R path r =
     (case crr_rewrite r of
        Keep_path \<Rightarrow> Some path
      | Replace_path \<Rightarrow>
          if crr_match r = Match_regex then
            (case crr_pattern r of None \<Rightarrow> None | Some p \<Rightarrow> expand_route_captures R (crr_rewrite_template r) path p)
          else Some (crr_rewrite_path r)
      | _ \<Rightarrow>
          if \<not> starts_with path (crr_path r) then Some path
          else Some (join_paths (if crr_rewrite r = Strip_prefix then ''/'' else crr_rewrite_path r)
            (drop (length (crr_path r)) path)))"

definition route_redirect_location :: "re2 \<Rightarrow> string \<Rightarrow> compiled_route_rule \<Rightarrow> string" where
  "route_redirect_location R target r =
     (if crr_match r = Match_regex then
        (case crr_pattern r of
           None \<Rightarrow> []
         | Some p \<Rightarrow>
             (case expand_route_captures R (crr_redirect_template r) (before CHR ''?'' target) p of
                None \<Rightarrow> []
              | Some expanded \<Rightarrow> apply_route_query expanded target (crr_query r) (crr_query_string r)))
      else apply_route_query (crr_redirect_url r) target (crr_query r) (crr_query_string r))"

subsection \<open>Evaluation\<close>

record evaluated_route_policy =
  pol_id :: string
  pol_action :: string
  pol_origin_group :: string
  pol_origin_ids :: "string list"
  pol_origin_plan :: origin_plan
  pol_redirect_url :: string
  pol_redirect_status :: nat
  pol_rewritten_target :: string
  pol_request_headers :: "HeaderMutation list"
  pol_response_headers :: "HeaderMutation list"

definition new_policy :: "compiled_website_routes \<Rightarrow> evaluated_route_policy" where
  "new_policy plan = \<lparr>pol_id = [], pol_action = ''proxy'', pol_origin_group = cwr_default_origin_group plan,
     pol_origin_ids = [], pol_origin_plan = cwr_origin_plans plan ! 0, pol_redirect_url = [],
     pol_redirect_status = 0, pol_rewritten_target = [], pol_request_headers = [], pol_response_headers = []\<rparr>"

text \<open>The first matching redirect; its policy, or nothing when the location cannot be built.\<close>

definition redirect_policy :: "re2 \<Rightarrow> compiled_website_routes \<Rightarrow> string \<Rightarrow> compiled_route_rule \<Rightarrow>
    evaluated_route_policy option" where
  "redirect_policy R plan target r =
     (let location = route_redirect_location R target r in
      if location = [] then None
      else Some ((new_policy plan)\<lparr>pol_id := crr_id r, pol_action := ''redirect'', pol_redirect_url := location,
        pol_redirect_status := crr_redirect_status r, pol_response_headers := crr_response_headers r\<rparr>))"

text \<open>One matching transform applied to the target rewritten so far.\<close>

definition transform_target :: "re2 \<Rightarrow> string \<Rightarrow> compiled_route_rule \<Rightarrow> string \<Rightarrow> string option" where
  "transform_target R target r rewritten =
     (let query_only = (\<lambda>t. if crr_query r \<noteq> Preserve
          then apply_route_query t target (crr_query r) (crr_query_string r) else t) in
      if crr_rewrite r \<noteq> Keep_path then
        (case rewrite_route_path R (before CHR ''?'' target) r of
           None \<Rightarrow> None
         | Some path \<Rightarrow>
             let cand = apply_route_query path target (crr_query r) (crr_query_string r) in
             if cand = [] then None
             else Some (query_only (before CHR ''?'' cand @ query_part rewritten)))
      else Some (query_only rewritten))"

fun transforms_loop :: "re2 \<Rightarrow> route_match_context \<Rightarrow> compiled_route_rule list \<Rightarrow> string \<Rightarrow> string option" where
  "transforms_loop R incoming [] rewritten = Some rewritten"
| "transforms_loop R incoming (r # rs) rewritten =
     (if \<not> route_matches R r incoming then transforms_loop R incoming rs rewritten
      else case transform_target R (ctx_target incoming) r rewritten of
          None \<Rightarrow> None
        | Some t \<Rightarrow> transforms_loop R incoming rs t)"

fun merge_header :: "HeaderMutation \<Rightarrow> HeaderMutation list \<Rightarrow> HeaderMutation list" where
  "merge_header change [] = [change]"
| "merge_header change (h # hs) =
     (if ascii_equal (hm_name h) (hm_name change) then change # hs else h # merge_header change hs)"

definition merge_headers :: "HeaderMutation list \<Rightarrow> HeaderMutation list \<Rightarrow> HeaderMutation list" where
  "merge_headers destination changes = foldl (\<lambda>d c. merge_header c d) destination changes"

definition apply_proxy :: "compiled_website_routes \<Rightarrow> compiled_route_rule \<Rightarrow> evaluated_route_policy \<Rightarrow>
    evaluated_route_policy" where
  "apply_proxy plan r p = p\<lparr>pol_id := crr_id r, pol_origin_group := crr_origin_group r,
     pol_origin_ids := crr_origin_ids r, pol_origin_plan := cwr_origin_plans plan ! crr_origin_plan_index r,
     pol_request_headers := merge_headers (pol_request_headers p) (crr_request_headers r),
     pol_response_headers := merge_headers (pol_response_headers p) (crr_response_headers r)\<rparr>"

definition apply_proxies :: "re2 \<Rightarrow> compiled_website_routes \<Rightarrow> route_match_context \<Rightarrow> evaluated_route_policy \<Rightarrow>
    evaluated_route_policy" where
  "apply_proxies R plan ctx p =
     foldl (\<lambda>p i. if route_matches R (cwr_rules plan ! i) ctx then apply_proxy plan (cwr_rules plan ! i) p else p)
       p (cwr_proxies plan)"

definition evaluate_route_rules :: "re2 \<Rightarrow> compiled_website_routes \<Rightarrow> string \<Rightarrow> string \<Rightarrow> string \<Rightarrow> headers \<Rightarrow>
    evaluated_route_policy option" where
  "evaluate_route_rules R plan meth target host hs =
     (if cwr_rules plan = [] then Some ((new_policy plan)\<lparr>pol_rewritten_target := target\<rparr>)
      else
        let incoming = \<lparr>ctx_method = meth, ctx_target = target, ctx_hostname = hostname host, ctx_headers = hs\<rparr> in
        case find (\<lambda>i. route_matches R (cwr_rules plan ! i) incoming) (cwr_redirects plan) of
          Some i \<Rightarrow> redirect_policy R plan target (cwr_rules plan ! i)
        | None \<Rightarrow>
            (case transforms_loop R incoming (map ((!) (cwr_rules plan)) (cwr_transforms plan)) target of
               None \<Rightarrow> None
             | Some rewritten \<Rightarrow>
                 Some (apply_proxies R plan (if rewritten \<noteq> target then with_target rewritten incoming else incoming)
                   ((new_policy plan)\<lparr>pol_rewritten_target := rewritten\<rparr>))))"

definition apply_route_headers :: "headers \<Rightarrow> HeaderMutation list \<Rightarrow> headers" where
  "apply_route_headers hs mutations =
     (if mutations = [] then hs
      else filter (\<lambda>h. \<not> list_ex (\<lambda>m. ascii_equal (fst h) (hm_name m)) mutations) hs @
        map (\<lambda>m. (hm_name m, hm_value m)) mutations)"

subsection \<open>A request of a validated website has origins\<close>

lemma apply_proxies_plan:
  assumes "Q (pol_origin_plan p)"
    and "\<And>i. i \<in> set (cwr_proxies plan) \<Longrightarrow> Q (cwr_origin_plans plan ! crr_origin_plan_index (cwr_rules plan ! i))"
  shows "Q (pol_origin_plan (apply_proxies R plan ctx p))"
proof -
  have "Q (pol_origin_plan (foldl (\<lambda>p i. if route_matches R (cwr_rules plan ! i) ctx
      then apply_proxy plan (cwr_rules plan ! i) p else p) p is))" if "set is \<subseteq> set (cwr_proxies plan)" "Q (pol_origin_plan p)" for "is" p
    using that assms(2) by (induction "is" arbitrary: p) (simp_all add: apply_proxy_def)
  with assms(1) show ?thesis by (simp add: apply_proxies_def)
qed

lemma apply_proxies_target [simp]: "pol_rewritten_target (apply_proxies R plan ctx p) = pol_rewritten_target p"
proof -
  have "pol_rewritten_target (foldl (\<lambda>p i. if route_matches R (cwr_rules plan ! i) ctx
      then apply_proxy plan (cwr_rules plan ! i) p else p) p is) = pol_rewritten_target p" for "is" p
    by (induction "is" arbitrary: p) (simp_all add: apply_proxy_def)
  then show ?thesis by (simp add: apply_proxies_def)
qed

text \<open>
  Whatever a request asks for, the policy of a validated, enabled website comes with a plan of the
  website that has at least one origin to try.
\<close>

lemma evaluated_policy_plan:
  assumes "validate_website R A P w = None" "w_enabled w" "compile_website_routes R w = Inr routes"
    and "evaluate_route_rules R routes meth target host hs = Some p"
  shows "\<exists>grp ids. pol_origin_plan p = origin_plan w grp ids \<and> \<not> plan_empty (pol_origin_plan p)"
proof -
  define good where "good plan \<longleftrightarrow> (\<exists>grp ids. plan = origin_plan w grp ids \<and> \<not> plan_empty plan)" for plan
  from valid_website_routes [OF assms(1,2)] assms(3) have routes: "plans_ok w routes" "\<not> plan_empty (cwr_origin_plans routes ! 0)"
    "\<And>c. c \<in> set (cwr_rules routes) \<Longrightarrow> crr_action c = Proxy \<Longrightarrow> \<not> plan_empty (rule_plan w c)" by auto
  have start: "good (pol_origin_plan (new_policy routes))"
    using routes(1,2) by (auto simp: new_policy_def plans_ok_def good_def)
  have proxy: "good (cwr_origin_plans routes ! crr_origin_plan_index (cwr_rules routes ! i))"
    if "i \<in> set (cwr_proxies routes)" for i
  proof -
    have "cwr_rules routes ! i \<in> set (cwr_rules routes)" "crr_action (cwr_rules routes ! i) = Proxy"
      using that compiled_phases [OF assms(3)] by (auto simp: phases_ok_def)
    with routes show ?thesis by (auto simp: plans_ok_def rule_plan_def good_def)
  qed
  have "good (pol_origin_plan (apply_proxies R routes ctx ((new_policy routes)\<lparr>pol_rewritten_target := t\<rparr>)))" for ctx t
    by (rule apply_proxies_plan) (use start proxy in auto)
  with assms(4) start have "good (pol_origin_plan p)"
    by (auto simp: evaluate_route_rules_def redirect_policy_def Let_def split: if_splits option.splits)
  then show ?thesis by (simp add: good_def)
qed

subsection \<open>Rewritten targets stay absolute\<close>

definition absolute :: "string \<Rightarrow> bool" where
  "absolute s \<longleftrightarrow> s \<noteq> [] \<and> hd s = CHR ''/''"

lemma absolute_simps [simp]: "\<not> absolute []" "absolute (c # s) \<longleftrightarrow> c = CHR ''/''"
  by (simp_all add: absolute_def)

lemma absolute_append [simp]: "absolute s \<Longrightarrow> absolute (s @ t)"
  by (simp add: absolute_def)

lemma absolute_before [simp]: "absolute s \<Longrightarrow> c \<noteq> CHR ''/'' \<Longrightarrow> absolute (before c s)"
  by (cases s) (auto simp: before_eq)

lemma absolute_apply_route_query [simp]:
  "absolute s \<Longrightarrow> absolute (apply_route_query s target mode rep)"
  by (simp add: apply_route_query_def Let_def)

lemma absolute_join [simp]: "absolute front \<Longrightarrow> absolute (join_paths front suffix)"
  by (cases front) (auto simp: join_paths_def)

lemma expand_loop_prefix: "expand_loop captures ps acc = Some r \<Longrightarrow> \<exists>t. r = acc @ t"
proof (induction ps arbitrary: acc)
  case (Cons p ps)
  then show ?case by (fastforce simp: Let_def split: if_splits)
qed simp

lemma capture_loop_prefix:
  "lit \<noteq> [] \<Longrightarrow> \<exists>t ps. capture_loop lit s = Piece (lit @ t) # ps"
proof (induction lit s rule: capture_loop.induct)
  case (2 lit c cs)
  let ?dollar = "c = CHR ''$'' \<and> cs \<noteq> [] \<and> hd cs = CHR ''$''"
  let ?group = "c = CHR ''$'' \<and> length cs \<ge> 3 \<and> cs ! 0 = CHR ''{'' \<and> is_digit (cs ! 1) \<and> cs ! 2 = CHR ''}''"
  consider ?dollar | "\<not> ?dollar" ?group | "\<not> ?dollar" "\<not> ?group" by blast
  then show ?case
  proof cases
    case 1
    from "2.IH"(1) [OF 1] obtain t ps where "capture_loop (lit @ ''$'') (tl cs) = Piece ((lit @ ''$'') @ t) # ps" by auto
    with 1 show ?thesis by simp
  next
    case 2
    then have "capture_loop lit (c # cs) = flush lit @ Group (byte (cs ! 1) - 48) # capture_loop [] (drop 3 cs)"
      unfolding capture_loop.simps by auto
    with \<open>lit \<noteq> []\<close> show ?thesis by (simp add: flush_def)
  next
    case 3
    from "2.IH"(3) [OF 3] obtain t ps where "capture_loop (lit @ [c]) cs = Piece ((lit @ [c]) @ t) # ps" by auto
    moreover have "capture_loop lit (c # cs) = capture_loop (lit @ [c]) cs" using 3 unfolding capture_loop.simps by auto
    ultimately show ?thesis by simp
  qed
qed (simp add: flush_def)

lemma capture_loop_absolute:
  assumes "absolute s"
  shows "\<exists>t ps. capture_loop [] s = Piece (CHR ''/'' # t) # ps"
proof -
  obtain s' where s: "s = CHR ''/'' # s'" using assms by (cases s) auto
  have "capture_loop [] s = capture_loop ''/'' s'" by (simp add: s)
  with capture_loop_prefix [of "''/''" s'] show ?thesis by auto
qed

lemma expand_absolute:
  assumes "expand_route_captures R (capture_loop [] s) path pat = Some r" "absolute s"
  shows "absolute r"
proof -
  from capture_loop_absolute [OF assms(2)] obtain t ps where c: "capture_loop [] s = Piece (CHR ''/'' # t) # ps" by blast
  from assms(1) obtain captures where "expand_loop captures (capture_loop [] s) [] = Some r"
    by (auto simp: expand_route_captures_def split: option.splits if_splits)
  then have "expand_loop captures ps (CHR ''/'' # t) = Some r" by (auto simp: c Let_def split: if_splits)
  from expand_loop_prefix [OF this] show ?thesis by auto
qed

text \<open>What validation and compilation guarantee of a rule that rewrites.\<close>

definition rewrite_ok :: "compiled_route_rule \<Rightarrow> bool" where
  "rewrite_ok r \<longleftrightarrow> crr_rewrite r \<in> {Replace_path, Replace_prefix} \<longrightarrow> absolute (crr_rewrite_path r) \<and>
     (crr_match r = Match_regex \<longrightarrow> crr_rewrite_template r = capture_loop [] (crr_rewrite_path r))"

lemma rewrite_route_path_absolute:
  assumes "rewrite_ok r" "absolute path" "rewrite_route_path R path r = Some p"
  shows "absolute p"
  using assms
  by (cases "crr_rewrite r")
    (auto simp: rewrite_route_path_def rewrite_ok_def expand_absolute split: if_splits option.splits)

lemma transform_target_absolute:
  assumes "rewrite_ok r" "absolute target" "absolute t" "transform_target R target r t = Some t'"
  shows "absolute t'"
proof (cases "crr_rewrite r = Keep_path")
  case True
  with assms show ?thesis by (auto simp: transform_target_def Let_def)
next
  case False
  with assms(4) obtain path where "rewrite_route_path R (before CHR ''?'' target) r = Some path"
    and t': "t' = (if crr_query r \<noteq> Preserve
      then apply_route_query (before CHR ''?'' (apply_route_query path target (crr_query r) (crr_query_string r)) @ query_part t) target
        (crr_query r) (crr_query_string r)
      else before CHR ''?'' (apply_route_query path target (crr_query r) (crr_query_string r)) @ query_part t)"
    by (auto simp: transform_target_def Let_def split: option.splits if_splits)
  from rewrite_route_path_absolute [OF assms(1) _ this(1)] assms(2) have "absolute path" by simp
  then show ?thesis unfolding t' by simp
qed

lemma transforms_absolute:
  assumes "list_all rewrite_ok rs" "absolute (ctx_target ctx)" "absolute t" "transforms_loop R ctx rs t = Some t'"
  shows "absolute t'"
  using assms(1,3,4)
proof (induction rs arbitrary: t)
  case (Cons r rs)
  show ?case
  proof (cases "route_matches R r ctx")
    case True
    with Cons.prems(3) obtain t1 where t1: "transform_target R (ctx_target ctx) r t = Some t1" "transforms_loop R ctx rs t1 = Some t'"
      by (auto split: option.splits)
    have "absolute t1" by (rule transform_target_absolute [OF _ assms(2) Cons.prems(2) t1(1)]) (use Cons.prems(1) in simp)
    with Cons.IH t1(2) Cons.prems(1) show ?thesis by simp
  qed (use Cons in simp)
qed simp

lemma path_only_absolute: "path_only s \<Longrightarrow> absolute s"
  by (auto simp: path_only_def absolute_def)

lemma compile_rewrite_path:
  assumes "compile_rewrite source = Inr k" "k \<in> {Replace_path, Replace_prefix}" "\<not> bad_options source"
  shows "rr_rewrite_path source \<noteq> []"
proof -
  have "rr_rewrite_mode source = ''replace_path'' \<or> rr_rewrite_mode source = ''replace_prefix'' \<longrightarrow> rr_rewrite_path source \<noteq> []"
    using assms(3) unfolding bad_options_def Let_def by blast
  with assms(1,2) show ?thesis by (auto simp: compile_rewrite_def Let_def split: if_splits)
qed

lemma compiled_rewrite_ok:
  assumes "compile_route_rule R source = Inr c" "route_rule_error R w ids source = None" "crr_action c \<noteq> Redirect"
  shows "rewrite_ok c"
proof -
  from assms(2) have ok: "\<not> bad_options source" "action_error w source = None" by (auto simp: route_rule_error_def)
  from assms(1) obtain action k p a b rewrite where parts: "compile_action (rr_action source) = Inr action"
    "compile_match R source = Inr (k, p, a, b)" "compile_rewrite source = Inr rewrite"
    "crr_action c = action" "crr_match c = k" "crr_rewrite_template c = a" "crr_rewrite c = rewrite"
    "crr_rewrite_path c = rr_rewrite_path source"
    by (auto simp: compile_route_rule_def bind_result_Inr_iff)
  have "a = capture_loop [] (rr_rewrite_path source)" if "k = Match_regex"
    using parts(2) that
    by (auto simp: compile_match_def compile_capture_template_def bind_result_Inr_iff Let_def split: if_splits option.splits)
  moreover have "absolute (rr_rewrite_path source)" if "rewrite \<in> {Replace_path, Replace_prefix}"
  proof -
    have "rr_rewrite_path source \<noteq> []" by (rule compile_rewrite_path [OF parts(3) that ok(1)])
    moreover have "rr_action source = ''proxy'' \<or> rr_action source = ''rewrite''"
      using parts(1,4) assms(3) by (auto simp: compile_action_def split: if_splits)
    ultimately have "path_only (rr_rewrite_path source)" using ok(2) by (auto simp: action_error_def)
    then show ?thesis by (rule path_only_absolute)
  qed
  ultimately show ?thesis using parts by (simp add: rewrite_ok_def)
qed

text \<open>
  Claim C3.  Rewriting never breaks the request line: for a validated, enabled website a request
  whose target starts with a slash is proxied with a target that starts with a slash, whatever
  rules, captures and query changes apply.
\<close>

theorem rewritten_target_absolute:
  assumes "validate_website R A P w = None" "w_enabled w" "compile_website_routes R w = Inr routes"
    and "evaluate_route_rules R routes meth target host hs = Some p" "absolute target" "pol_redirect_url p = []"
  shows "absolute (pol_rewritten_target p)"
proof -
  from assms(1,2) have ok: "route_rules_loop R w {} (w_route_rules w) = None"
    by (auto simp: validate_website_def validate_route_rules_def)
  have "rewrite_ok (cwr_rules routes ! i)" if i: "i \<in> set (cwr_transforms routes)" for i
  proof -
    have rule: "cwr_rules routes ! i \<in> set (cwr_rules routes)" "crr_action (cwr_rules routes ! i) \<noteq> Redirect"
      using i compiled_phases [OF assms(3)] by (auto simp: phases_ok_def)
    from compiled_rule_source [OF assms(3) rule(1)] obtain r c0 j where
      r: "r \<in> set (w_route_rules w)" "compile_route_rule R r = Inr c0" "cwr_rules routes ! i = c0\<lparr>crr_origin_plan_index := j\<rparr>" by blast
    from route_rules_loop_None [OF ok r(1)] obtain ids where "route_rule_error R w ids r = None" by blast
    from compiled_rewrite_ok [OF r(2) this] rule(2) r(3) show ?thesis by (simp add: rewrite_ok_def)
  qed
  then have all_ok: "list_all rewrite_ok (map ((!) (cwr_rules routes)) (cwr_transforms routes))" by (simp add: list_all_iff)
  let ?ctx = "\<lparr>ctx_method = meth, ctx_target = target, ctx_hostname = hostname host, ctx_headers = hs\<rparr>"
  have "absolute t" if "transforms_loop R ?ctx (map ((!) (cwr_rules routes)) (cwr_transforms routes)) target = Some t" for t
    by (rule transforms_absolute [OF all_ok _ assms(5) that]) (simp add: assms(5))
  with assms(4-6) show ?thesis
    by (auto simp: evaluate_route_rules_def redirect_policy_def Let_def split: if_splits option.splits)
qed

subsection \<open>Header changes\<close>

definition header_lookup :: "HeaderMutation list \<Rightarrow> string \<Rightarrow> string option" where
  "header_lookup hs n = map_option hm_value (find (\<lambda>h. ascii_equal (hm_name h) n) hs)"

lemma ascii_equal_fold: "ascii_equal a b \<longleftrightarrow> map lower_ascii a = map lower_ascii b"
proof -
  have "length xs = length ys \<Longrightarrow> ascii_equal_loop xs ys \<longleftrightarrow> map lower_ascii xs = map lower_ascii ys" for xs ys
    by (induction xs ys rule: ascii_equal_loop.induct) auto
  then show ?thesis by (auto simp: ascii_equal_def dest: map_eq_imp_length_eq)
qed

lemma header_lookup_merge:
  "header_lookup (merge_header c hs) n = (if ascii_equal (hm_name c) n then Some (hm_value c) else header_lookup hs n)"
  by (induction c hs rule: merge_header.induct) (auto simp: header_lookup_def ascii_equal_fold)

lemma merge_headers_lookup:
  "header_lookup (merge_headers destination changes) n =
    (case header_lookup (rev changes) n of Some v \<Rightarrow> Some v | None \<Rightarrow> header_lookup destination n)"
proof (induction changes arbitrary: destination rule: rev_induct)
  case (snoc c changes)
  have "header_lookup (rev (changes @ [c])) n =
      (if ascii_equal (hm_name c) n then Some (hm_value c) else header_lookup (rev changes) n)"
    by (simp add: header_lookup_def)
  with snoc [of destination] show ?case
    by (simp add: merge_headers_def header_lookup_merge)
qed (simp add: merge_headers_def header_lookup_def)

lemma header_lookup_append:
  "header_lookup (xs @ ys) n = (case header_lookup xs n of Some v \<Rightarrow> Some v | None \<Rightarrow> header_lookup ys n)"
  by (induction xs) (auto simp: header_lookup_def)

lemma merge_headers_append: "merge_headers (merge_headers d xs) ys = merge_headers d (xs @ ys)"
  by (simp add: merge_headers_def)

text \<open>The names of a list of changes, compared the way header names are.\<close>

definition header_names :: "HeaderMutation list \<Rightarrow> string list" where
  "header_names hs = map (\<lambda>h. map lower_ascii (hm_name h)) hs"

lemma merge_header_names: "header_names (merge_header c hs) =
    (if map lower_ascii (hm_name c) \<in> set (header_names hs) then header_names hs else header_names hs @ [map lower_ascii (hm_name c)])"
  by (induction c hs rule: merge_header.induct) (auto simp: header_names_def ascii_equal_fold)

lemma merge_headers_distinct: "distinct (header_names d) \<Longrightarrow> distinct (header_names (merge_headers d changes))"
  by (induction changes arbitrary: d) (simp_all add: merge_headers_def merge_header_names)

text \<open>
  The proxy rules of a site that a request to the given target matches, in the order of the configuration.
\<close>

definition proxy_hits :: "re2 \<Rightarrow> compiled_website_routes \<Rightarrow> route_match_context \<Rightarrow> compiled_route_rule list" where
  "proxy_hits R routes ctx = filter (\<lambda>r. crr_action r = Proxy \<and> route_matches R r ctx) (cwr_rules routes)"

lemma proxy_hits_phases:
  assumes "phases_ok routes"
  shows "map ((!) (cwr_rules routes)) (filter (\<lambda>i. route_matches R (cwr_rules routes ! i) ctx) (cwr_proxies routes)) =
    proxy_hits R routes ctx"
proof -
  have "map ((!) xs) (filter (\<lambda>i. P (xs ! i)) [0..<length xs]) = filter P xs" for P :: "compiled_route_rule \<Rightarrow> bool" and xs
    using filter_map [of P "(!) xs" "[0..<length xs]"] by (simp add: map_nth comp_def)
  from this [where P = "\<lambda>r. crr_action r = Proxy \<and> route_matches R r ctx" and xs = "cwr_rules routes"] show ?thesis
    using assms by (simp add: phases_ok_def proxy_hits_def conj_commute)
qed

lemma apply_proxies_hits:
  assumes "phases_ok routes"
  shows "apply_proxies R routes ctx p = foldl (\<lambda>p r. apply_proxy routes r p) p (proxy_hits R routes ctx)"
proof -
  have "foldl (\<lambda>p i. if Q i then f (g i) p else p) p is = foldl (\<lambda>p r. f r p) p (map g (filter Q is))"
    for Q :: "nat \<Rightarrow> bool" and f :: "compiled_route_rule \<Rightarrow> evaluated_route_policy \<Rightarrow> evaluated_route_policy" and g p "is"
    by (induction "is" arbitrary: p) simp_all
  then show ?thesis unfolding apply_proxies_def proxy_hits_phases [OF assms, symmetric] .
qed

lemma apply_hits_fields:
  "pol_request_headers (foldl (\<lambda>p r. apply_proxy routes r p) p rs) =
     merge_headers (pol_request_headers p) (concat (map crr_request_headers rs))"
  "pol_response_headers (foldl (\<lambda>p r. apply_proxy routes r p) p rs) =
     merge_headers (pol_response_headers p) (concat (map crr_response_headers rs))"
  "rs \<noteq> [] \<Longrightarrow> pol_id (foldl (\<lambda>p r. apply_proxy routes r p) p rs) = crr_id (last rs) \<and>
     pol_origin_group (foldl (\<lambda>p r. apply_proxy routes r p) p rs) = crr_origin_group (last rs) \<and>
     pol_origin_ids (foldl (\<lambda>p r. apply_proxy routes r p) p rs) = crr_origin_ids (last rs) \<and>
     pol_origin_plan (foldl (\<lambda>p r. apply_proxy routes r p) p rs) = cwr_origin_plans routes ! crr_origin_plan_index (last rs)"
    apply (induction rs arbitrary: p rule: rev_induct) apply (simp_all add: apply_proxy_def merge_headers_append)
    apply (simp_all add: merge_headers_def)
  done

text \<open>The policy of a request that is not redirected: the proxy rules it hits, folded over the default.\<close>

lemma evaluated_hits:
  assumes "phases_ok routes" "evaluate_route_rules R routes meth target host hs = Some p" "pol_redirect_url p = []"
  shows "p = foldl (\<lambda>p r. apply_proxy routes r p) ((new_policy routes)\<lparr>pol_rewritten_target := pol_rewritten_target p\<rparr>)
    (proxy_hits R routes \<lparr>ctx_method = meth, ctx_target = pol_rewritten_target p, ctx_hostname = hostname host, ctx_headers = hs\<rparr>)"
proof (cases "cwr_rules routes = []")
  case True
  with assms(2) show ?thesis by (auto simp: evaluate_route_rules_def proxy_hits_def)
next
  case False
  let ?ctx = "\<lparr>ctx_method = meth, ctx_target = target, ctx_hostname = hostname host, ctx_headers = hs\<rparr>"
  from False assms(2,3) obtain t where
    p: "p = apply_proxies R routes (?ctx\<lparr>ctx_target := t\<rparr>) ((new_policy routes)\<lparr>pol_rewritten_target := t\<rparr>)"
    by (auto simp: evaluate_route_rules_def redirect_policy_def with_target_def Let_def split: option.splits if_splits)
  have "pol_rewritten_target p = t" by (simp add: p)
  then show ?thesis using p apply_proxies_hits [OF assms(1)] by simp
qed

text \<open>
  Claim C5.  Proxy rules are layered.  For a compiled website and a request that is not redirected, let the hits be the
  rules with action proxy that match the request at its rewritten target, in the order of the configuration.  Every
  hit counts: of all header changes of all hits, for requests as for responses, the last change to a name (compared
  without regard to case) is the one the policy has, no name occurs twice in it, and a name no hit changes
  does not occur.  The rule id, the origin group, the origin ids and the origin plan are those of the last
  hit, and without a hit those of the website's default.
\<close>

theorem proxy_rules_layered:
  assumes "compile_website_routes R w = Inr routes"
    and "evaluate_route_rules R routes meth target host hs = Some p" "pol_redirect_url p = []"
    and "hits = filter (\<lambda>r. crr_action r = Proxy \<and> route_matches R r
      \<lparr>ctx_method = meth, ctx_target = pol_rewritten_target p, ctx_hostname = hostname host, ctx_headers = hs\<rparr>) (cwr_rules routes)"
  shows "(\<forall>n. header_lookup (pol_request_headers p) n = header_lookup (rev (concat (map crr_request_headers hits))) n) \<and>
    (\<forall>n. header_lookup (pol_response_headers p) n = header_lookup (rev (concat (map crr_response_headers hits))) n) \<and>
    distinct (header_names (pol_request_headers p)) \<and> distinct (header_names (pol_response_headers p)) \<and>
    pol_action p = ''proxy'' \<and>
    (pol_id p, pol_origin_group p, pol_origin_ids p, pol_origin_plan p) =
      (if hits = [] then ([], cwr_default_origin_group routes, [], cwr_origin_plans routes ! 0)
       else (crr_id (last hits), crr_origin_group (last hits), crr_origin_ids (last hits),
         cwr_origin_plans routes ! crr_origin_plan_index (last hits)))"
proof -
  let ?p = "(new_policy routes)\<lparr>pol_rewritten_target := pol_rewritten_target p\<rparr>"
  have p: "p = foldl (\<lambda>p r. apply_proxy routes r p) ?p hits"
    using evaluated_hits [OF compiled_phases [OF assms(1)] assms(2,3)] by (simp add: assms(4) proxy_hits_def)
  have empty: "header_lookup [] n = None" for n by (simp add: header_lookup_def)
  have headers: "pol_request_headers p = merge_headers [] (concat (map crr_request_headers hits))"
    "pol_response_headers p = merge_headers [] (concat (map crr_response_headers hits))"
    using apply_hits_fields(1,2) [of routes ?p hits] p by (simp_all add: new_policy_def)
  have "pol_action (foldl (\<lambda>p r. apply_proxy routes r p) q rs) = pol_action q" for q rs
    by (induction rs arbitrary: q) (simp_all add: apply_proxy_def)
  then have "pol_action p = ''proxy''" by (subst p) (simp add: new_policy_def)
  moreover have "(pol_id p, pol_origin_group p, pol_origin_ids p, pol_origin_plan p) =
      (if hits = [] then ([], cwr_default_origin_group routes, [], cwr_origin_plans routes ! 0)
       else (crr_id (last hits), crr_origin_group (last hits), crr_origin_ids (last hits),
         cwr_origin_plans routes ! crr_origin_plan_index (last hits)))"
  proof (cases "hits = []")
    case True
    then have "p = ?p" by (subst p) simp
    from arg_cong [OF this, of pol_id] arg_cong [OF this, of pol_origin_group] arg_cong [OF this, of pol_origin_ids]
      arg_cong [OF this, of pol_origin_plan] show ?thesis using True by (simp add: new_policy_def)
  next
    case False
    with apply_hits_fields(3) [OF False, of routes ?p] p show ?thesis by simp
  qed
  moreover have "distinct (header_names (merge_headers [] changes))" for changes
    by (rule merge_headers_distinct) (simp add: header_names_def)
  ultimately show ?thesis
    unfolding headers by (simp add: merge_headers_lookup empty split: option.splits)
qed

subsection \<open>A request\<close>

lemma sample_evaluates:
  "\<exists>p. evaluate_route_rules sample_re2 sample_routes ''GET'' ''/a/x?y'' ''example.com'' [] = Some p \<and>
     pol_redirect_url p = [] \<and> pol_rewritten_target p = ''/b/x?y''"
proof -
  let ?ctx = "\<lparr>ctx_method = ''GET'', ctx_target = ''/a/x?y'', ctx_hostname = hostname ''example.com'', ctx_headers = []\<rparr>"
  have "before CHR ''?'' ''/a/x?y'' = ''/a/x''" by (simp add: before_eq)
  then have m: "route_matches sample_re2 sample_compiled ?ctx"
    by (simp add: route_matches_def sample_compiled_def path_matches_def ctx_path_def )
  have "transform_target sample_re2 ''/a/x?y'' sample_compiled ''/a/x?y'' = Some ''/b/x?y''"
    by (simp add: transform_target_def rewrite_route_path_def sample_compiled_def join_paths_def
        apply_route_query_def query_part_def before_eq ends_with_def Let_def)
  with m have t: "transforms_loop sample_re2 ?ctx [sample_compiled] ''/a/x?y'' = Some ''/b/x?y''" by simp
  have u: "pol_redirect_url (apply_proxies sample_re2 sample_routes ctx ((new_policy sample_routes)\<lparr>pol_rewritten_target := t\<rparr>)) = []" for ctx t
    by (simp add: apply_proxies_def sample_routes_def apply_proxy_def new_policy_def)
  have "cwr_redirects sample_routes = []" "cwr_rules sample_routes \<noteq> []"
    "map ((!) (cwr_rules sample_routes)) (cwr_transforms sample_routes) = [sample_compiled]"
    by (simp_all add: sample_routes_def)
  with t u show ?thesis unfolding evaluate_route_rules_def by (simp add: Let_def)
qed

theorem rewritten_target_absolute_witness:
  "\<exists>p. evaluate_route_rules sample_re2 sample_routes ''GET'' ''/a/x?y'' ''example.com'' [] = Some p \<and>
     absolute (pol_rewritten_target p)"
proof -
  from sample_evaluates obtain p where
    p: "evaluate_route_rules sample_re2 sample_routes ''GET'' ''/a/x?y'' ''example.com'' [] = Some p" "pol_redirect_url p = []" by blast
  from rewritten_target_absolute [OF sample_site_ok [of sample_re2 sample_asio sample_protobuf] sample_site_enabled
      sample_site_compiles p(1) _ p(2)] p
  show ?thesis by simp
qed

text \<open>Two proxy rules that both match; the second changes a header of the first.\<close>

definition layered_site :: Website where
  "layered_site = sample_site\<lparr>w_route_rules :=
     [sample_rule\<lparr>rr_rewrite_mode := [], rr_rewrite_path := [],
        rr_request_headers := [\<lparr>hm_name = ''X-A'', hm_value = ''1''\<rparr>, \<lparr>hm_name = ''X-B'', hm_value = ''2''\<rparr>]\<rparr>,
      sample_rule\<lparr>rr_id := ''r2'', rr_rewrite_mode := [], rr_rewrite_path := [],
        rr_request_headers := [\<lparr>hm_name = ''x-a'', hm_value = ''3''\<rparr>]\<rparr>]\<rparr>"

definition layered_rules :: "compiled_route_rule list" where
  "layered_rules =
     [sample_compiled\<lparr>crr_rewrite := Keep_path, crr_rewrite_path := [],
        crr_request_headers := [\<lparr>hm_name = ''X-A'', hm_value = ''1''\<rparr>, \<lparr>hm_name = ''X-B'', hm_value = ''2''\<rparr>]\<rparr>,
      sample_compiled\<lparr>crr_id := ''r2'', crr_rewrite := Keep_path, crr_rewrite_path := [],
        crr_request_headers := [\<lparr>hm_name = ''x-a'', hm_value = ''3''\<rparr>]\<rparr>]"

definition layered_routes :: compiled_website_routes where
  "layered_routes = \<lparr>cwr_default_origin_group = [],
     cwr_origin_plans = [origin_plan layered_site [] [], origin_plan layered_site ''default'' [''o1'']],
     cwr_rules = layered_rules, cwr_redirects = [], cwr_transforms = [], cwr_proxies = [0, 1]\<rparr>"

lemma layered_site_compiles: "compile_website_routes sample_re2 layered_site = Inr layered_routes"
proof -
  obtain a b where ab: "w_route_rules layered_site = [a, b]" and
    a: "a = sample_rule\<lparr>rr_rewrite_mode := [], rr_rewrite_path := [],
        rr_request_headers := [\<lparr>hm_name = ''X-A'', hm_value = ''1''\<rparr>, \<lparr>hm_name = ''X-B'', hm_value = ''2''\<rparr>]\<rparr>" and
    b: "b = sample_rule\<lparr>rr_id := ''r2'', rr_rewrite_mode := [], rr_rewrite_path := [],
        rr_request_headers := [\<lparr>hm_name = ''x-a'', hm_value = ''3''\<rparr>]\<rparr>"
    by (simp add: layered_site_def)
  have rules: "compile_route_rule sample_re2 a = Inr ((layered_rules ! 0)\<lparr>crr_origin_plan_index := 0\<rparr>)"
    "compile_route_rule sample_re2 b = Inr ((layered_rules ! 1)\<lparr>crr_origin_plan_index := 0\<rparr>)"
    by (simp_all add: a b layered_rules_def compile_route_rule_def compile_action_def compile_match_def
        compile_rewrite_def compile_query_def sample_rule_def sample_compiled_def empty_RouteRule_def ends_with_def Let_def)
  have fields: "w_default_origin_group layered_site = []" "rr_enabled a" "rr_enabled b"
    by (simp_all add: a b layered_site_def sample_site_def sample_rule_def empty_Website_def)
  show ?thesis
    unfolding compile_website_routes_def ab
    by (simp add: fields rules [unfolded One_nat_def] add_route_def choose_plan_def effective_group_def
        same_origins_def group_or_default_def layered_routes_def layered_rules_def sample_compiled_def Let_def)
qed

theorem proxy_rules_layered_witness:
  "\<exists>p. evaluate_route_rules sample_re2 layered_routes ''GET'' ''/a/x'' ''example.com'' [] = Some p \<and>
     header_lookup (pol_request_headers p) ''X-A'' = Some ''3'' \<and> header_lookup (pol_request_headers p) ''X-B'' = Some ''2'' \<and>
     pol_id p = ''r2''"
proof -
  let ?ctx = "\<lparr>ctx_method = ''GET'', ctx_target = ''/a/x'', ctx_hostname = hostname ''example.com'', ctx_headers = []\<rparr>"
  have rules: "cwr_rules layered_routes = layered_rules" "layered_rules \<noteq> []" by (simp_all add: layered_routes_def layered_rules_def)
  obtain p where p: "evaluate_route_rules sample_re2 layered_routes ''GET'' ''/a/x'' ''example.com'' [] = Some p"
    "pol_redirect_url p = []" "pol_rewritten_target p = ''/a/x''"
    by (simp add: evaluate_route_rules_def layered_routes_def layered_rules_def apply_proxies_def apply_proxy_def
        new_policy_def Let_def)
  have "before CHR ''?'' ''/a/x'' = ''/a/x''" by (simp add: before_eq)
  then have hits: "layered_rules = filter (\<lambda>r. crr_action r = Proxy \<and> route_matches sample_re2 r ?ctx) (cwr_rules layered_routes)"
    by (simp add: rules layered_rules_def route_matches_def sample_compiled_def path_matches_def ctx_path_def)
  let ?changes = "rev (concat (map crr_request_headers layered_rules))"
  have names: "ascii_equal ''x-a'' ''X-A''" "\<not> ascii_equal ''x-a'' ''X-B''" "ascii_equal ''X-B'' ''X-B''" by code_simp+
  have "header_lookup ?changes ''X-A'' = Some ''3''" "header_lookup ?changes ''X-B'' = Some ''2''"
    by (simp_all add: layered_rules_def sample_compiled_def header_lookup_def names)
  moreover have "crr_id (last layered_rules) = ''r2''" by (simp add: layered_rules_def)
  ultimately show ?thesis
    using proxy_rules_layered [OF layered_site_compiles p(1,2), unfolded p(3), OF hits] p(1) rules(2) by simp
qed

end
