(* ===== verification/Spec2Isabelle.thy ===== *)
theory Spec2Isabelle
  imports Cache_Url Range_Response Bytes_Budget Cache_Capacity Security_Program Route_Rules
begin

text \<open>
  A verification of the policy core of FlexEdge, a content delivery network: the code of \<open>src/common\<close> that the
  management service shares with the edge nodes, the validation of what the service publishes, and the
  components of \<open>src/node/data\<close> that decide about a request without touching a socket.

  \<^bold>\<open>The program.\<close>  The service publishes websites, cache policies and security policies to nodes as protobuf
  messages.  Both sides validate them (\<open>src/node/proto\<close>).  A node compiles them for its data workers and then, for
  each request: the security program decides whether it is admitted, with lists, expressions and request
  counters; the route rules redirect it, rewrite it or choose origins; the origin cursor picks an origin by
  weight and health; cache rules and byte ranges shape what is stored and sent.  Workers report their counts and
  health outcomes to an owner, which merges them and publishes snapshots back.

  \<^bold>\<open>Theories and sources.\<close>
  \<^item> \<open>Prelude\<close>: bytes and strings, \<open>from_chars\<close>, sorting by a comparison, results, and the locales
    \<open>strict_weak_order\<close>, \<open>strict_total_order\<close>, \<open>codec\<close> and \<open>state_machine\<close> that the components interpret.
  \<^item> \<open>Route_Policy\<close>, \<open>Hex_Codec\<close>, \<open>Route_Match\<close>, \<open>Cache_Url\<close>: \<open>src/common/route_policy.h\<close>, \<open>hex.h\<close> and
    \<open>sha256.h\<close>, \<open>route_match.h\<close>, \<open>cache_url.h\<close>: host names, tokens, digests, UTF-8, query decoding, addresses.
  \<^item> \<open>Request_Expression\<close>, \<open>Match_List\<close>, \<open>Expression_Program\<close>: the expression parser
    (\<open>src/common/request_expression.h\<close>), the lists with their interval trees
    (\<open>src/node/data/request_match_list.h\<close>) and the stack machine (\<open>src/node/data/request_expression.h\<close>).
  \<^item> \<open>Cache_Settings\<close>, \<open>Cache_Policy\<close>, \<open>Cache_Proto\<close>: \<open>src/common/cache_settings.h\<close>, \<open>cache_policy.h\<close>,
    \<open>cache_settings_proto.h\<close>, \<open>cache_defaults.h\<close>: settings, rules, layering, validation and messages.
  \<^item> \<open>Website_Proto\<close>, \<open>Website_Validation\<close>, \<open>Security_Validation\<close>: the messages of
    \<open>src/node/proto/edge_control.proto\<close> and their validation (\<open>website_validation.h\<close>, \<open>security_validation.cpp\<close>).
  \<^item> \<open>Route_Program\<close>, \<open>Route_Rules\<close>, \<open>Origin_Selection\<close>, \<open>Origin_Health\<close>: \<open>src/node/data/route_program.h\<close>,
    \<open>route_rules.h\<close>, \<open>origin_selection.h\<close>, \<open>origin_health.h\<close>.
  \<^item> \<open>Security_Program\<close>, \<open>CC_Protection\<close>: \<open>src/node/data/security_program.h\<close>, \<open>cc_protection.h\<close>.
  \<^item> \<open>Cache_Range\<close>, \<open>Range_Response\<close>, \<open>Bytes_Budget\<close>, \<open>Cache_Capacity\<close>: \<open>src/node/data/cache_range.h\<close>,
    \<open>cache_range_response.h\<close>, \<open>buffered_bytes_budget.h\<close>, \<open>cache_capacity.h\<close>.

  \<^bold>\<open>State and effects.\<close>  Structures are records with one field per member and keep the names of the source with a
  prefix; an exception is a value of a sum or option type; an operation on an object takes its record and
  returns the changed one.  Health entries that snapshots and memberships share by pointer live in an explicit
  store.  Counters, health and leases are state machines: a step relation with one rule per operation, and invariants
  by the locale \<open>state_machine\<close>.  An ordered or hashed container is an association list or a map, a view is a
  copy.  Sizes and times are naturals with the wrap-around or saturation of the code written out, or
  64-bit words where the code computes with them (\<open>Bytes_Budget\<close>, \<open>Cache_Capacity\<close>).

  \<^bold>\<open>What is shown.\<close>  Validation is strong enough for what follows it: validated websites and security policies
  compile, and every admitted request of a website finds an origin.  Compiled expressions mean what their
  parsed text means and never leave their stack; the parser ends and returns well-formed programs; lists decide
  membership.  Route rules keep targets absolute and layer every matching proxy rule; the first decisive custom
  rule ends its stage.  The cursor enumerates each origin once, by weight and health; health follows the
  last outcomes and survives a change of configuration only for kept origins.  Counters admit and
  block by their windows, and the aggregator adds up what the workers report, no matter how batches are
  ordered or repeated.  Settings are layered field by field, survive the protocol, and give every status one
  lifetime.  Range responses are exact for every chunking.  Codecs and normal forms have round trips; budgets
  and capacities do not wrap.

  \<^bold>\<open>Bounds and fuel.\<close>  The expression parser recurses to the nesting bound of the code (\<open>primary\<close> with 25 levels) and
  its operator loops take the length of the unread text as fuel, which is never used up (\<open>parse_terminates\<close>).  The search
  of an interval tree takes the number of nodes, which suffices (\<open>ip_list_contains\<close>).  Every other loop is total, by
  structure or with a measure.

  \<^bold>\<open>Parameters.\<close>  RE2 (the record \<open>re2\<close> of the calls the code makes), asio's address parser, protobuf's sizes and
  JSON reader, the digest of a policy, multipart boundaries, clocks and machine capacities are arguments of the definitions.
  What is assumed of them is a named hypothesis: \<open>re2_options_agree\<close> and \<open>re2_accepts_pieces\<close> for RE2 (its
  syntax), and the byte length of parsed addresses for asio.

  \<^bold>\<open>Not modelled.\<close>  Sockets, TLS, coroutines and the framing of HTTP/1 and HTTP/2 (\<open>http_session.h\<close>,
  \<open>http2_session.h\<close>, the origin codecs and connections), which rest on the ruvia, nghttp2 and OpenSSL libraries; the
  response cache (\<open>response_cache.h\<close> and its disk records, keys and compression); listeners, workers and the
  ModSecurity engine; the control channel, self update and encrypted state of \<open>src/node/control\<close> and
  \<open>src/node/runtime\<close>; the management service in \<open>src/service\<close>, which is database transactions and remote
  interfaces; the web client in \<open>src/web\<close>.
\<close>

text \<open>
  Claim C1.  A request of a published website reaches an origin: when the website passes validation
  and is enabled, whatever route rules, rewrites and health reports say, the first call of the
  cursor over the evaluated policy's plan returns an enabled origin of the website.
\<close>

theorem request_finds_origin:
  assumes "validate_website R A P w = None" "w_enabled w" "website_ok w"
    and "compile_website_routes R w = Inr routes"
    and "evaluate_route_rules R routes meth target host hs = Some p"
  shows "\<exists>og c. cursor_next (make_cursor (pol_origin_plan p) sequence health) = Some (Some og, c) \<and>
    og \<in> set (w_origins w) \<and> o_enabled og"
proof -
  from evaluated_policy_plan [OF assms(1,2,4,5)] obtain grp ids where
    plan: "pol_origin_plan p = origin_plan w grp ids" "\<not> plan_empty (pol_origin_plan p)" by blast
  from plan_cursor_first [OF assms(3) plan(2) [unfolded plan(1)]] show ?thesis unfolding plan(1) .
qed

theorem request_finds_origin_witness:
  "\<exists>p og c. evaluate_route_rules sample_re2 sample_routes ''GET'' ''/a/x?y'' ''example.com'' [] = Some p \<and>
     cursor_next (make_cursor (pol_origin_plan p) 7 None) = Some (Some og, c) \<and> o_enabled og"
proof -
  from sample_evaluates obtain p where
    p: "evaluate_route_rules sample_re2 sample_routes ''GET'' ''/a/x?y'' ''example.com'' [] = Some p" by blast
  have "website_ok sample_site" by (simp add: website_ok_def sample_site_def sample_origin_def)
  from request_finds_origin [OF sample_site_ok [of sample_re2 sample_asio sample_protobuf] sample_site_enabled this
      sample_site_compiles p, of 7 None] p
  show ?thesis by blast
qed

end
